(* ===== verification/Prelude.thy ===== *)
theory Prelude
  imports Main "HOL-Library.Word" "HOL-Library.List_Lexorder" "HOL-Library.Char_ord"
begin

text \<open>
  The vocabulary every component of the lsm-db development shares: machine
  integers and byte strings, Rust's \<^verbatim>\<open>Result\<close> as a sum type with its
  \<^verbatim>\<open>?\<close> operator, the order on keys, the little-endian codec of
  \<^verbatim>\<open>to_le_bytes\<close>/\<^verbatim>\<open>from_le_bytes\<close>, and the generic facts on strictly
  ascending association lists that the memtable, the sorted runs and the merge
  all rest on.
\<close>

named_theorems asc_simps \<open>facts on association lists with strictly ascending keys\<close>
named_theorems codec_simps \<open>lengths and inverses of the byte encoders\<close>

section \<open>Machine integers and byte strings\<close>

type_synonym byte = "8 word"
type_synonym bytes = "byte list"
type_synonym u32 = "32 word"
type_synonym u64 = "64 word"

text \<open>The engine runs on a 64-bit target: \<^verbatim>\<open>usize\<close> has the width of \<^verbatim>\<open>u64\<close>.\<close>

type_synonym usize = "64 word"

abbreviation usize_limit :: nat where
  "usize_limit \<equiv> 2 ^ 64"

text \<open>
  Keys compare as Rust compares \<^verbatim>\<open>[u8]\<close> slices: lexicographically, a proper prefix
  first. This is the order \<^verbatim>\<open>HOL-Library.List_Lexorder\<close> installs on lists of words.
\<close>

lemma key_order_examples:
  "([] :: bytes) < [0]" "[1, 2] < ([1, 2, 0] :: bytes)" "[1, 255] < ([2] :: bytes)"
  by simp_all

section \<open>Results and the question-mark operator\<close>

text \<open>
  \<^verbatim>\<open>and_then r f\<close> is \<^verbatim>\<open>Result::and_then\<close>, which is also what \<^verbatim>\<open>r?\<close> followed by
  the rest of the function does: an error returns at once.
\<close>

definition and_then :: "'e + 'a \<Rightarrow> ('a \<Rightarrow> 'e + 'b) \<Rightarrow> 'e + 'b" where
  "and_then r f = (case r of Inl e \<Rightarrow> Inl e | Inr x \<Rightarrow> f x)"

lemma and_then_simps [simp]:
  "and_then (Inl e) f = Inl e"
  "and_then (Inr x) f = f x"
  by (simp_all add: and_then_def)

lemma and_then_Inr_iff:
  "and_then r f = Inr y \<longleftrightarrow> (\<exists>x. r = Inr x \<and> f x = Inr y)"
  by (cases r) auto

lemma and_then_InrE:
  assumes "and_then r f = Inr y"
  obtains x where "r = Inr x" and "f x = Inr y"
  using assms by (auto simp: and_then_Inr_iff)

lemma and_then_Inl_iff:
  "and_then r f = Inl e \<longleftrightarrow> r = Inl e \<or> (\<exists>x. r = Inr x \<and> f x = Inl e)"
  by (cases r) auto

section \<open>Actions: state and errors together\<close>

text \<open>
  Code that performs I/O is an action: from a state to a result and the state it
  leaves. An action that fails returns the state as it stands at that moment, which is
  what an early return through \<^verbatim>\<open>?\<close> leaves behind.
\<close>

type_synonym ('s, 'e, 'a) act = "'s \<Rightarrow> ('e + 'a) \<times> 's"

definition act_ok :: "'a \<Rightarrow> ('s, 'e, 'a) act" where
  "act_ok x s = (Inr x, s)"

definition act_err :: "'e \<Rightarrow> ('s, 'e, 'a) act" where
  "act_err e s = (Inl e, s)"

definition act_res :: "'e + 'a \<Rightarrow> ('s, 'e, 'a) act" where
  "act_res r s = (r, s)"

definition act_then :: "('s, 'e, 'a) act \<Rightarrow> ('a \<Rightarrow> ('s, 'e, 'b) act) \<Rightarrow> ('s, 'e, 'b) act" where
  "act_then m f s = (case m s of (Inl e, t) \<Rightarrow> (Inl e, t) | (Inr x, t) \<Rightarrow> f x t)"

definition act_map_err :: "('d \<Rightarrow> 'e) \<Rightarrow> ('s, 'd, 'a) act \<Rightarrow> ('s, 'e, 'a) act" where
  "act_map_err g m s = (case m s of (Inl e, t) \<Rightarrow> (Inl (g e), t) | (Inr x, t) \<Rightarrow> (Inr x, t))"

lemma act_basic_simps [simp]:
  "act_ok x s = (Inr x, s)" "act_err e s = (Inl e, s)" "act_res r s = (r, s)"
  by (simp_all add: act_ok_def act_err_def act_res_def)

lemma act_then_cases:
  "m s = (Inl e, t) \<Longrightarrow> act_then m f s = (Inl e, t)"
  "m s = (Inr x, t) \<Longrightarrow> act_then m f s = f x t"
  by (simp_all add: act_then_def)

lemma act_then_InrE:
  assumes "act_then m f s = (Inr y, t)"
  obtains x u where "m s = (Inr x, u)" and "f x u = (Inr y, t)"
  using assms by (auto simp: act_then_def split: prod.splits sum.splits)

lemma act_then_InlE:
  assumes "act_then m f s = (Inl e, t)"
  obtains "m s = (Inl e, t)" | x u where "m s = (Inr x, u)" and "f x u = (Inl e, t)"
  using assms by (auto simp: act_then_def split: prod.splits sum.splits)

lemma act_map_err_Inr_iff: "act_map_err g m s = (Inr x, t) \<longleftrightarrow> m s = (Inr x, t)"
  by (auto simp: act_map_err_def split: prod.splits sum.splits)

lemma snd_act_map_err [simp]: "snd (act_map_err g m s) = snd (m s)"
  by (auto simp: act_map_err_def split: prod.splits sum.splits)

text \<open>
  \<^verbatim>\<open>act_keeps R m\<close>: whether \<^verbatim>\<open>m\<close> succeeds or fails at some step, the state it
  leaves is related by \<^verbatim>\<open>R\<close> to the one it found. The frame conditions of the
  file-system operations are instances.
\<close>

definition act_keeps :: "('s \<Rightarrow> 's \<Rightarrow> bool) \<Rightarrow> ('s, 'e, 'a) act \<Rightarrow> bool" where
  "act_keeps R m \<longleftrightarrow> (\<forall>s. R s (snd (m s)))"

lemma act_keepsD: "act_keeps R m \<Longrightarrow> m s = (r, t) \<Longrightarrow> R s t"
  by (metis act_keeps_def snd_conv)

lemma act_keeps_basic [intro]:
  "reflp R \<Longrightarrow> act_keeps R (act_ok x)" "reflp R \<Longrightarrow> act_keeps R (act_err e)"
  "reflp R \<Longrightarrow> act_keeps R (act_res r)"
  by (simp_all add: act_keeps_def reflpD)

lemma act_keeps_map_err: "act_keeps R m \<Longrightarrow> act_keeps R (act_map_err g m)"
  by (simp add: act_keeps_def)

lemma act_keeps_if: "act_keeps R m \<Longrightarrow> act_keeps R n \<Longrightarrow> act_keeps R (if b then m else n)"
  by simp

lemma act_keeps_then:
  assumes "transp R" and "act_keeps R m" and "\<And>x. act_keeps R (f x)"
  shows "act_keeps R (act_then m f)"
  unfolding act_keeps_def
proof
  fix s
  obtain r t where m: "m s = (r, t)" by (cases "m s")
  with assms(2) have "R s t" by (rule act_keepsD)
  moreover have "R t (snd (f x t))" for x using assms(3) [of x] by (simp add: act_keeps_def)
  ultimately show "R s (snd (act_then m f s))"
    using m transpD [OF assms(1)] by (cases r) (auto simp: act_then_cases)
qed

text \<open>\<^verbatim>\<open>act_fails R m\<close>: when \<^verbatim>\<open>m\<close> fails, the state it leaves is related by \<^verbatim>\<open>R\<close> to the one it found.\<close>

definition act_fails :: "('s \<Rightarrow> 's \<Rightarrow> bool) \<Rightarrow> ('s, 'e, 'a) act \<Rightarrow> bool" where
  "act_fails R m \<longleftrightarrow> (\<forall>s e t. m s = (Inl e, t) \<longrightarrow> R s t)"

lemma act_failsD: "act_fails R m \<Longrightarrow> m s = (Inl e, t) \<Longrightarrow> R s t"
  by (simp add: act_fails_def)

lemma act_fails_keeps: "act_keeps R m \<Longrightarrow> act_fails R m"
  by (auto simp: act_fails_def dest: act_keepsD)

lemma act_fails_map_err: "act_fails R m \<Longrightarrow> act_fails R (act_map_err g m)"
  by (auto simp: act_fails_def act_map_err_def split: prod.splits sum.splits)

lemma act_fails_ok: "act_fails R (act_ok x)"
  by (simp add: act_fails_def)

lemma act_fails_then:
  assumes "transp R" and "act_keeps R m" and "\<And>x. act_fails R (f x)"
  shows "act_fails R (act_then m f)"
  unfolding act_fails_def
proof (intro allI impI)
  fix s e t assume "act_then m f s = (Inl e, t)"
  then show "R s t"
  proof (rule act_then_InlE)
    assume "m s = (Inl e, t)"
    with assms(2) show ?thesis by (rule act_keepsD)
  next
    fix x u assume "m s = (Inr x, u)" "f x u = (Inl e, t)"
    with assms show ?thesis by (meson act_keepsD act_failsD transpD)
  qed
qed

section \<open>Little-endian integers\<close>

fun nat_to_le :: "nat \<Rightarrow> nat \<Rightarrow> bytes" where
  "nat_to_le 0 v = []"
| "nat_to_le (Suc n) v = of_nat v # nat_to_le n (v div 256)"

fun le_to_nat :: "bytes \<Rightarrow> nat" where
  "le_to_nat [] = 0"
| "le_to_nat (b # bs) = unat b + 256 * le_to_nat bs"

definition u32_to_le_bytes :: "u32 \<Rightarrow> bytes" where
  "u32_to_le_bytes w = nat_to_le 4 (unat w)"

definition u32_from_le_bytes :: "bytes \<Rightarrow> u32" where
  "u32_from_le_bytes bs = of_nat (le_to_nat bs)"

definition u64_to_le_bytes :: "u64 \<Rightarrow> bytes" where
  "u64_to_le_bytes w = nat_to_le 8 (unat w)"

definition u64_from_le_bytes :: "bytes \<Rightarrow> u64" where
  "u64_from_le_bytes bs = of_nat (le_to_nat bs)"

lemma length_nat_to_le [simp]: "length (nat_to_le n v) = n"
  by (induction n arbitrary: v) auto

lemma le_to_nat_nat_to_le: "le_to_nat (nat_to_le n v) = v mod 256 ^ n"
proof (induction n arbitrary: v)
  case 0
  then show ?case by simp
next
  case (Suc n)
  have "le_to_nat (nat_to_le (Suc n) v) = v mod 256 + 256 * (v div 256 mod 256 ^ n)"
    by (simp add: Suc unat_of_nat)
  also have "\<dots> = v mod (256 * 256 ^ n)"
    by (simp add: mod_mult2_eq)
  finally show ?case by simp
qed

lemma le_to_nat_bound: "le_to_nat bs < 256 ^ length bs"
proof (induction bs)
  case Nil
  then show ?case by simp
next
  case (Cons b bs)
  have "unat b < 256" using unsigned_less [of b] by simp
  with Cons show ?case by simp
qed

lemma nat_to_le_le_to_nat: "nat_to_le (length bs) (le_to_nat bs) = bs"
proof (induction bs)
  case Nil
  then show ?case by simp
next
  case (Cons b bs)
  have "unat b < 256" using unsigned_less [of b] by simp
  then have "(unat b + 256 * le_to_nat bs) div 256 = le_to_nat bs" by simp
  moreover have "(of_nat (unat b + 256 * le_to_nat bs) :: byte) = b"
  proof -
    have "(of_nat 256 :: byte) = 0" by simp
    then show ?thesis unfolding of_nat_add of_nat_mult by (simp del: of_nat_numeral)
  qed
  ultimately show ?case using Cons by simp
qed

lemma u32_from_le_inverse: "length bs = 4 \<Longrightarrow> u32_to_le_bytes (u32_from_le_bytes bs) = bs"
  using le_to_nat_bound [of bs] nat_to_le_le_to_nat [of bs]
  by (simp add: u32_from_le_bytes_def u32_to_le_bytes_def unat_of_nat)

lemma u64_from_le_inverse: "length bs = 8 \<Longrightarrow> u64_to_le_bytes (u64_from_le_bytes bs) = bs"
  using le_to_nat_bound [of bs] nat_to_le_le_to_nat [of bs]
  by (simp add: u64_from_le_bytes_def u64_to_le_bytes_def unat_of_nat)

lemma length_u32_to_le_bytes [simp, codec_simps]: "length (u32_to_le_bytes w) = 4"
  by (simp add: u32_to_le_bytes_def)

lemma length_u64_to_le_bytes [simp, codec_simps]: "length (u64_to_le_bytes w) = 8"
  by (simp add: u64_to_le_bytes_def)

lemma le_bytes_not_Nil [simp]: "u32_to_le_bytes w \<noteq> []" "u64_to_le_bytes x \<noteq> []"
  by (simp_all flip: length_greater_0_conv)

lemma u32_le_roundtrip [simp, codec_simps]: "u32_from_le_bytes (u32_to_le_bytes w) = w"
proof -
  have "unat w < 256 ^ 4" using unsigned_less [of w] by simp
  then show ?thesis
    by (simp add: u32_from_le_bytes_def u32_to_le_bytes_def le_to_nat_nat_to_le)
qed

lemma u64_le_roundtrip [simp, codec_simps]: "u64_from_le_bytes (u64_to_le_bytes w) = w"
proof -
  have "unat w < 256 ^ 8" using unsigned_less [of w] by simp
  then show ?thesis
    by (simp add: u64_from_le_bytes_def u64_to_le_bytes_def le_to_nat_nat_to_le)
qed

lemma unat_of_nat_u32 [simp]: "n < 2 ^ 32 \<Longrightarrow> unat (of_nat n :: u32) = n"
  by (simp add: unat_of_nat)

lemma unat_of_nat_u64 [simp]: "n < usize_limit \<Longrightarrow> unat (of_nat n :: u64) = n"
  by (simp add: unat_of_nat)

lemma unat_succ_u64: "(n :: u64) + 1 \<noteq> 0 \<Longrightarrow> unat (n + 1) = unat n + 1"
  using unatSuc [of n] by (simp add: add.commute)

lemma succ_nonzero_u64:
  assumes "unat (n :: u64) + 1 < 2 ^ 64"
  shows "n + 1 \<noteq> 0"
proof -
  have "unat (n + 1) = unat n + 1" using assms by (simp add: unat_word_ariths)
  then show ?thesis by auto
qed

lemma less_succ_u64: "(n :: u64) + 1 \<noteq> 0 \<Longrightarrow> n < n + 1"
  by (simp add: word_less_nat_alt unat_succ_u64)

lemma ucast_u32_u64: "n < 2 ^ 32 \<Longrightarrow> ucast (of_nat n :: u32) = (of_nat n :: u64)"
  by (simp add: word_unat_eq_iff unsigned_ucast_eq unsigned_of_nat take_bit_eq_mod)

section \<open>Bounds-checked readers\<close>

text \<open>
  \<^verbatim>\<open>read_exact_at\<close> is the shape that \<^verbatim>\<open>read_array_at\<close>/\<^verbatim>\<open>read_bytes_at\<close> of sstable.rs
  and \<^verbatim>\<open>read_u32\<close>/\<^verbatim>\<open>read_bytes\<close> of durability.rs share: a checked addition on the
  position, then \<^verbatim>\<open>bytes.get(pos..end)\<close>. The two error values are parameters.
\<close>

definition read_exact_at ::
    "'e \<Rightarrow> 'e \<Rightarrow> bytes \<Rightarrow> nat \<Rightarrow> nat \<Rightarrow> 'e + (bytes \<times> nat)" where
  "read_exact_at overflow truncated bs pos n =
     (if usize_limit \<le> pos + n then Inl overflow
      else if pos + n \<le> length bs then Inr (take n (drop pos bs), pos + n)
      else Inl truncated)"

lemma read_exact_at_Inr:
  "read_exact_at ov tr bs pos n = Inr (out, pos') \<Longrightarrow>
     pos' = pos + n \<and> pos' \<le> length bs \<and> length out = n \<and> pos' < usize_limit"
  by (auto simp: read_exact_at_def split: if_splits)

lemma read_exact_at_append [simp]:
  assumes "length (pre @ mid @ post) < usize_limit"
  shows "read_exact_at ov tr (pre @ mid @ post) (length pre) (length mid)
           = Inr (mid, length pre + length mid)"
  using assms by (simp add: read_exact_at_def)

text \<open>Reading what an encoder left at the current position, with the rest named.\<close>

lemma drop_step: "drop pos bs = mid @ post \<Longrightarrow> drop (pos + length mid) bs = post"
  by (metis add.commute append_eq_conv_conj drop_drop)

lemma drop_length_le: "drop pos bs = mid @ post \<Longrightarrow> mid \<noteq> [] \<Longrightarrow> pos + length mid \<le> length bs"
  by (metis append_eq_append_conv_if append_is_Nil_conv drop_eq_Nil length_append length_drop
      le_add1 le_diff_conv2 linorder_not_le nat_less_le add.commute)

lemma read_exact_at_drop:
  assumes "drop pos bs = mid @ post" and "pos \<le> length bs" and "length bs < usize_limit"
  shows "read_exact_at ov tr bs pos (length mid) = Inr (mid, pos + length mid)"
proof -
  have "length bs = pos + length mid + length post"
    using assms(1,2) by (metis append_take_drop_id length_append length_take min.absorb2 add.assoc)
  with assms show ?thesis by (simp add: read_exact_at_def)
qed

lemma read_exact_at_take:
  "read_exact_at ov tr bs pos n = Inr (out, pos') \<Longrightarrow> drop pos bs = out @ drop pos' bs"
  by (auto simp: read_exact_at_def split: if_splits)
    (metis add.commute append_take_drop_id drop_drop)

section \<open>Strictly ascending association lists\<close>

abbreviation asc_keys :: "('k::linorder \<times> 'v) list \<Rightarrow> bool" where
  "asc_keys kvs \<equiv> sorted_wrt (<) (map fst kvs)"

lemma asc_keys_Cons [asc_simps]:
  "asc_keys ((k, v) # kvs) \<longleftrightarrow> (\<forall>k' \<in> fst ` set kvs. k < k') \<and> asc_keys kvs"
  by simp

lemma asc_keys_append [asc_simps]:
  "asc_keys (xs @ ys) \<longleftrightarrow>
     asc_keys xs \<and> asc_keys ys \<and> (\<forall>a \<in> fst ` set xs. \<forall>b \<in> fst ` set ys. a < b)"
  by (simp add: sorted_wrt_append)

lemma asc_keys_distinct: "asc_keys kvs \<Longrightarrow> distinct (map fst kvs)"
  by (simp add: strict_sorted_iff)

lemma asc_keys_filter [asc_simps]: "asc_keys kvs \<Longrightarrow> asc_keys (filter P kvs)"
  by (induction kvs) auto

lemma asc_keys_map_of_iff:
  "asc_keys kvs \<Longrightarrow> map_of kvs k = Some v \<longleftrightarrow> (k, v) \<in> set kvs"
  by (simp add: asc_keys_distinct)

lemma map_of_less_head [asc_simps]:
  "\<forall>k' \<in> fst ` set kvs. (k::'k::linorder) < k' \<Longrightarrow> map_of kvs k = None"
  by (force simp: map_of_eq_None_iff)

text \<open>Two ascending association lists with the same lookups are the same list.\<close>

lemma asc_keys_unique:
  assumes "asc_keys xs" and "asc_keys ys" and "map_of xs = map_of ys"
  shows "xs = ys"
proof (rule map_sorted_distinct_set_unique [where f = fst])
  show "inj_on fst (set xs \<union> set ys)"
  proof (rule inj_onI)
    fix p q assume "p \<in> set xs \<union> set ys" "q \<in> set xs \<union> set ys" "fst p = fst q"
    then have "map_of xs (fst p) = Some (snd p)" "map_of xs (fst q) = Some (snd q)"
      using assms asc_keys_map_of_iff [of xs] asc_keys_map_of_iff [of ys]
      by (metis Un_iff prod.collapse)+
    with \<open>fst p = fst q\<close> show "p = q" by (simp add: prod_eq_iff)
  qed
  show "set xs = set ys"
    using assms asc_keys_map_of_iff [of xs] asc_keys_map_of_iff [of ys] by auto
qed (use assms in \<open>simp_all add: strict_sorted_iff\<close>)

end
