(* ===== verification/Errors.thy ===== *)
theory Errors
  imports Prelude
begin

text \<open>
  The crate's error type (src/error.rs) and the value a key maps to in one source
  (src/record.rs). \<^verbatim>\<open>std::io::Error\<close> is kept to what the engine inspects: its kind,
  and the message of an error built with \<^verbatim>\<open>io::Error::other\<close>.
\<close>

section \<open>Errors\<close>

datatype io_error = NotFound | UnexpectedEof | InvalidData | PermissionDenied | Other string

datatype error = Io string io_error | Corruption string

type_synonym 'a res = "error + 'a"

definition io :: "string \<Rightarrow> io_error \<Rightarrow> error" where
  "io context source = Io context source"

definition corruption :: "string \<Rightarrow> error" where
  "corruption reason = Corruption reason"

text \<open>
  \<^verbatim>\<open>Display\<close>; the text of the wrapped \<^verbatim>\<open>io::Error\<close> is produced by the standard
  library and is an argument.
\<close>

fun error_fmt :: "(io_error \<Rightarrow> string) \<Rightarrow> error \<Rightarrow> string" where
  "error_fmt show_io (Io context source) =
     ''i/o error while '' @ context @ '': '' @ show_io source"
| "error_fmt show_io (Corruption reason) = ''sorted-run corruption: '' @ reason"

fun error_source :: "error \<Rightarrow> io_error option" where
  "error_source (Io context source) = Some source"
| "error_source (Corruption reason) = None"

definition error_from_io :: "io_error \<Rightarrow> error" where
  "error_from_io source = Io ''performing a storage i/o operation'' source"

fun error_kind :: "error \<Rightarrow> string" where
  "error_kind (Io context source) = ''Io''"
| "error_kind (Corruption reason) = ''Corruption''"

definition error_caption :: "error \<Rightarrow> string" where
  "error_caption e = ''lsm storage engine error''"

fun is_fatal :: "error \<Rightarrow> bool" where
  "is_fatal (Corruption reason) = True"
| "is_fatal (Io context source) = False"

lemma io_not_corruption [simp]: "io c s \<noteq> corruption r" "corruption r \<noteq> io c s"
  by (simp_all add: io_def corruption_def)

lemma is_fatal_iff_no_source: "is_fatal e \<longleftrightarrow> error_source e = None"
  by (cases e) auto

section \<open>Records\<close>

datatype record_v = Value bytes | Tombstone

fun value_len :: "record_v \<Rightarrow> nat" where
  "value_len (Value v) = length v"
| "value_len Tombstone = 0"

type_synonym entry = "bytes \<times> record_v"

text \<open>What a reader sees of a record: a tombstone is the newest word on a deleted key.\<close>

fun visible :: "record_v \<Rightarrow> bytes option" where
  "visible (Value v) = Some v"
| "visible Tombstone = None"

end
