(* ===== verification/BTree_Map.thy ===== *)
theory BTree_Map
  imports Prelude
begin

text \<open>
  The part of \<^verbatim>\<open>std::collections::BTreeMap\<close> the engine uses. A map is its entries in
  ascending key order, which is what \<^verbatim>\<open>iter\<close> walks; \<^verbatim>\<open>insert\<close> replaces an occupied
  entry and otherwise places the new one in order. The directory of the file-system
  model is the same structure with file names as keys.

  The locale \<^verbatim>\<open>ordered_map\<close> is the interface the clients rely on; the
  interpretation at the end discharges its laws for this model.
\<close>

type_synonym ('k, 'v) btree = "('k \<times> 'v) list"

fun btree_insert :: "'k::linorder \<Rightarrow> 'v \<Rightarrow> ('k, 'v) btree \<Rightarrow> ('k, 'v) btree" where
  "btree_insert k v [] = [(k, v)]"
| "btree_insert k v (e # m) =
     (if fst e < k then e # btree_insert k v m
      else if fst e = k then (k, v) # m
      else (k, v) # e # m)"

definition btree_get :: "('k, 'v) btree \<Rightarrow> 'k \<Rightarrow> 'v option" where
  "btree_get m k = map_of m k"

definition btree_remove :: "'k \<Rightarrow> ('k, 'v) btree \<Rightarrow> ('k, 'v) btree" where
  "btree_remove k m = filter (\<lambda>e. fst e \<noteq> k) m"

locale ordered_map =
  fixes empty :: 'm
    and insert :: "'k::linorder \<Rightarrow> 'v \<Rightarrow> 'm \<Rightarrow> 'm"
    and remove :: "'k \<Rightarrow> 'm \<Rightarrow> 'm"
    and get :: "'m \<Rightarrow> 'k \<Rightarrow> 'v option"
    and iter :: "'m \<Rightarrow> ('k \<times> 'v) list"
    and inv :: "'m \<Rightarrow> bool"
  assumes inv_empty: "inv empty"
    and iter_empty: "iter empty = []"
    and inv_insert: "inv m \<Longrightarrow> inv (insert k v m)"
    and inv_remove: "inv m \<Longrightarrow> inv (remove k m)"
    and get_insert: "inv m \<Longrightarrow> get (insert k v m) = (get m)(k \<mapsto> v)"
    and get_remove: "inv m \<Longrightarrow> get (remove k m) = (get m)(k := None)"
    and iter_asc: "inv m \<Longrightarrow> asc_keys (iter m)"
    and get_iter: "inv m \<Longrightarrow> get m = map_of (iter m)"
begin

lemma get_empty: "get empty = Map.empty"
  using get_iter [OF inv_empty] by (simp add: iter_empty)

lemma inv_fold_insert: "inv m \<Longrightarrow> inv (fold (\<lambda>(k, v). insert k v) kvs m)"
  by (induction kvs arbitrary: m) (auto simp: inv_insert)

text \<open>Applying a sequence of writes in order leaves the last write of each key.\<close>

lemma get_fold_insert:
  "inv m \<Longrightarrow> get (fold (\<lambda>(k, v). insert k v) kvs m) = get m ++ map_of (rev kvs)"
proof (induction kvs arbitrary: m)
  case Nil
  then show ?case by simp
next
  case (Cons kv kvs)
  obtain k v where kv: "kv = (k, v)" by (cases kv)
  have "get (fold (\<lambda>(k, v). insert k v) kvs (insert k v m))
          = get (insert k v m) ++ map_of (rev kvs)"
    using Cons by (simp add: inv_insert)
  then show ?case
    using Cons.prems by (auto simp: kv get_insert map_add_def split: option.splits)
qed

text \<open>The iteration order and the lookups determine each other.\<close>

lemma iter_unique: "inv m \<Longrightarrow> inv n \<Longrightarrow> get m = get n \<Longrightarrow> iter m = iter n"
  using asc_keys_unique iter_asc get_iter by metis

lemma iter_empty_iff: "inv m \<Longrightarrow> iter m = [] \<longleftrightarrow> get m = Map.empty"
  by (simp add: get_iter)

end

lemma set_btree_insert:
  "fst ` set (btree_insert k v m) = insert k (fst ` set m)"
  by (induction m) auto

lemma map_of_btree_insert: "map_of (btree_insert k v m) = (map_of m)(k \<mapsto> v)"
  by (induction m) (auto simp: fun_eq_iff)

lemma asc_btree_insert: "asc_keys m \<Longrightarrow> asc_keys (btree_insert k v m)"
proof (induction m)
  case Nil
  then show ?case by simp
next
  case (Cons e m)
  then have rest: "\<forall>k' \<in> fst ` set m. fst e < k'" "asc_keys m" by auto
  show ?case
  proof (cases "fst e < k")
    case True
    with Cons rest have "\<forall>k' \<in> fst ` set (btree_insert k v m). fst e < k'"
      by (simp only: set_btree_insert) auto
    with True Cons.IH rest show ?thesis by simp
  next
    case False
    with Cons rest show ?thesis by (auto intro: less_trans)
  qed
qed

lemma map_of_btree_remove: "map_of (btree_remove k m) = (map_of m)(k := None)"
  by (induction m) (auto simp: btree_remove_def fun_eq_iff)

lemma btree_insert_not_Nil [simp]: "btree_insert k v m \<noteq> []"
  by (cases m) auto

interpretation btree: ordered_map "[]" btree_insert btree_remove btree_get "\<lambda>m. m" asc_keys
proof unfold_locales
  show "asc_keys (btree_remove k m)" if "asc_keys m" for k :: 'a and m :: "('a, 'b) btree"
    using that by (simp add: btree_remove_def asc_keys_filter)
qed (simp_all add: asc_btree_insert btree_get_def [abs_def] map_of_btree_insert
    map_of_btree_remove)

end
