(* ===== verification/File_System.thy ===== *)
theory File_System
  imports Errors BTree_Map
begin

text \<open>
  The database directory and the \<^verbatim>\<open>std::fs\<close> calls the engine makes on it. A file is its
  bytes and whether they have been forced to stable storage by \<^verbatim>\<open>sync_all\<close>.

  Any call can fail. The outcome of the \<^verbatim>\<open>n\<close>-th call since the state was created is
  \<^verbatim>\<open>plan n\<close>: \<^verbatim>\<open>None\<close> for success, \<^verbatim>\<open>Some (e, m)\<close> for the error \<^verbatim>\<open>e\<close>, where a
  failing write leaves its first \<^verbatim>\<open>m\<close> bytes behind. Nothing is assumed about \<^verbatim>\<open>plan\<close>,
  so every theorem covers every pattern of failures; a plan that fails from step \<^verbatim>\<open>n\<close> on
  is a crash at step \<^verbatim>\<open>n\<close>, because the engine returns at its first error and the
  directory it leaves is the one the crash leaves.

  \<^verbatim>\<open>undo\<close> records the changes of directory entries that nothing has forced to the medium
  yet: the name, and what it stood for before. Creating, renaming and removing a file add
  to it, and only \<^verbatim>\<open>sync_all\<close> on a handle of the directory, which is \<^verbatim>\<open>fs_sync_dir\<close>, clears it.
\<close>

datatype fnode = File (fdata: bytes) (fsynced: bool)

record fs =
  dir :: "(string, fnode) btree"
  plan :: "nat \<Rightarrow> (io_error \<times> nat) option"
  clock :: nat
  undo :: "(string \<times> fnode option) list"

type_synonym ('e, 'a) fsact = "(fs, 'e, 'a) act"

definition fs_lookup :: "fs \<Rightarrow> string \<Rightarrow> fnode option" where
  "fs_lookup d name = btree_get (dir d) name"

definition tick :: "fs \<Rightarrow> fs" where
  "tick d = d\<lparr>clock := Suc (clock d)\<rparr>"

definition set_file :: "string \<Rightarrow> fnode \<Rightarrow> fs \<Rightarrow> fs" where
  "set_file name f d = d\<lparr>dir := btree_insert name f (dir d)\<rparr>"

definition del_file :: "string \<Rightarrow> fs \<Rightarrow> fs" where
  "del_file name d = d\<lparr>dir := btree_remove name (dir d)\<rparr>"

definition note_entry :: "string \<Rightarrow> fs \<Rightarrow> fs" where
  "note_entry name d = d\<lparr>undo := (name, fs_lookup d name) # undo d\<rparr>"

definition note_new :: "string \<Rightarrow> fs \<Rightarrow> fs" where
  "note_new name d = (if fs_lookup d name = None then note_entry name d else d)"

text \<open>\<^verbatim>\<open>OpenOptions::new().write(true).create(true).truncate(true).open\<close> and \<^verbatim>\<open>File::create\<close>.\<close>

definition fs_create :: "string \<Rightarrow> (io_error, unit) fsact" where
  "fs_create name d =
     (case plan d (clock d) of
        Some (e, m) \<Rightarrow> (Inl e, tick d)
      | None \<Rightarrow> (Inr (), set_file name (File [] False) (note_new name (tick d))))"

text \<open>\<^verbatim>\<open>write_all\<close> on a handle opened for writing; data written is not yet synced.\<close>

definition fs_write_all :: "string \<Rightarrow> bytes \<Rightarrow> (io_error, unit) fsact" where
  "fs_write_all name bs d =
     (let append = (\<lambda>xs d. case fs_lookup d name of
                       None \<Rightarrow> d
                     | Some f \<Rightarrow> set_file name (File (fdata f @ xs) False) d) in
      case plan d (clock d) of
        Some (e, m) \<Rightarrow> (Inl e, append (take m bs) (tick d))
      | None \<Rightarrow> (Inr (), append bs (tick d)))"

definition fs_sync_all :: "string \<Rightarrow> (io_error, unit) fsact" where
  "fs_sync_all name d =
     (case plan d (clock d) of
        Some (e, m) \<Rightarrow> (Inl e, tick d)
      | None \<Rightarrow>
          (Inr (), case fs_lookup d name of
                     None \<Rightarrow> tick d
                   | Some f \<Rightarrow> set_file name (File (fdata f) True) (tick d)))"

text \<open>\<^verbatim>\<open>fs::rename\<close> replaces the target in one step.\<close>

definition fs_rename :: "string \<Rightarrow> string \<Rightarrow> (io_error, unit) fsact" where
  "fs_rename src dst d =
     (case plan d (clock d) of
        Some (e, m) \<Rightarrow> (Inl e, tick d)
      | None \<Rightarrow>
          (case fs_lookup d src of
             None \<Rightarrow> (Inl NotFound, tick d)
           | Some f \<Rightarrow> (Inr (), set_file dst f (del_file src (note_entry dst (note_entry src (tick d)))))))"

definition fs_remove_file :: "string \<Rightarrow> (io_error, unit) fsact" where
  "fs_remove_file name d =
     (case plan d (clock d) of
        Some (e, m) \<Rightarrow> (Inl e, tick d)
      | None \<Rightarrow>
          (case fs_lookup d name of
             None \<Rightarrow> (Inl NotFound, tick d)
           | Some f \<Rightarrow> (Inr (), del_file name (note_entry name (tick d)))))"

definition fs_read :: "string \<Rightarrow> (io_error, bytes) fsact" where
  "fs_read name d =
     (case plan d (clock d) of
        Some (e, m) \<Rightarrow> (Inl e, tick d)
      | None \<Rightarrow>
          (case fs_lookup d name of
             None \<Rightarrow> (Inl NotFound, tick d)
           | Some f \<Rightarrow> (Inr (fdata f), tick d)))"

text \<open>\<^verbatim>\<open>Path::exists\<close> answers \<^verbatim>\<open>false\<close> when the file's metadata cannot be read.\<close>

definition fs_exists :: "string \<Rightarrow> ('e, bool) fsact" where
  "fs_exists name d =
     (case plan d (clock d) of
        Some (e, m) \<Rightarrow> (Inr False, tick d)
      | None \<Rightarrow> (Inr (fs_lookup d name \<noteq> None), tick d))"

definition fs_read_dir :: "(io_error, string list) fsact" where
  "fs_read_dir d =
     (case plan d (clock d) of
        Some (e, m) \<Rightarrow> (Inl e, tick d)
      | None \<Rightarrow> (Inr (map fst (dir d)), tick d))"

definition fs_sync_dir :: "(io_error, unit) fsact" where
  "fs_sync_dir d =
     (case plan d (clock d) of
        Some (e, m) \<Rightarrow> (Inl e, tick d)
      | None \<Rightarrow> (Inr (), (tick d)\<lparr>undo := []\<rparr>))"

text \<open>\<^verbatim>\<open>fs::write\<close>: create or truncate, then write everything, without a sync.\<close>

definition fs_write :: "string \<Rightarrow> bytes \<Rightarrow> (io_error, unit) fsact" where
  "fs_write name bs = act_then (fs_create name) (\<lambda>_. fs_write_all name bs)"

text \<open>
  Any other call on an open handle: it fails as the plan says, or gives the outcome
  computed from the handle. \<^verbatim>\<open>pread_exact\<close> fills the whole buffer or reports the end of
  the file.
\<close>

definition fs_call :: "io_error + 'a \<Rightarrow> (io_error, 'a) fsact" where
  "fs_call r d =
     (case plan d (clock d) of Some (e, m) \<Rightarrow> (Inl e, tick d) | None \<Rightarrow> (r, tick d))"

definition pread_exact :: "bytes \<Rightarrow> nat \<Rightarrow> nat \<Rightarrow> io_error + bytes" where
  "pread_exact bs n off =
     (if n = 0 \<or> off + n \<le> length bs then Inr (take n (drop off bs)) else Inl UnexpectedEof)"

text \<open>
  The Windows variant: \<^verbatim>\<open>seek_read\<close> may return fewer bytes than asked for, so the buffer is
  filled in a loop. The system call is a parameter; \<^verbatim>\<open>seek_reads bs\<close> is what the standard
  library documents for it on a file of contents \<^verbatim>\<open>bs\<close>: some of the bytes from the offset on,
  no more than the buffer takes, and none only for an empty buffer or at the end of the file.
\<close>

function pread_loop :: "(nat \<Rightarrow> nat \<Rightarrow> io_error + bytes) \<Rightarrow> nat \<Rightarrow> nat \<Rightarrow> bytes \<Rightarrow> io_error + bytes" where
  "pread_loop seek_read n off buf =
     (if n \<le> length buf then Inr buf
      else case seek_read (n - length buf) (off + length buf) of
             Inl e \<Rightarrow> Inl e
           | Inr r \<Rightarrow> if r = [] then Inl UnexpectedEof else pread_loop seek_read n off (buf @ r))"
  by pat_completeness auto
termination
  by (relation "measure (\<lambda>(seek_read, n, off, buf). n - length buf)") (auto intro!: diff_less_mono2 simp flip: length_greater_0_conv)

declare pread_loop.simps [simp del]

definition seek_reads :: "bytes \<Rightarrow> (nat \<Rightarrow> nat \<Rightarrow> io_error + bytes) \<Rightarrow> bool" where
  "seek_reads bs seek_read \<longleftrightarrow>
     (\<forall>n off. \<exists>m \<le> n. seek_read n off = Inr (take m (drop off bs)) \<and> (m = 0 \<longrightarrow> n = 0))"

section \<open>Positioned reads\<close>

text \<open>However the reads are cut up, the loop returns what one exact read returns.\<close>

lemma pread_loop_from:
  assumes s: "seek_reads bs seek_read" and "off + k \<le> length bs \<or> k = 0" and "k \<le> n"
  shows "pread_loop seek_read n off (take k (drop off bs)) = pread_exact bs n off"
  using assms(2,3)
proof (induction "n - k" arbitrary: k rule: less_induct)
  case less
  let ?buf = "take k (drop off bs)"
  have l: "length ?buf = k" using less.prems(1) by auto
  show ?case
  proof (cases "k = n")
    case True
    with less.prems l show ?thesis by (subst pread_loop.simps) (auto simp: pread_exact_def)
  next
    case False
    with less.prems have kn: "k < n" by simp
    with s obtain m where m: "m \<le> n - k" "0 < m"
      "seek_read (n - k) (off + k) = Inr (take m (drop (off + k) bs))"
      unfolding seek_reads_def by (metis neq0_conv zero_less_diff)
    let ?r = "take m (drop (off + k) bs)"
    have step: "pread_loop seek_read n off ?buf
        = (if ?r = [] then Inl UnexpectedEof else pread_loop seek_read n off (take (k + length ?r) (drop off bs)))"
    proof -
      have "?buf @ ?r = take (k + length ?r) (drop off bs)"
        by (simp add: take_add add.commute min_def)
      with kn l m(3) show ?thesis by (subst pread_loop.simps) (simp del: append_take_drop_id)
    qed
    show ?thesis
    proof (cases "?r = []")
      case True
      with m(2) have "length bs \<le> off + k" by auto
      with step True kn show ?thesis by (simp add: pread_exact_def)
    next
      case nonempty: False
      have "pread_loop seek_read n off (take (k + length ?r) (drop off bs)) = pread_exact bs n off"
      proof (rule less.hyps)
        show "n - (k + length ?r) < n - k" using nonempty kn m(1) by (cases "length ?r") auto
      next
        show "off + (k + length ?r) \<le> length bs \<or> k + length ?r = 0" using nonempty by auto
      next
        show "k + length ?r \<le> n" using m(1) kn by auto
      qed
      with step nonempty show ?thesis by simp
    qed
  qed
qed

lemma pread_loop_exact: "seek_reads bs seek_read \<Longrightarrow> pread_loop seek_read n off [] = pread_exact bs n off"
  using pread_loop_from [of bs seek_read off 0 n] by simp

lemma seek_reads_short: "seek_reads bs (\<lambda>n off. Inr (take (min n 1) (drop off bs)))"
  by (auto simp: seek_reads_def intro!: exI [of _ "min _ 1"])

section \<open>Directory lemmas\<close>

definition fs_inv :: "fs \<Rightarrow> bool" where
  "fs_inv d \<longleftrightarrow> asc_keys (dir d)"

lemma fs_lookup_tick [simp]: "fs_lookup (tick d) n = fs_lookup d n"
  by (simp add: fs_lookup_def tick_def)

lemma fs_lookup_set_file [simp]:
  "fs_lookup (set_file n f d) n' = (if n' = n then Some f else fs_lookup d n')"
  by (simp add: fs_lookup_def set_file_def btree_get_def map_of_btree_insert)

lemma fs_lookup_del_file [simp]:
  "fs_lookup (del_file n d) n' = (if n' = n then None else fs_lookup d n')"
  by (simp add: fs_lookup_def del_file_def btree_get_def map_of_btree_remove)

lemma fs_inv_simps [simp]:
  "fs_inv (tick d) = fs_inv d"
  "fs_inv d \<Longrightarrow> fs_inv (set_file n f d)"
  "fs_inv d \<Longrightarrow> fs_inv (del_file n d)"
  by (simp_all add: fs_inv_def tick_def set_file_def del_file_def asc_btree_insert
      btree_remove_def asc_keys_filter)

lemma note_simps [simp]:
  "fs_lookup (note_entry n d) n' = fs_lookup d n'" "fs_lookup (note_new n d) n' = fs_lookup d n'"
  "fs_inv (note_entry n d) = fs_inv d" "fs_inv (note_new n d) = fs_inv d"
  "plan (note_entry n d) = plan d" "plan (note_new n d) = plan d"
  "clock (note_entry n d) = clock d" "clock (note_new n d) = clock d"
  by (simp_all add: note_entry_def note_new_def fs_lookup_def fs_inv_def)

lemma plan_simps [simp]:
  "plan (tick d) = plan d" "plan (set_file n f d) = plan d" "plan (del_file n d) = plan d"
  "clock (tick d) = Suc (clock d)" "clock (set_file n f d) = clock d" "clock (del_file n d) = clock d"
  by (simp_all add: tick_def set_file_def del_file_def)

lemma fs_lookup_dir: "fs_lookup d n \<noteq> None \<longleftrightarrow> n \<in> set (map fst (dir d))"
  by (simp add: fs_lookup_def btree_get_def map_of_eq_None_iff)

subsection \<open>Frames\<close>

text \<open>
  \<^verbatim>\<open>touches P\<close>: only files whose name satisfies \<^verbatim>\<open>P\<close> may differ, the directory stays a
  directory, the failure plan is the same and the count of calls does not go back.
\<close>

definition touches :: "(string \<Rightarrow> bool) \<Rightarrow> fs \<Rightarrow> fs \<Rightarrow> bool" where
  "touches P d d' \<longleftrightarrow> (\<forall>n. \<not> P n \<longrightarrow> fs_lookup d' n = fs_lookup d n)
     \<and> (fs_inv d \<longrightarrow> fs_inv d') \<and> plan d' = plan d \<and> clock d \<le> clock d'"

lemma touches_refl [simp]: "reflp (touches P)" "touches P d d"
  by (simp_all add: touches_def reflp_def)

lemma touches_transp [simp]: "transp (touches P)"
  by (simp add: touches_def transp_def)

lemma touches_tick [simp]: "touches P d (tick d)"
  by (simp add: touches_def)

lemma touches_trans: "touches P d d' \<Longrightarrow> touches P d' d'' \<Longrightarrow> touches P d d''"
  using touches_transp [of P] by (rule transpD)

lemma touches_mono: "touches P d d' \<Longrightarrow> (\<And>n. P n \<Longrightarrow> Q n) \<Longrightarrow> touches Q d d'"
  by (auto simp: touches_def)

lemma touchesD: "touches P d d' \<Longrightarrow> \<not> P n \<Longrightarrow> fs_lookup d' n = fs_lookup d n"
  by (simp add: touches_def)

lemma touches_inv: "touches P d d' \<Longrightarrow> fs_inv d \<Longrightarrow> fs_inv d'"
  by (simp add: touches_def)

lemma act_keeps_touches_mono:
  "act_keeps (touches P) m \<Longrightarrow> (\<And>n. P n \<Longrightarrow> Q n) \<Longrightarrow> act_keeps (touches Q) m"
  by (auto simp: act_keeps_def intro: touches_mono)

lemma fs_create_keeps: "act_keeps (touches (\<lambda>n. n = name)) (fs_create name)"
  by (simp add: act_keeps_def touches_def fs_create_def split: option.splits)

lemma fs_write_all_keeps: "act_keeps (touches (\<lambda>n. n = name)) (fs_write_all name bs)"
  by (simp add: act_keeps_def touches_def fs_write_all_def Let_def split: option.splits)

lemma fs_sync_all_keeps: "act_keeps (touches (\<lambda>n. n = name)) (fs_sync_all name)"
  by (simp add: act_keeps_def touches_def fs_sync_all_def split: option.splits)

lemma fs_rename_keeps: "act_keeps (touches (\<lambda>n. n = src \<or> n = dst)) (fs_rename src dst)"
  by (simp add: act_keeps_def touches_def fs_rename_def split: option.splits)

lemma fs_remove_file_keeps: "act_keeps (touches (\<lambda>n. n = name)) (fs_remove_file name)"
  by (simp add: act_keeps_def touches_def fs_remove_file_def split: option.splits)

lemma fs_read_keeps: "act_keeps (touches (\<lambda>n. False)) (fs_read name)"
  by (simp add: act_keeps_def touches_def fs_read_def split: option.splits)

lemma fs_exists_keeps: "act_keeps (touches (\<lambda>n. False)) (fs_exists name)"
  by (simp add: act_keeps_def touches_def fs_exists_def split: option.splits)

lemma fs_read_dir_keeps: "act_keeps (touches (\<lambda>n. False)) fs_read_dir"
  by (simp add: act_keeps_def touches_def fs_read_dir_def split: option.splits)

lemma fs_call_keeps: "act_keeps (touches (\<lambda>n. False)) (fs_call r)"
  by (simp add: act_keeps_def touches_def fs_call_def split: option.splits)

lemma fs_write_keeps: "act_keeps (touches (\<lambda>n. n = name)) (fs_write name bs)"
  unfolding fs_write_def
  by (intro act_keeps_then fs_create_keeps fs_write_all_keeps) simp

lemmas fs_keeps = fs_create_keeps fs_write_all_keeps fs_sync_all_keeps fs_rename_keeps
  fs_remove_file_keeps fs_read_keeps fs_exists_keeps fs_read_dir_keeps fs_write_keeps
  fs_call_keeps

subsection \<open>Successful calls\<close>

lemma fs_create_ok:
  "fs_create name d = (Inr x, d') \<Longrightarrow> fs_lookup d' name = Some (File [] False)"
  by (auto simp: fs_create_def split: option.splits)

lemma fs_write_all_ok:
  "fs_write_all name bs d = (Inr x, d') \<Longrightarrow> fs_lookup d name = Some f \<Longrightarrow>
     fs_lookup d' name = Some (File (fdata f @ bs) False)"
  by (auto simp: fs_write_all_def Let_def split: option.splits)

lemma fs_sync_all_ok:
  "fs_sync_all name d = (Inr x, d') \<Longrightarrow> fs_lookup d name = Some f \<Longrightarrow>
     fs_lookup d' name = Some (File (fdata f) True)"
  by (auto simp: fs_sync_all_def split: option.splits)

lemma fs_rename_ok:
  "fs_rename src dst d = (Inr x, d') \<Longrightarrow> fs_lookup d src = Some f \<Longrightarrow>
     fs_lookup d' dst = Some f \<and> (src \<noteq> dst \<longrightarrow> fs_lookup d' src = None)"
  by (auto simp: fs_rename_def split: option.splits)

lemma fs_rename_err:
  "fs_rename src dst d = (Inl e, d') \<Longrightarrow> fs_lookup d' n = fs_lookup d n"
  by (auto simp: fs_rename_def split: option.splits)

lemma fs_read_ok:
  "fs_read name d = (Inr bs, d') \<Longrightarrow> \<exists>f. fs_lookup d name = Some f \<and> bs = fdata f"
  by (auto simp: fs_read_def split: option.splits)

lemma fs_call_ok: "fs_call r d = (Inr x, d') \<Longrightarrow> r = Inr x"
  by (auto simp: fs_call_def split: option.splits)

lemma fs_call_lookup: "fs_call r d = (x, d') \<Longrightarrow> fs_lookup d' n = fs_lookup d n"
  by (auto simp: fs_call_def split: option.splits)

lemma fs_remove_file_ok:
  "fs_remove_file name d = (Inr x, d') \<Longrightarrow> fs_lookup d' name = None"
  by (auto simp: fs_remove_file_def split: option.splits)

text \<open>A disk on which no call fails from now on.\<close>

definition fault_free :: "fs \<Rightarrow> bool" where
  "fault_free d \<longleftrightarrow> (\<forall>n \<ge> clock d. plan d n = None)"

lemma fault_free_plan [simp]: "fault_free d \<Longrightarrow> clock d \<le> n \<Longrightarrow> plan d n = None"
  by (simp add: fault_free_def)

lemma fault_free_simps [simp]:
  "fault_free d \<Longrightarrow> fault_free (tick d)"
  "fault_free (set_file n f d) = fault_free d" "fault_free (del_file n d) = fault_free d"
  "fault_free (note_entry n d) = fault_free d" "fault_free (note_new n d) = fault_free d"
  by (simp_all add: fault_free_def)

lemma fault_free_touches: "touches P d d' \<Longrightarrow> fault_free d \<Longrightarrow> fault_free d'"
  by (auto simp: touches_def fault_free_def)

lemma fault_free_keeps: "act_keeps (touches P) m \<Longrightarrow> m d = (r, d') \<Longrightarrow> fault_free d \<Longrightarrow> fault_free d'"
  using act_keepsD fault_free_touches by metis

end
