(* ===== verification/Block_Codec.thy ===== *)
theory Block_Codec
  imports Errors
begin

text \<open>
  The byte layout of a sorted run (src/sstable.rs): data-block entries, index
  records, and the bounds-checked decoders that read them back.
\<close>

section \<open>Constants\<close>

definition ascii :: "string \<Rightarrow> bytes" where
  "ascii s = map (\<lambda>c. of_nat (of_char c)) s"

lemma length_ascii [simp]: "length (ascii s) = length s"
  by (simp add: ascii_def)

definition MAGIC :: bytes where
  "MAGIC = ascii ''LSMTBL01''"

definition FOOTER_SIZE :: nat where
  "FOOTER_SIZE = 8 + 8 + 8 + 4 + 8"

definition TARGET_BLOCK_SIZE :: nat where
  "TARGET_BLOCK_SIZE = 4 * 1024"

definition MAX_RECORD_LEN :: u32 where
  "MAX_RECORD_LEN = 2 ^ 30"

definition TAG_VALUE :: byte where
  "TAG_VALUE = 0"

definition TAG_TOMBSTONE :: byte where
  "TAG_TOMBSTONE = 1"

lemma length_MAGIC [simp]: "length MAGIC = 8"
  by (simp add: MAGIC_def)

lemma MAX_RECORD_LEN_le_iff: "w \<le> MAX_RECORD_LEN \<longleftrightarrow> unat w \<le> 2 ^ 30"
  by (simp add: MAX_RECORD_LEN_def word_le_nat_alt)

record block_handle =
  last_key :: bytes
  offset :: u64
  len :: u32
  crc :: u32

section \<open>Encoding\<close>

text \<open>\<^verbatim>\<open>u32::try_from(usize)\<close> with the error the caller maps it to.\<close>

definition u32_try_from :: "string \<Rightarrow> nat \<Rightarrow> u32 res" where
  "u32_try_from reason n = (if n < 2 ^ 32 then Inr (of_nat n) else Inl (corruption reason))"

definition encode_u32 :: "bytes \<Rightarrow> u32 \<Rightarrow> bytes" where
  "encode_u32 buf v = buf @ u32_to_le_bytes v"

text \<open>What \<^verbatim>\<open>SsTableWriter::push\<close> appends to the block buffer for one entry.\<close>

definition push_bytes :: "bytes \<Rightarrow> bytes \<Rightarrow> record_v \<Rightarrow> bytes res" where
  "push_bytes buf key record =
     and_then (u32_try_from ''key longer than u32 length prefix'' (length key)) (\<lambda>key_len.
     let buf = encode_u32 buf key_len @ key in
     case record of
       Value val \<Rightarrow>
         and_then (u32_try_from ''value longer than u32 length prefix'' (length val)) (\<lambda>val_len.
         Inr (encode_u32 (buf @ [TAG_VALUE]) val_len @ val))
     | Tombstone \<Rightarrow> Inr (encode_u32 (buf @ [TAG_TOMBSTONE]) 0))"

text \<open>One index record, as \<^verbatim>\<open>SsTableWriter::finish\<close> serialises it.\<close>

definition index_record :: "bytes \<Rightarrow> block_handle \<Rightarrow> bytes res" where
  "index_record buf h =
     and_then (u32_try_from ''index key longer than u32'' (length (last_key h))) (\<lambda>key_len.
     Inr (encode_u32 buf key_len @ last_key h @ u64_to_le_bytes (offset h)
            @ u32_to_le_bytes (len h) @ u32_to_le_bytes (crc h)))"

fun index_bytes :: "bytes \<Rightarrow> block_handle list \<Rightarrow> bytes res" where
  "index_bytes buf [] = Inr buf"
| "index_bytes buf (h # hs) = and_then (index_record buf h) (\<lambda>buf. index_bytes buf hs)"

definition footer_bytes :: "u64 \<Rightarrow> u64 \<Rightarrow> u64 \<Rightarrow> u32 \<Rightarrow> bytes" where
  "footer_bytes entry_count index_offset index_len index_crc =
     u64_to_le_bytes entry_count @ u64_to_le_bytes index_offset @ u64_to_le_bytes index_len
       @ u32_to_le_bytes index_crc @ MAGIC"

section \<open>Decoding\<close>

definition read_array_at :: "nat \<Rightarrow> bytes \<Rightarrow> nat \<Rightarrow> (bytes \<times> nat) res" where
  "read_array_at n bs pos =
     read_exact_at (corruption ''record extent overflows'') (corruption ''record truncated'') bs pos n"

definition read_bytes_at :: "bytes \<Rightarrow> nat \<Rightarrow> nat \<Rightarrow> (bytes \<times> nat) res" where
  "read_bytes_at bs pos n =
     read_exact_at (corruption ''record extent overflows'') (corruption ''record truncated'') bs pos n"

definition read_u8_at :: "bytes \<Rightarrow> nat \<Rightarrow> (byte \<times> nat) res" where
  "read_u8_at bs pos =
     (if pos < length bs then Inr (bs ! pos, pos + 1) else Inl (corruption ''record truncated''))"

definition read_u32_at :: "bytes \<Rightarrow> nat \<Rightarrow> (u32 \<times> nat) res" where
  "read_u32_at bs pos =
     and_then (read_array_at 4 bs pos) (\<lambda>(arr, pos). Inr (u32_from_le_bytes arr, pos))"

definition read_u64_at :: "bytes \<Rightarrow> nat \<Rightarrow> (u64 \<times> nat) res" where
  "read_u64_at bs pos =
     and_then (read_array_at 8 bs pos) (\<lambda>(arr, pos). Inr (u64_from_le_bytes arr, pos))"

text \<open>The body of the \<^verbatim>\<open>decode_block\<close> loop up to the order check: one entry at \<^verbatim>\<open>pos\<close>.\<close>

definition decode_entry_at :: "bytes \<Rightarrow> nat \<Rightarrow> (bytes \<times> record_v \<times> nat) res" where
  "decode_entry_at bs pos =
     and_then (read_u32_at bs pos) (\<lambda>(key_len, pos).
     if MAX_RECORD_LEN < key_len then Inl (corruption ''key length exceeds maximum'') else
     and_then (read_bytes_at bs pos (unat key_len)) (\<lambda>(key, pos).
     and_then (read_u8_at bs pos) (\<lambda>(tag, pos).
     and_then (read_u32_at bs pos) (\<lambda>(val_len, pos).
     if MAX_RECORD_LEN < val_len then Inl (corruption ''value length exceeds maximum'') else
     if tag = TAG_VALUE then
       and_then (read_bytes_at bs pos (unat val_len)) (\<lambda>(val, pos). Inr (key, Value val, pos))
     else if tag = TAG_TOMBSTONE then
       (if val_len \<noteq> 0 then Inl (corruption ''tombstone with non-zero value length'')
        else Inr (key, Tombstone, pos))
     else Inl (corruption ''unknown record tag'')))))"

definition decode_handle_at :: "bytes \<Rightarrow> nat \<Rightarrow> (block_handle \<times> nat) res" where
  "decode_handle_at bs pos =
     and_then (read_u32_at bs pos) (\<lambda>(key_len, pos).
     if MAX_RECORD_LEN < key_len then Inl (corruption ''index key length exceeds maximum'') else
     and_then (read_bytes_at bs pos (unat key_len)) (\<lambda>(last_key, pos).
     and_then (read_u64_at bs pos) (\<lambda>(offset, pos).
     and_then (read_u32_at bs pos) (\<lambda>(len, pos).
     and_then (read_u32_at bs pos) (\<lambda>(crc, pos).
     Inr (\<lparr>last_key = last_key, offset = offset, len = len, crc = crc\<rparr>, pos))))))"

text \<open>\<^verbatim>\<open>if let Some(ref p) = prev { if key <= p { error } }\<close>\<close>

definition not_increasing :: "bytes option \<Rightarrow> bytes \<Rightarrow> bool" where
  "not_increasing prev key = (case prev of None \<Rightarrow> False | Some p \<Rightarrow> key \<le> p)"

lemma read_u32_at_Inr:
  "read_u32_at bs pos = Inr (w, pos') \<Longrightarrow> pos' = pos + 4 \<and> pos' \<le> length bs"
  by (auto simp: read_u32_at_def read_array_at_def and_then_Inr_iff dest!: read_exact_at_Inr)

lemma read_bytes_at_Inr:
  "read_bytes_at bs pos n = Inr (out, pos') \<Longrightarrow>
     pos' = pos + n \<and> pos' \<le> length bs \<and> length out = n"
  by (auto simp: read_bytes_at_def dest!: read_exact_at_Inr)

lemma read_u64_at_Inr:
  "read_u64_at bs pos = Inr (w, pos') \<Longrightarrow> pos' = pos + 8 \<and> pos' \<le> length bs"
  by (auto simp: read_u64_at_def read_array_at_def and_then_Inr_iff dest!: read_exact_at_Inr)

lemma read_u8_at_Inr:
  "read_u8_at bs pos = Inr (b, pos') \<Longrightarrow> pos' = pos + 1 \<and> pos' \<le> length bs"
  by (auto simp: read_u8_at_def split: if_splits)

lemmas read_at_Inr = read_u32_at_Inr read_bytes_at_Inr read_u64_at_Inr read_u8_at_Inr

text \<open>Every decoded entry or index record consumes at least one byte: the loops stop.\<close>

lemma decode_entry_at_advances:
  assumes "decode_entry_at bs pos = Inr (k, r, pos')"
  shows "pos < pos' \<and> pos' \<le> length bs"
  using assms unfolding decode_entry_at_def
  by (auto elim!: and_then_InrE dest!: read_at_Inr split: if_splits)

lemma decode_handle_at_advances:
  assumes "decode_handle_at bs pos = Inr (h, pos')"
  shows "pos < pos' \<and> pos' \<le> length bs"
  using assms unfolding decode_handle_at_def
  by (auto elim!: and_then_InrE dest!: read_at_Inr split: if_splits)

function decode_block_from ::
    "bytes \<Rightarrow> nat \<Rightarrow> bytes option \<Rightarrow> entry list \<Rightarrow> entry list res" where
  "decode_block_from bs pos prev acc =
     (if pos < length bs then
        (case decode_entry_at bs pos of
           Inl e \<Rightarrow> Inl e
         | Inr (key, record, pos') \<Rightarrow>
             if not_increasing prev key
             then Inl (corruption ''data block keys not strictly increasing'')
             else decode_block_from bs pos' (Some key) (acc @ [(key, record)]))
      else Inr acc)"
  by pat_completeness auto
termination
  by (relation "measure (\<lambda>(bs, pos, prev, acc). length bs - pos)")
    (auto dest!: sym [of _ "decode_entry_at _ _"] decode_entry_at_advances)

definition decode_block :: "bytes \<Rightarrow> entry list res" where
  "decode_block bs = decode_block_from bs 0 None []"

function parse_index_from ::
    "bytes \<Rightarrow> nat \<Rightarrow> bytes option \<Rightarrow> block_handle list \<Rightarrow> block_handle list res" where
  "parse_index_from bs pos prev acc =
     (if pos < length bs then
        (case decode_handle_at bs pos of
           Inl e \<Rightarrow> Inl e
         | Inr (h, pos') \<Rightarrow>
             if not_increasing prev (last_key h)
             then Inl (corruption ''index block keys not strictly increasing'')
             else parse_index_from bs pos' (Some (last_key h)) (acc @ [h]))
      else Inr acc)"
  by pat_completeness auto
termination
  by (relation "measure (\<lambda>(bs, pos, prev, acc). length bs - pos)")
    (auto dest!: sym [of _ "decode_handle_at _ _"] decode_handle_at_advances)

definition parse_index :: "bytes \<Rightarrow> block_handle list res" where
  "parse_index bs = parse_index_from bs 0 None []"

declare decode_block_from.simps [simp del] parse_index_from.simps [simp del]

section \<open>The layout as a reference encoding\<close>

text \<open>
  \<^verbatim>\<open>enc_entry\<close>, \<^verbatim>\<open>enc_block\<close> and \<^verbatim>\<open>enc_index\<close> state the byte layout that
  docs/SSTABLE_FORMAT.md tabulates; the writer's steps produce it and the decoders invert it.
  An entry \<^verbatim>\<open>fits\<close> when both of its lengths are within \<^verbatim>\<open>MAX_RECORD_LEN\<close>.
\<close>

fun enc_record :: "record_v \<Rightarrow> bytes" where
  "enc_record (Value v) = TAG_VALUE # u32_to_le_bytes (of_nat (length v)) @ v"
| "enc_record Tombstone = TAG_TOMBSTONE # u32_to_le_bytes 0"

definition enc_entry :: "entry \<Rightarrow> bytes" where
  "enc_entry e = u32_to_le_bytes (of_nat (length (fst e))) @ fst e @ enc_record (snd e)"

definition enc_block :: "entry list \<Rightarrow> bytes" where
  "enc_block es = concat (map enc_entry es)"

definition enc_handle :: "block_handle \<Rightarrow> bytes" where
  "enc_handle h = u32_to_le_bytes (of_nat (length (last_key h))) @ last_key h
     @ u64_to_le_bytes (offset h) @ u32_to_le_bytes (len h) @ u32_to_le_bytes (crc h)"

definition enc_index :: "block_handle list \<Rightarrow> bytes" where
  "enc_index hs = concat (map enc_handle hs)"

definition fits :: "entry \<Rightarrow> bool" where
  "fits e \<longleftrightarrow> length (fst e) \<le> 2 ^ 30 \<and> value_len (snd e) \<le> 2 ^ 30"

definition fits_handle :: "block_handle \<Rightarrow> bool" where
  "fits_handle h \<longleftrightarrow> length (last_key h) \<le> 2 ^ 30"

lemma enc_block_simps [simp, codec_simps]:
  "enc_block [] = []"
  "enc_block (e # es) = enc_entry e @ enc_block es"
  "enc_block (es @ fs) = enc_block es @ enc_block fs"
  by (simp_all add: enc_block_def)

lemma enc_index_simps [simp, codec_simps]:
  "enc_index [] = []"
  "enc_index (h # hs) = enc_handle h @ enc_index hs"
  "enc_index (hs @ gs) = enc_index hs @ enc_index gs"
  by (simp_all add: enc_index_def)

lemma length_enc_record [codec_simps]: "length (enc_record r) = 5 + value_len r"
  by (cases r) simp_all

lemma length_enc_entry [codec_simps]: "length (enc_entry (k, r)) = 9 + length k + value_len r"
  by (simp add: enc_entry_def length_enc_record)

lemma enc_entry_not_Nil [simp]: "enc_entry e \<noteq> []"
  using length_enc_entry [of "fst e" "snd e"] by auto

lemma enc_block_Nil_iff [simp]: "enc_block es = [] \<longleftrightarrow> es = []"
  by (cases es) auto

lemma length_enc_handle [codec_simps]: "length (enc_handle h) = 20 + length (last_key h)"
  by (simp add: enc_handle_def)

subsection \<open>The writer produces the layout\<close>

lemma push_bytes_enc:
  assumes "length k < 2 ^ 32" and "value_len r < 2 ^ 32"
  shows "push_bytes buf k r = Inr (buf @ enc_entry (k, r))"
  using assms
  by (cases r) (simp_all add: push_bytes_def u32_try_from_def encode_u32_def enc_entry_def)

lemma push_bytes_Inr:
  assumes "push_bytes buf k r = Inr buf'"
  shows "buf' = buf @ enc_entry (k, r) \<and> length k < 2 ^ 32 \<and> value_len r < 2 ^ 32"
proof -
  have "length k < 2 ^ 32" and "value_len r < 2 ^ 32"
    using assms by (cases r; auto simp: push_bytes_def u32_try_from_def split: if_splits)+
  with assms push_bytes_enc [of k r buf] show ?thesis by simp
qed

lemma index_bytes_enc:
  "\<forall>h \<in> set hs. length (last_key h) < 2 ^ 32 \<Longrightarrow> index_bytes buf hs = Inr (buf @ enc_index hs)"
  by (induction hs arbitrary: buf)
    (simp_all add: index_record_def u32_try_from_def encode_u32_def enc_handle_def)

subsection \<open>The decoders invert it\<close>

lemma read_u32_at_enc:
  assumes "drop pos bs = u32_to_le_bytes w @ post" and "pos \<le> length bs" and "length bs < usize_limit"
  shows "read_u32_at bs pos = Inr (w, pos + 4)"
  by (simp add: read_u32_at_def read_array_at_def read_exact_at_drop [OF assms, simplified])

lemma read_u64_at_enc:
  assumes "drop pos bs = u64_to_le_bytes w @ post" and "pos \<le> length bs" and "length bs < usize_limit"
  shows "read_u64_at bs pos = Inr (w, pos + 8)"
  by (simp add: read_u64_at_def read_array_at_def read_exact_at_drop [OF assms, simplified])

lemma read_bytes_at_enc:
  assumes "drop pos bs = k @ post" and "pos \<le> length bs" and "length bs < usize_limit"
  shows "read_bytes_at bs pos (length k) = Inr (k, pos + length k)"
  using read_exact_at_drop [OF assms] by (simp add: read_bytes_at_def)

lemma read_u8_at_enc:
  assumes "drop pos bs = b # post"
  shows "read_u8_at bs pos = Inr (b, pos + 1)"
proof -
  have "pos < length bs" using assms by (metis drop_eq_Nil linorder_not_le list.discI)
  with assms show ?thesis by (simp add: read_u8_at_def nth_via_drop)
qed

lemma drop_le_length: "drop pos bs \<noteq> [] \<Longrightarrow> pos \<le> length bs"
  by simp

text \<open>
  One entry: position by position, each reader finds exactly the field the encoder put there.
\<close>

lemma decode_entry_at_enc:
  assumes d: "drop pos bs = enc_entry (k, r) @ post" and f: "fits (k, r)"
    and l: "length bs < usize_limit"
  shows "decode_entry_at bs pos = Inr (k, r, pos + length (enc_entry (k, r)))"
proof -
  let ?n = "length k" and ?v = "value_len r"
  have k30: "?n \<le> 2 ^ 30" and v30: "?v \<le> 2 ^ 30" using f by (simp_all add: fits_def)
  have ub: "\<not> MAX_RECORD_LEN < of_nat ?n" "\<not> MAX_RECORD_LEN < of_nat ?v"
    using k30 v30 by (simp_all add: not_less MAX_RECORD_LEN_le_iff)
  have d0: "drop pos bs = u32_to_le_bytes (of_nat ?n) @ k @ enc_record r @ post"
    using d by (simp add: enc_entry_def)
  have d1: "drop (pos + 4) bs = k @ enc_record r @ post"
    using drop_step [OF d0] by simp
  have d2: "drop (pos + 4 + ?n) bs = enc_record r @ post"
    using drop_step [OF d1] by simp
  obtain tag body where tb: "enc_record r = tag # u32_to_le_bytes (of_nat ?v) @ body"
    by (cases r) auto
  have d3: "drop (pos + 4 + ?n + 1) bs = u32_to_le_bytes (of_nat ?v) @ body @ post"
    using drop_step [of "pos + 4 + ?n" bs "[tag]"] d2 tb by simp
  have d4: "drop (pos + 4 + ?n + 1 + 4) bs = body @ post"
    using drop_step [OF d3] by simp
  have le: "pos + 4 + ?n + 1 + 4 \<le> length bs"
    using drop_length_le [OF d3] by simp
  have r0: "read_u32_at bs pos = Inr (of_nat ?n, pos + 4)"
    using read_u32_at_enc [OF d0 _ l] le by simp
  have r1: "read_bytes_at bs (pos + 4) ?n = Inr (k, pos + 4 + ?n)"
    using read_bytes_at_enc [OF d1 _ l] le by simp
  have r2: "read_u8_at bs (pos + 4 + ?n) = Inr (tag, pos + 4 + ?n + 1)"
    using read_u8_at_enc [of "pos + 4 + ?n" bs tag] d2 tb by simp
  have r3: "read_u32_at bs (pos + 4 + ?n + 1) = Inr (of_nat ?v, pos + 4 + ?n + 1 + 4)"
    using read_u32_at_enc [OF d3 _ l] le by simp
  have r4: "read_bytes_at bs (pos + 4 + ?n + 1 + 4) (length body) = Inr (body, pos + 4 + ?n + 1 + 4 + length body)"
    using read_bytes_at_enc [OF d4 le l] .
  have un: "unat (of_nat ?n :: u32) = ?n" "unat (of_nat ?v :: u32) = ?v"
    using k30 v30 by simp_all
  show ?thesis
    unfolding decode_entry_at_def
    using tb r0 r1 r2 r3 r4 ub un
    by (cases r) (simp_all add: TAG_VALUE_def TAG_TOMBSTONE_def length_enc_entry)
qed

lemma decode_block_from_enc:
  assumes "drop pos bs = enc_block es" and "\<forall>e \<in> set es. fits e" and "length bs < usize_limit"
    and "asc_keys es" and "\<forall>p. prev = Some p \<longrightarrow> (\<forall>k \<in> fst ` set es. p < k)"
  shows "decode_block_from bs pos prev acc = Inr (acc @ es)"
  using assms
proof (induction es arbitrary: pos prev acc)
  case Nil
  then show ?case by (simp add: decode_block_from.simps [of bs pos])
next
  case (Cons e es)
  obtain k r where e: "e = (k, r)" by (cases e)
  have d: "drop pos bs = enc_entry (k, r) @ enc_block es" using Cons.prems(1) e by simp
  have step: "decode_entry_at bs pos = Inr (k, r, pos + length (enc_entry (k, r)))"
    using Cons.prems(2,3) e by (intro decode_entry_at_enc [OF d]) auto
  have "pos < length bs"
    using d by (metis append_is_Nil_conv drop_eq_Nil enc_entry_not_Nil linorder_not_le)
  moreover have "\<not> not_increasing prev k"
    using Cons.prems(5) e by (auto simp: not_increasing_def split: option.splits)
  moreover have "decode_block_from bs (pos + length (enc_entry (k, r))) (Some k) (acc @ [(k, r)])
      = Inr ((acc @ [(k, r)]) @ es)"
    using Cons.prems e drop_step [OF d] by (intro Cons.IH) auto
  ultimately show ?case by (simp add: decode_block_from.simps [of bs pos] step e)
qed

lemma decode_block_enc:
  assumes "\<forall>e \<in> set es. fits e" and "asc_keys es" and "length (enc_block es) < usize_limit"
  shows "decode_block (enc_block es) = Inr es"
  using decode_block_from_enc [of 0 "enc_block es" es None "[]"] assms
  by (simp add: decode_block_def)

lemma decode_handle_at_enc:
  assumes d: "drop pos bs = enc_handle h @ post" and f: "fits_handle h"
    and l: "length bs < usize_limit"
  shows "decode_handle_at bs pos = Inr (h, pos + length (enc_handle h))"
proof -
  let ?k = "last_key h"
  let ?n = "length ?k"
  have k30: "?n \<le> 2 ^ 30" using f by (simp add: fits_handle_def)
  have ub: "\<not> MAX_RECORD_LEN < of_nat ?n"
    using k30 by (simp add: not_less MAX_RECORD_LEN_le_iff)
  have d0: "drop pos bs = u32_to_le_bytes (of_nat ?n) @ ?k @ u64_to_le_bytes (offset h)
      @ u32_to_le_bytes (len h) @ u32_to_le_bytes (crc h) @ post"
    using d by (simp add: enc_handle_def)
  note d1 = drop_step [OF d0]
  note d2 = drop_step [OF d1]
  note d3 = drop_step [OF d2]
  note d4 = drop_step [OF d3]
  have le: "pos + 4 + ?n + 8 + 4 + 4 \<le> length bs"
    using drop_length_le [OF d4] by simp
  have "read_u32_at bs pos = Inr (of_nat ?n, pos + 4)"
    using read_u32_at_enc [OF d0 _ l] le by simp
  moreover have "read_bytes_at bs (pos + 4) ?n = Inr (?k, pos + 4 + ?n)"
    using read_bytes_at_enc [OF d1 _ l] le by simp
  moreover have "read_u64_at bs (pos + 4 + ?n) = Inr (offset h, pos + 4 + ?n + 8)"
    using read_u64_at_enc [OF d2 _ l] le by simp
  moreover have "read_u32_at bs (pos + 4 + ?n + 8) = Inr (len h, pos + 4 + ?n + 8 + 4)"
    using read_u32_at_enc [OF d3 _ l] le by simp
  moreover have "read_u32_at bs (pos + 4 + ?n + 8 + 4) = Inr (crc h, pos + 4 + ?n + 8 + 4 + 4)"
    using read_u32_at_enc [OF d4 _ l] le by simp
  moreover have "unat (of_nat ?n :: u32) = ?n" using k30 by simp
  ultimately show ?thesis
    unfolding decode_handle_at_def by (simp add: ub length_enc_handle)
qed

lemma parse_index_from_enc:
  assumes "drop pos bs = enc_index hs" and "\<forall>h \<in> set hs. fits_handle h" and "length bs < usize_limit"
    and "sorted_wrt (<) (map last_key hs)" and "\<forall>p. prev = Some p \<longrightarrow> (\<forall>h \<in> set hs. p < last_key h)"
  shows "parse_index_from bs pos prev acc = Inr (acc @ hs)"
  using assms
proof (induction hs arbitrary: pos prev acc)
  case Nil
  then show ?case by (simp add: parse_index_from.simps [of bs pos])
next
  case (Cons h hs)
  have d: "drop pos bs = enc_handle h @ enc_index hs" using Cons.prems(1) by simp
  have step: "decode_handle_at bs pos = Inr (h, pos + length (enc_handle h))"
    using Cons.prems(2,3) by (intro decode_handle_at_enc [OF d]) auto
  have "pos < length bs"
    using decode_handle_at_advances [OF step] by linarith
  moreover have "\<not> not_increasing prev (last_key h)"
    using Cons.prems(5) by (auto simp: not_increasing_def split: option.splits)
  moreover have "parse_index_from bs (pos + length (enc_handle h)) (Some (last_key h)) (acc @ [h])
      = Inr ((acc @ [h]) @ hs)"
    using Cons.prems drop_step [OF d] by (intro Cons.IH) auto
  ultimately show ?case by (simp add: parse_index_from.simps [of bs pos] step)
qed

lemma parse_index_enc:
  assumes "\<forall>h \<in> set hs. fits_handle h" and "sorted_wrt (<) (map last_key hs)"
    and "length (enc_index hs) < usize_limit"
  shows "parse_index (enc_index hs) = Inr hs"
  using parse_index_from_enc [of 0 "enc_index hs" hs None "[]"] assms
  by (simp add: parse_index_def)

subsection \<open>Everything a decoder accepts is canonical\<close>

text \<open>
  The converse direction: a byte string that decodes is the encoding of what it
  decodes to, so no other byte string stands for the same block.
\<close>

lemma read_u32_at_taken:
  "read_u32_at bs pos = Inr (w, pos') \<Longrightarrow> drop pos bs = u32_to_le_bytes w @ drop pos' bs"
  by (auto simp: read_u32_at_def read_array_at_def and_then_Inr_iff read_exact_at_take
      u32_from_le_inverse read_exact_at_Inr)

lemma read_bytes_at_taken:
  "read_bytes_at bs pos n = Inr (k, pos') \<Longrightarrow> drop pos bs = k @ drop pos' bs \<and> length k = n"
  by (auto simp: read_bytes_at_def dest: read_exact_at_take read_exact_at_Inr)

lemma read_u8_at_taken:
  "read_u8_at bs pos = Inr (b, pos') \<Longrightarrow> drop pos bs = b # drop pos' bs"
  by (auto simp: read_u8_at_def Cons_nth_drop_Suc split: if_splits)

lemma decode_entry_at_taken:
  assumes "decode_entry_at bs pos = Inr (k, r, pos')"
  shows "drop pos bs = enc_entry (k, r) @ drop pos' bs \<and> fits (k, r)"
  using assms unfolding decode_entry_at_def
  by (auto elim!: and_then_InrE split: if_splits
      dest!: read_u32_at_taken read_bytes_at_taken read_u8_at_taken
      simp: enc_entry_def fits_def not_less MAX_RECORD_LEN_le_iff)

lemma decode_block_from_sound:
  assumes "decode_block_from bs pos prev acc = Inr es" and "pos \<le> length bs"
  shows "\<exists>es'. es = acc @ es' \<and> drop pos bs = enc_block es' \<and> (\<forall>e \<in> set es'. fits e)
           \<and> asc_keys es' \<and> (\<forall>p. prev = Some p \<longrightarrow> (\<forall>k \<in> fst ` set es'. p < k))"
  using assms
proof (induction bs pos prev acc rule: decode_block_from.induct)
  case (1 bs pos prev acc)
  show ?case
  proof (cases "pos < length bs")
    case False
    with 1 show ?thesis by (auto simp: decode_block_from.simps [of bs pos])
  next
    case True
    with "1.prems" obtain k r pos' where step: "decode_entry_at bs pos = Inr (k, r, pos')"
      and inc: "\<not> not_increasing prev k"
      and rest: "decode_block_from bs pos' (Some k) (acc @ [(k, r)]) = Inr es"
      by (auto simp: decode_block_from.simps [of bs pos] split: sum.splits if_splits)
    note taken = decode_entry_at_taken [OF step] and adv = decode_entry_at_advances [OF step]
    obtain es' where es': "es = (acc @ [(k, r)]) @ es'" "drop pos' bs = enc_block es'"
      "\<forall>e \<in> set es'. fits e" "asc_keys es'" "\<forall>k' \<in> fst ` set es'. k < k'"
      using "1.IH" [OF True step refl refl inc rest] adv by auto
    have "\<forall>p. prev = Some p \<longrightarrow> p < k"
      using inc by (auto simp: not_increasing_def not_le)
    then have "\<forall>p. prev = Some p \<longrightarrow> (\<forall>k' \<in> fst ` set ((k, r) # es'). p < k')"
      using es'(5) by (auto intro: less_trans)
    with es' taken show ?thesis by (intro exI [of _ "(k, r) # es'"]) auto
  qed
qed

lemma decode_block_sound:
  assumes "decode_block bs = Inr es"
  shows "bs = enc_block es \<and> asc_keys es \<and> (\<forall>e \<in> set es. fits e)"
  using decode_block_from_sound [of bs 0 None "[]" es] assms by (auto simp: decode_block_def)

section \<open>Properties\<close>

text \<open>
  C30: Decoding a data block accepts exactly the encodings. For a block of less than the
  address space, \<^verbatim>\<open>decode_block\<close> returns the entries \<^verbatim>\<open>es\<close> if and only if the bytes are the
  encoding of \<^verbatim>\<open>es\<close>, the keys are strictly ascending and every length is within the
  limit; so no damaged block is read as entries that were not written.
\<close>

theorem block_decode_exact:
  assumes "length bs < usize_limit"
  shows "decode_block bs = Inr es \<longleftrightarrow>
     bs = enc_block es \<and> asc_keys es
     \<and> (\<forall>(k, r) \<in> set es. length k \<le> unat MAX_RECORD_LEN \<and> value_len r \<le> unat MAX_RECORD_LEN)"
proof -
  have max: "unat MAX_RECORD_LEN = 2 ^ 30" by (simp add: MAX_RECORD_LEN_def)
  have fits: "(\<forall>(k, r) \<in> set es. length k \<le> unat MAX_RECORD_LEN \<and> value_len r \<le> unat MAX_RECORD_LEN)
      \<longleftrightarrow> (\<forall>e \<in> set es. fits e)" by (auto simp: fits_def max)
  show ?thesis unfolding fits using decode_block_sound [of bs es] decode_block_enc [of es] assms by auto
qed

theorem block_decode_exact_witness:
  "decode_block [1, 0, 0, 0, 7, 0, 1, 0, 0, 0, 9] = Inr [([7], Value [9])]"
proof -
  have "enc_block [([7], Value [9])] = [1, 0, 0, 0, 7, 0, 1, 0, 0, 0, 9]"
    by code_simp
  then show ?thesis
    using block_decode_exact [of "[1, 0, 0, 0, 7, 0, 1, 0, 0, 0, 9]" "[([7], Value [9])]"]
    by (simp add: MAX_RECORD_LEN_def)
qed

text \<open>
  The index of a run reads back: parsing the bytes the writer produces for a list of
  block handles returns that list, offsets, lengths and checksums included, when the
  last keys are strictly ascending and within the limit.
\<close>

theorem index_roundtrip:
  assumes "index_bytes [] hs = Inr bs" and "sorted_wrt (<) (map last_key hs)"
    and "\<forall>h \<in> set hs. length (last_key h) \<le> unat MAX_RECORD_LEN" and "length bs < usize_limit"
  shows "parse_index bs = Inr hs"
proof -
  have max: "unat MAX_RECORD_LEN = 2 ^ 30" by (simp add: MAX_RECORD_LEN_def)
  have "bs = enc_index hs"
  proof -
    have "\<forall>h \<in> set hs. length (last_key h) < 2 ^ 32" using assms(3) by (auto simp: max)
    from index_bytes_enc [OF this, of "[]"] assms(1) show ?thesis by simp
  qed
  with parse_index_enc [of hs] assms show ?thesis by (simp add: fits_handle_def max)
qed

text \<open>A block that starts with a value over the reader's limit is refused, though the writer encodes it.\<close>

lemma oversized_block_refused:
  assumes k: "length k \<le> unat MAX_RECORD_LEN" and v: "unat MAX_RECORD_LEN < length v" "length v < 2 ^ 32"
  shows "decode_block (enc_block [(k, Value v)]) = Inl (corruption ''value length exceeds maximum'')"
proof -
  have max: "unat MAX_RECORD_LEN = 2 ^ 30" by (simp add: MAX_RECORD_LEN_def)
  define bs where "bs = enc_entry (k, Value v)"
  let ?kl = "u32_to_le_bytes (of_nat (length k))" and ?vl = "u32_to_le_bytes (of_nat (length v))"
  have e: "bs = ?kl @ k @ TAG_VALUE # ?vl @ v" by (simp add: bs_def enc_entry_def)
  have sz: "length bs < usize_limit" using k v max by (simp add: e)
  have r1: "read_u32_at bs 0 = Inr (of_nat (length k), 4)"
    using read_u32_at_enc [of 0 bs "of_nat (length k)"] sz by (simp add: e)
  have r2: "read_bytes_at bs 4 (length k) = Inr (k, 4 + length k)"
    using read_bytes_at_enc [of 4 bs k] sz by (simp add: e)
  have r3: "read_u8_at bs (4 + length k) = Inr (TAG_VALUE, 5 + length k)"
    using read_u8_at_enc [of "4 + length k" bs TAG_VALUE] by (simp add: e)
  have r4: "read_u32_at bs (5 + length k) = Inr (of_nat (length v), 9 + length k)"
    using read_u32_at_enc [of "5 + length k" bs "of_nat (length v)" v] sz by (simp add: e)
  have kl: "unat (of_nat (length k) :: u32) = length k" using k max by simp
  have le: "\<not> MAX_RECORD_LEN < (of_nat (length k) :: u32)" "MAX_RECORD_LEN < (of_nat (length v) :: u32)"
    using k v max by (simp_all add: word_less_nat_alt)
  have "decode_entry_at bs 0 = Inl (corruption ''value length exceeds maximum'')"
    by (simp add: decode_entry_at_def r1 r2 r3 r4 kl le)
  then have "decode_block bs = Inl (corruption ''value length exceeds maximum'')"
    by (simp add: decode_block_def decode_block_from.simps e)
  then show ?thesis by (simp add: bs_def)
qed

end
