(* ===== verification/Bloom.thy ===== *)
theory Bloom
  imports File_System Block_Codec
begin

text \<open>
  The crates the engine calls, as one record of parameters, and the per-run bloom filter
  with its sidecar file (src/bloom.rs). Nothing here fixes what a checksum or a filter
  computes: the laws a theorem needs are the named predicate \<^verbatim>\<open>bloom_laws\<close>.
\<close>

section \<open>The code the engine links against\<close>

text \<open>
  \<^item> \<^verbatim>\<open>crc32c\<close>: the crc32c crate.
  \<^item> \<^verbatim>\<open>bloom_on\<close>: the \<^verbatim>\<open>bloom\<close> feature; \<^verbatim>\<open>bf_new n\<close> is \<^verbatim>\<open>BloomFilter::new(n, 0.01).ok()\<close>,
    \<^verbatim>\<open>bf_insert\<close> and \<^verbatim>\<open>bf_contains\<close> are bloom-lib's, \<^verbatim>\<open>pc_to_bytes\<close>/\<^verbatim>\<open>pc_from_bytes\<close>
    are postcard's.
  \<^item> \<^verbatim>\<open>durability_on\<close>: the \<^verbatim>\<open>durability\<close> feature; a wal-db log is the bytes of its file.
    \<^verbatim>\<open>wal_open\<close> gives the file after \<^verbatim>\<open>Wal::open\<close> (on \<^verbatim>\<open>None\<close>: a missing file),
    \<^verbatim>\<open>wal_open_syncs\<close> says whether that call forces the file to the medium,
    \<^verbatim>\<open>wal_append\<close> the file after \<^verbatim>\<open>append_and_sync\<close>, \<^verbatim>\<open>wal_torn f r m\<close> the file when that
    call failed with \<^verbatim>\<open>m\<close> bytes written, \<^verbatim>\<open>wal_iter\<close> the records of an open log, and
    \<^verbatim>\<open>wal_msg\<close> the text of the \<^verbatim>\<open>WalError\<close> a failing system call turns into.
\<close>

record 'f externals =
  crc32c :: "bytes \<Rightarrow> u32"
  bloom_on :: bool
  bf_new :: "nat \<Rightarrow> 'f option"
  bf_insert :: "'f \<Rightarrow> bytes \<Rightarrow> 'f"
  bf_contains :: "'f \<Rightarrow> bytes \<Rightarrow> bool"
  pc_to_bytes :: "'f \<Rightarrow> bytes option"
  pc_from_bytes :: "bytes \<Rightarrow> 'f option"
  durability_on :: bool
  wal_open :: "bytes option \<Rightarrow> string + bytes"
  wal_open_syncs :: bool
  wal_append :: "bytes \<Rightarrow> bytes \<Rightarrow> bytes"
  wal_torn :: "bytes \<Rightarrow> bytes \<Rightarrow> nat \<Rightarrow> bytes"
  wal_iter :: "bytes \<Rightarrow> string + (string + bytes) list"
  wal_msg :: "io_error \<Rightarrow> string"

text \<open>
  What bloom-lib and postcard document: an inserted key is reported present, an insert
  never hides a key, and a deserialised filter is the one that was serialised.
\<close>

definition bloom_laws :: "'f externals \<Rightarrow> bool" where
  "bloom_laws X \<longleftrightarrow>
     (\<forall>f k. bf_contains X (bf_insert X f k) k)
     \<and> (\<forall>f k k'. bf_contains X f k \<longrightarrow> bf_contains X (bf_insert X f k') k)
     \<and> (\<forall>f bs. pc_to_bytes X f = Some bs \<longrightarrow> pc_from_bytes X bs = Some f)"

section \<open>The build without the feature\<close>

text \<open>
  \<^verbatim>\<open>mod disabled\<close>. Its \<^verbatim>\<open>RunFilter\<close> has no value that is ever built, so the builder and what
  \<^verbatim>\<open>load\<close> returns are \<^verbatim>\<open>None\<close> here, and \<^verbatim>\<open>add\<close> and \<^verbatim>\<open>finish\<close> act on \<^verbatim>\<open>None\<close>.
\<close>

definition disabled_builder :: "nat \<Rightarrow> 'f option" where
  "disabled_builder capacity = None"

definition disabled_load :: "string \<Rightarrow> (error, 'f option) fsact" where
  "disabled_load run_path = act_ok None"

definition disabled_write_sidecar :: "'f \<Rightarrow> string \<Rightarrow> (error, unit) fsact" where
  "disabled_write_sidecar f run_path = act_ok ()"

definition disabled_might_contain :: "'f \<Rightarrow> bytes \<Rightarrow> bool" where
  "disabled_might_contain f key = True"

lemmas bloom_disabled [simp] =
  disabled_builder_def disabled_load_def disabled_write_sidecar_def disabled_might_contain_def

section \<open>Building and querying a filter\<close>

definition SIDECAR_MAGIC :: bytes where
  "SIDECAR_MAGIC = ascii ''LSMBLM01''"

definition sidecar_path :: "string \<Rightarrow> string" where
  "sidecar_path run_path = run_path @ ''.bloom''"

definition builder :: "'f externals \<Rightarrow> nat \<Rightarrow> 'f option" where
  "builder X capacity =
     (if \<not> bloom_on X then disabled_builder capacity
      else if capacity = 0 then None else bf_new X capacity)"

definition filter_add :: "'f externals \<Rightarrow> 'f option \<Rightarrow> bytes \<Rightarrow> 'f option" where
  "filter_add X b key = (case b of None \<Rightarrow> None | Some f \<Rightarrow> Some (bf_insert X f key))"

definition filter_finish :: "'f option \<Rightarrow> 'f option" where
  "filter_finish b = b"

definition filter_might_contain :: "'f externals \<Rightarrow> 'f \<Rightarrow> bytes \<Rightarrow> bool" where
  "filter_might_contain X f key = (if \<not> bloom_on X then disabled_might_contain f key else bf_contains X f key)"

section \<open>The sidecar\<close>

definition sidecar_decode :: "'f externals \<Rightarrow> bytes \<Rightarrow> 'f option" where
  "sidecar_decode X bs =
     (if length bs < 12 \<or> take 8 bs \<noteq> SIDECAR_MAGIC then None
      else let crc = u32_from_le_bytes [bs ! 8, bs ! 9, bs ! 10, bs ! 11];
               payload = drop 12 bs
           in if crc32c X payload \<noteq> crc then None else pc_from_bytes X payload)"

definition sidecar_bytes :: "'f externals \<Rightarrow> bytes \<Rightarrow> bytes" where
  "sidecar_bytes X payload = SIDECAR_MAGIC @ u32_to_le_bytes (crc32c X payload) @ payload"

definition filter_load :: "'f externals \<Rightarrow> string \<Rightarrow> (error, 'f option) fsact" where
  "filter_load X run_path d =
     (if \<not> bloom_on X then disabled_load run_path d
      else let path = sidecar_path run_path in
        case fs_read path d of
          (Inr bs, d) \<Rightarrow>
            (case sidecar_decode X bs of
               Some f \<Rightarrow> (Inr (Some f), d)
             | None \<Rightarrow> (Inr None, snd (fs_remove_file path d)))
        | (Inl e, d) \<Rightarrow>
            if e = NotFound then (Inr None, d) else (Inl (io ''read bloom sidecar'' e), d))"

definition write_sidecar :: "'f externals \<Rightarrow> 'f \<Rightarrow> string \<Rightarrow> (error, unit) fsact" where
  "write_sidecar X f run_path =
     (if \<not> bloom_on X then disabled_write_sidecar f run_path
      else let path = sidecar_path run_path in
        (case pc_to_bytes X f of
           None \<Rightarrow> act_err (corruption ''failed to encode bloom sidecar'')
         | Some payload \<Rightarrow>
             let tmp = path @ ''.tmp'' in
             act_then (act_map_err (io ''write bloom sidecar'') (fs_write tmp (sidecar_bytes X payload))) (\<lambda>_.
             act_map_err (io ''install bloom sidecar'') (fs_rename tmp path))))"

section \<open>No false negatives\<close>

text \<open>\<^verbatim>\<open>covers X fo ks\<close>: a filter, where there is one, admits every key of \<^verbatim>\<open>ks\<close>.\<close>

definition covers :: "'f externals \<Rightarrow> 'f option \<Rightarrow> bytes set \<Rightarrow> bool" where
  "covers X fo ks \<longleftrightarrow> (\<forall>f. fo = Some f \<longrightarrow> (\<forall>k \<in> ks. bf_contains X f k))"

lemma covers_None [simp]: "covers X None ks"
  by (simp add: covers_def)

lemma covers_empty [simp]: "covers X fo {}"
  by (simp add: covers_def)

lemma covers_subset: "covers X fo ks \<Longrightarrow> ks' \<subseteq> ks \<Longrightarrow> covers X fo ks'"
  by (auto simp: covers_def)

lemma covers_add:
  "bloom_laws X \<Longrightarrow> covers X fo ks \<Longrightarrow> covers X (filter_add X fo k) (insert k ks)"
  by (auto simp: covers_def filter_add_def bloom_laws_def split: option.splits)

lemma covers_fold_add:
  assumes "bloom_laws X" and "covers X fo ks"
  shows "covers X (fold (\<lambda>k fo. filter_add X fo k) added fo) (set added \<union> ks)"
  using assms(2)
proof (induction added arbitrary: fo ks)
  case Nil
  then show ?case by simp
next
  case (Cons k added)
  have "covers X (fold (\<lambda>k fo. filter_add X fo k) added (filter_add X fo k)) (set added \<union> insert k ks)"
    using Cons.prems by (intro Cons.IH covers_add assms(1))
  then show ?case by simp
qed

lemma list_of_length_4: "length xs = 4 \<Longrightarrow> \<exists>a b c e. xs = [a, b, c, e]"
  by (auto simp: numeral_eq_Suc length_Suc_conv)

text \<open>
  The bytes that decode to a filter are exactly those of the layout: the magic, the
  checksum of the payload in little-endian order, and a payload that deserialises to it.
\<close>

lemma sidecar_decode_exact:
  "sidecar_decode X bs = Some f \<longleftrightarrow>
     (\<exists>payload. bs = ascii ''LSMBLM01'' @ u32_to_le_bytes (crc32c X payload) @ payload \<and> pc_from_bytes X payload = Some f)"
proof
  assume d: "sidecar_decode X bs = Some f"
  let ?c = "take 4 (drop 8 bs)" and ?p = "drop 12 bs"
  have len: "12 \<le> length bs" and m: "take 8 bs = ascii ''LSMBLM01''"
    using d by (auto simp: sidecar_decode_def SIDECAR_MAGIC_def split: if_splits)
  have "?c = [bs ! 8, bs ! 9, bs ! 10, bs ! 11]"
    by (rule nth_equalityI) (use len in \<open>auto simp: less_Suc_eq numeral_eq_Suc\<close>)
  with d len have c: "u32_from_le_bytes ?c = crc32c X ?p" and f: "pc_from_bytes X ?p = Some f"
    by (auto simp: sidecar_decode_def Let_def split: if_splits)
  have "u32_to_le_bytes (u32_from_le_bytes ?c) = ?c" using len by (intro u32_from_le_inverse) simp
  moreover have "bs = take 8 bs @ take 4 (drop 8 bs) @ drop 4 (drop 8 bs)" by (metis append_take_drop_id)
  ultimately have "bs = ascii ''LSMBLM01'' @ u32_to_le_bytes (crc32c X ?p) @ ?p" by (simp add: m c)
  with f show "\<exists>payload. bs = ascii ''LSMBLM01'' @ u32_to_le_bytes (crc32c X payload) @ payload \<and> pc_from_bytes X payload = Some f"
    by blast
next
  assume "\<exists>payload. bs = ascii ''LSMBLM01'' @ u32_to_le_bytes (crc32c X payload) @ payload \<and> pc_from_bytes X payload = Some f"
  then obtain payload where bs: "bs = sidecar_bytes X payload" and f: "pc_from_bytes X payload = Some f"
    by (auto simp: sidecar_bytes_def SIDECAR_MAGIC_def)
  let ?c = "u32_to_le_bytes (crc32c X payload)"
  have m: "length SIDECAR_MAGIC = 8" by (simp add: SIDECAR_MAGIC_def)
  obtain a b c e where abce: "?c = [a, b, c, e]" using list_of_length_4 [OF length_u32_to_le_bytes] by blast
  have "u32_from_le_bytes [a, b, c, e] = crc32c X payload" using u32_le_roundtrip [of "crc32c X payload"] abce by simp
  with abce m f show "sidecar_decode X bs = Some f"
    by (simp add: bs sidecar_decode_def sidecar_bytes_def nth_append Let_def)
qed

text \<open>What the engine wrote to a sidecar is what it reads back.\<close>

lemma sidecar_roundtrip:
  assumes "bloom_laws X" and "pc_to_bytes X f = Some payload"
  shows "sidecar_decode X (sidecar_bytes X payload) = Some f"
  using assms by (auto simp: sidecar_decode_exact sidecar_bytes_def SIDECAR_MAGIC_def bloom_laws_def)

text \<open>Neither sidecar call touches a file other than the sidecar and its temporary.\<close>

abbreviation sidecar_names :: "string \<Rightarrow> string \<Rightarrow> bool" where
  "sidecar_names run_path n \<equiv> n = sidecar_path run_path \<or> n = sidecar_path run_path @ ''.tmp''"

lemma filter_load_keeps: "act_keeps (touches (sidecar_names p)) (filter_load X p)"
proof -
  have "touches (sidecar_names p) d (snd (filter_load X p d))" for d
  proof (cases "fs_read (sidecar_path p) d")
    case (Pair r d1)
    have t1: "touches (sidecar_names p) d d1"
      using act_keepsD [OF fs_read_keeps Pair] by (rule touches_mono) simp
    have t2: "touches (sidecar_names p) d1 (snd (fs_remove_file (sidecar_path p) d1))"
      using fs_remove_file_keeps [of "sidecar_path p"] by (auto simp: act_keeps_def intro: touches_mono)
    show ?thesis
      using Pair t1 touches_trans [OF t1 t2]
      by (simp add: filter_load_def Let_def split: sum.splits option.splits)
  qed
  then show ?thesis by (simp add: act_keeps_def)
qed

lemma write_sidecar_keeps: "act_keeps (touches (sidecar_names p)) (write_sidecar X f p)"
proof -
  let ?P = "touches (sidecar_names p)" and ?tmp = "sidecar_path p @ ''.tmp''"
  have w: "act_keeps ?P (fs_write ?tmp bs)" for bs
    by (rule act_keeps_touches_mono [OF fs_write_keeps]) simp
  have r: "act_keeps ?P (fs_rename ?tmp (sidecar_path p))"
    by (rule act_keeps_touches_mono [OF fs_rename_keeps]) auto
  show ?thesis
    unfolding write_sidecar_def Let_def
    by (auto split: option.splits intro!: act_keeps_then act_keeps_map_err w r)
qed

text \<open>A filter that loads is one that was written, when the sidecar holds what was written.\<close>

lemma filter_load_covers:
  assumes "filter_load X p d = (Inr fo, d')"
    and "\<And>f bs. fs_lookup d (sidecar_path p) = Some f \<Longrightarrow> covers X (sidecar_decode X (fdata f)) ks"
  shows "covers X fo ks"
proof (cases "fs_read (sidecar_path p) d")
  case (Pair r d1)
  show ?thesis
  proof (cases r)
    case (Inl e)
    with Pair assms(1) show ?thesis
      by (auto simp: filter_load_def Let_def split: if_splits)
  next
    case (Inr bs)
    then obtain f where "fs_lookup d (sidecar_path p) = Some f" "bs = fdata f"
      using fs_read_ok [of "sidecar_path p" d bs d1] Pair by auto
    with assms(2) have "covers X (sidecar_decode X bs) ks" by simp
    with Pair Inr assms(1) show ?thesis
      by (auto simp: filter_load_def Let_def split: if_splits option.splits)
  qed
qed

end
