(* ===== verification/SSTable_Writer.thy ===== *)
theory SSTable_Writer
  imports Bloom
begin

text \<open>
  \<^verbatim>\<open>SsTableWriter\<close> (src/sstable.rs): entries are buffered into blocks, every full block is
  written with its index handle, and \<^verbatim>\<open>finish\<close> appends the index and the footer and
  forces the file to stable storage. The buffered writer in front of the file is
  transparent here: a \<^verbatim>\<open>write_all\<close> appends to the file.

  A writer that returned an error is dropped by its caller, so a failing call gives no
  writer back; what it left in the file stays on the disk.
\<close>

record writer =
  w_path :: string
  w_offset :: u64
  block_buf :: bytes
  block_last_key :: bytes
  w_index :: "block_handle list"
  w_entry_count :: u64

definition writer_create :: "string \<Rightarrow> (error, writer) fsact" where
  "writer_create path =
     act_then (act_map_err (io ''create sorted run'') (fs_create path)) (\<lambda>_.
     act_then (act_map_err (io ''write run magic'') (fs_write_all path MAGIC)) (\<lambda>_.
     act_ok \<lparr>w_path = path, w_offset = of_nat (length MAGIC), block_buf = [], block_last_key = [],
             w_index = [], w_entry_count = 0\<rparr>))"

definition flush_block :: "'f externals \<Rightarrow> writer \<Rightarrow> (error, writer) fsact" where
  "flush_block X w =
     (if block_buf w = [] then act_ok w
      else let crc = crc32c X (block_buf w) in
        act_then (act_res (u32_try_from ''data block larger than u32'' (length (block_buf w)))) (\<lambda>len.
        act_then (act_map_err (io ''write data block'') (fs_write_all (w_path w) (block_buf w))) (\<lambda>_.
        act_ok (w\<lparr>w_index := w_index w @ [\<lparr>last_key = block_last_key w, offset = w_offset w,
                                             len = len, crc = crc\<rparr>],
                  block_last_key := [],
                  w_offset := w_offset w + ucast len,
                  block_buf := []\<rparr>))))"

definition writer_push :: "'f externals \<Rightarrow> writer \<Rightarrow> bytes \<Rightarrow> record_v \<Rightarrow> (error, writer) fsact" where
  "writer_push X w key record =
     act_then (act_res (push_bytes (block_buf w) key record)) (\<lambda>buf.
     let w = w\<lparr>block_buf := buf, block_last_key := key, w_entry_count := w_entry_count w + 1\<rparr> in
     if TARGET_BLOCK_SIZE \<le> length (block_buf w) then flush_block X w else act_ok w)"

definition writer_finish :: "'f externals \<Rightarrow> writer \<Rightarrow> (error, unit) fsact" where
  "writer_finish X w =
     act_then (flush_block X w) (\<lambda>w.
     let index_offset = w_offset w in
     act_then (act_res (index_bytes [] (w_index w))) (\<lambda>index_bytes.
     let index_crc = crc32c X index_bytes; index_len = of_nat (length index_bytes) in
     act_then (act_map_err (io ''write run index'') (fs_write_all (w_path w) index_bytes)) (\<lambda>_.
     let footer = footer_bytes (w_entry_count w) index_offset index_len index_crc in
     act_then (act_map_err (io ''write run footer'') (fs_write_all (w_path w) footer)) (\<lambda>_.
     act_then (act_map_err (io ''flush run buffer'') (fs_call (Inr ()))) (\<lambda>_.
     act_map_err (io ''flush run to stable storage'') (fs_sync_all (w_path w)))))))"

text \<open>
  The loop both callers run: push every entry, adding its key to the filter
  (\<^verbatim>\<open>flush_locked\<close> over the memtable, \<^verbatim>\<open>compact_inner\<close> over the merged stream).
\<close>

fun push_entries ::
    "'f externals \<Rightarrow> writer \<times> 'f option \<Rightarrow> entry list \<Rightarrow> (error, writer \<times> 'f option) fsact" where
  "push_entries X (w, fo) [] = act_ok (w, fo)"
| "push_entries X (w, fo) ((key, record) # es) =
     act_then (writer_push X w key record) (\<lambda>w. push_entries X (w, filter_add X fo key) es)"

section \<open>The file a writer leaves\<close>

text \<open>
  \<^verbatim>\<open>handles X off bss\<close> is the index of the blocks \<^verbatim>\<open>bss\<close> laid out from offset \<^verbatim>\<open>off\<close>;
  \<^verbatim>\<open>run_image X bss\<close> is the whole file of docs/SSTABLE_FORMAT.md.
\<close>

fun handles :: "'f externals \<Rightarrow> nat \<Rightarrow> entry list list \<Rightarrow> block_handle list" where
  "handles X off [] = []"
| "handles X off (b # bs) =
     \<lparr>last_key = fst (last b), offset = of_nat off, len = of_nat (length (enc_block b)),
      crc = crc32c X (enc_block b)\<rparr> # handles X (off + length (enc_block b)) bs"

abbreviation data_bytes :: "entry list list \<Rightarrow> bytes" where
  "data_bytes bss \<equiv> enc_block (concat bss)"

definition run_image :: "'f externals \<Rightarrow> entry list list \<Rightarrow> bytes" where
  "run_image X bss =
     (let idx = enc_index (handles X 8 bss)
      in MAGIC @ data_bytes bss @ idx
           @ footer_bytes (of_nat (length (concat bss))) (of_nat (8 + length (data_bytes bss)))
               (of_nat (length idx)) (crc32c X idx))"

lemma handles_append:
  "handles X off (bs @ cs) = handles X off bs @ handles X (off + length (data_bytes bs)) cs"
  by (induction bs arbitrary: off) (simp_all add: add.assoc)

lemma length_handles [simp]: "length (handles X off bss) = length bss"
  by (induction bss arbitrary: off) auto

lemma last_key_handles: "map last_key (handles X off bss) = map (\<lambda>b. fst (last b)) bss"
  by (induction bss arbitrary: off) auto

text \<open>
  What \<^verbatim>\<open>push\<close> accepts of an entry: lengths within the \<^verbatim>\<open>u32\<close> prefixes. This is weaker
  than what the reader accepts (\<^verbatim>\<open>fits\<close>).
\<close>

definition pushable :: "entry \<Rightarrow> bool" where
  "pushable e \<longleftrightarrow> length (fst e) < 2 ^ 32 \<and> value_len (snd e) < 2 ^ 32"

lemma fits_pushable: "fits e \<Longrightarrow> pushable e"
  by (auto simp: fits_def pushable_def)

text \<open>
  A full block: it reached the target size with its last entry, not before.
\<close>

definition full_block :: "entry list \<Rightarrow> bool" where
  "full_block b \<longleftrightarrow> b \<noteq> [] \<and> TARGET_BLOCK_SIZE \<le> length (enc_block b)
     \<and> length (enc_block (butlast b)) < TARGET_BLOCK_SIZE \<and> length (enc_block b) < 2 ^ 32"

text \<open>
  The writer's invariant: \<^verbatim>\<open>bss\<close> are the blocks written so far, \<^verbatim>\<open>pend\<close> the entries
  in the buffer.
\<close>

definition writing :: "'f externals \<Rightarrow> writer \<Rightarrow> fs \<Rightarrow> entry list list \<Rightarrow> entry list \<Rightarrow> bool" where
  "writing X w d bss pend \<longleftrightarrow>
     fs_lookup d (w_path w) = Some (File (MAGIC @ data_bytes bss) False)
     \<and> w_index w = handles X 8 bss
     \<and> block_buf w = enc_block pend
     \<and> (pend \<noteq> [] \<longrightarrow> block_last_key w = fst (last pend))
     \<and> w_offset w = of_nat (8 + length (data_bytes bss))
     \<and> w_entry_count w = of_nat (length (concat bss @ pend))
     \<and> (\<forall>b \<in> set bss. full_block b)
     \<and> length (enc_block pend) < TARGET_BLOCK_SIZE
     \<and> (\<forall>e \<in> set (concat bss @ pend). pushable e)"

lemma writer_create_ok:
  assumes "writer_create path d = (Inr w, d')"
  shows "writing X w d' [] [] \<and> w_path w = path"
  using assms unfolding writer_create_def
  by (auto elim!: act_then_InrE simp: act_map_err_Inr_iff writing_def TARGET_BLOCK_SIZE_def
      dest!: fs_create_ok fs_write_all_ok)

text \<open>Writing the buffer out turns the pending entries into one more block.\<close>

lemma flush_block_ok:
  assumes w: "fs_lookup d (w_path w) = Some (File (MAGIC @ data_bytes bss) False)"
      "w_index w = handles X 8 bss" "block_buf w = enc_block b" "b \<noteq> []"
      "block_last_key w = fst (last b)" "w_offset w = of_nat (8 + length (data_bytes bss))"
    and fl: "flush_block X w d = (Inr w', d')"
  shows "fs_lookup d' (w_path w') = Some (File (MAGIC @ data_bytes (bss @ [b])) False)
     \<and> w_index w' = handles X 8 (bss @ [b]) \<and> block_buf w' = []
     \<and> w_offset w' = of_nat (8 + length (data_bytes (bss @ [b])))
     \<and> w_entry_count w' = w_entry_count w \<and> w_path w' = w_path w
     \<and> length (enc_block b) < 2 ^ 32"
proof -
  have ne: "block_buf w \<noteq> []" using w(3,4) by simp
  obtain d1 where len: "length (enc_block b) < 2 ^ 32"
    and wr: "fs_write_all (w_path w) (enc_block b) d = (Inr (), d1)"
    and w': "w' = w\<lparr>w_index := w_index w @ [\<lparr>last_key = block_last_key w, offset = w_offset w,
               len = of_nat (length (enc_block b)), crc = crc32c X (enc_block b)\<rparr>],
               block_last_key := [], w_offset := w_offset w + ucast (of_nat (length (enc_block b)) :: u32),
               block_buf := []\<rparr>" and d': "d' = d1"
    using fl ne w(3) unfolding flush_block_def Let_def
    by (auto elim!: act_then_InrE simp: act_map_err_Inr_iff u32_try_from_def split: if_splits)
  show ?thesis
    using fs_write_all_ok [OF wr w(1)] w len d'
    by (simp add: w' handles_append ucast_u32_u64)
qed

lemma writer_push_ok:
  assumes w: "writing X w d bss pend" and p: "writer_push X w k r d = (Inr w', d')"
  shows "w_path w' = w_path w \<and>
    (writing X w' d' bss (pend @ [(k, r)]) \<or> writing X w' d' (bss @ [pend @ [(k, r)]]) [])"
proof -
  let ?b = "pend @ [(k, r)]"
  let ?w = "w\<lparr>block_buf := enc_block ?b, block_last_key := k, w_entry_count := w_entry_count w + 1\<rparr>"
  from p obtain buf where pb: "push_bytes (block_buf w) k r = Inr buf"
    unfolding writer_push_def by (auto elim!: act_then_InrE)
  note pbI = push_bytes_Inr [OF pb]
  have buf: "buf = enc_block ?b" using pbI w by (simp add: writing_def)
  have pk: "pushable (k, r)" using pbI by (simp add: pushable_def)
  have rest: "(if TARGET_BLOCK_SIZE \<le> length (enc_block ?b) then flush_block X ?w else act_ok ?w) d
      = (Inr w', d')"
    using p pb unfolding writer_push_def Let_def by (simp add: act_then_def buf split: if_splits)
  show ?thesis
  proof (cases "TARGET_BLOCK_SIZE \<le> length (enc_block ?b)")
    case False
    with rest w pk show ?thesis by (auto simp: writing_def)
  next
    case True
    with rest have fl: "flush_block X ?w d = (Inr w', d')" by simp
    have "fs_lookup d (w_path ?w) = Some (File (MAGIC @ data_bytes bss) False)"
      "w_index ?w = handles X 8 bss" "block_buf ?w = enc_block ?b" "?b \<noteq> []"
      "block_last_key ?w = fst (last ?b)" "w_offset ?w = of_nat (8 + length (data_bytes bss))"
      using w by (simp_all add: writing_def)
    note fb = flush_block_ok [OF this fl]
    have "full_block ?b" using True fb w by (simp add: full_block_def writing_def)
    with fb w pk show ?thesis by (auto simp: writing_def TARGET_BLOCK_SIZE_def)
  qed
qed

lemma writing_extends:
  "writing X w d bss (pend @ [e]) \<or> writing X w d (bss @ [pend @ [e]]) [] \<Longrightarrow>
     \<exists>bss' pend'. writing X w d bss' pend' \<and> concat bss' @ pend' = concat bss @ pend @ [e]"
  by (metis append.right_neutral append_assoc concat_append concat.simps)

lemma push_entries_ok:
  assumes "writing X w d bss pend" and "push_entries X (w, fo) es d = (Inr (w', fo'), d')"
  shows "\<exists>bss' pend'. writing X w' d' bss' pend' \<and> concat bss' @ pend' = concat bss @ pend @ es
     \<and> w_path w' = w_path w \<and> fo' = fold (\<lambda>k fo. filter_add X fo k) (map fst es) fo"
  using assms
proof (induction es arbitrary: w fo d bss pend)
  case Nil
  then show ?case by auto
next
  case (Cons e es)
  obtain k r where e: "e = (k, r)" by (cases e)
  from Cons.prems(2) obtain w1 d1 where p: "writer_push X w k r d = (Inr w1, d1)"
    and rest: "push_entries X (w1, filter_add X fo k) es d1 = (Inr (w', fo'), d')"
    by (auto simp: e elim: act_then_InrE)
  from writer_push_ok [OF Cons.prems(1) p] obtain bss1 pend1 where
    "writing X w1 d1 bss1 pend1" "concat bss1 @ pend1 = concat bss @ pend @ [(k, r)]"
    "w_path w1 = w_path w"
    using writing_extends [of X w1 d1 bss pend "(k, r)"] by blast
  with Cons.IH [OF _ rest] show ?case
    by (simp add: e) (metis append.assoc append_Cons append_Nil)
qed

text \<open>
  The blocks of a finished run: all but the last are full, the last is whatever was
  pending.
\<close>

definition run_blocks :: "entry list list \<Rightarrow> bool" where
  "run_blocks bss \<longleftrightarrow> (\<forall>b \<in> set bss. b \<noteq> [] \<and> length (enc_block b) < 2 ^ 32)
     \<and> (\<forall>b \<in> set (butlast bss). full_block b)
     \<and> (\<forall>e \<in> set (concat bss). pushable e)"

text \<open>Every key in the index is the key of an entry that was pushed.\<close>

lemma handles_keys:
  assumes "h \<in> set (handles X off bss)" and "\<forall>b \<in> set bss. b \<noteq> []"
  shows "last_key h \<in> fst ` set (concat bss)"
proof -
  from assms(1) have "last_key h \<in> set (map (\<lambda>b. fst (last b)) bss)"
    using last_key_handles [of X off bss] by (metis imageI set_map)
  then obtain b where b: "b \<in> set bss" "last_key h = fst (last b)" by auto
  with assms(2) have "last b \<in> set b" by auto
  with b show ?thesis by auto
qed

text \<open>Flushing the last block: the handles then describe all blocks.\<close>

lemma flush_last_block:
  assumes w: "writing X w d bss pend" and fl: "flush_block X w d = (Inr w1, d1)"
    and bss': "bss' = (if pend = [] then bss else bss @ [pend])"
  shows "fs_lookup d1 (w_path w1) = Some (File (MAGIC @ data_bytes bss') False)
      \<and> w_index w1 = handles X 8 bss' \<and> w_offset w1 = of_nat (8 + length (data_bytes bss'))
      \<and> w_entry_count w1 = of_nat (length (concat bss')) \<and> w_path w1 = w_path w
      \<and> (\<forall>b \<in> set bss'. b \<noteq> [] \<and> length (enc_block b) < 2 ^ 32)"
proof (cases "pend = []")
  case True
  with w fl show ?thesis by (auto simp: flush_block_def writing_def bss' full_block_def)
next
  case False
  have "fs_lookup d (w_path w) = Some (File (MAGIC @ data_bytes bss) False)"
    "w_index w = handles X 8 bss" "block_buf w = enc_block pend"
    "block_last_key w = fst (last pend)" "w_offset w = of_nat (8 + length (data_bytes bss))"
    using w False by (simp_all add: writing_def)
  from flush_block_ok [OF this(1-3) False this(4,5) fl] w False show ?thesis
    by (auto simp: writing_def bss' full_block_def)
qed

lemma flush_index_keys:
  assumes w: "writing X w d bss pend" and fl: "flush_block X w d = (Inr w1, d1)"
  shows "\<forall>h \<in> set (w_index w1). length (last_key h) < 2 ^ 32"
proof
  let ?bss = "if pend = [] then bss else bss @ [pend]"
  note fb = flush_last_block [OF assms refl]
  have "\<forall>e \<in> set (concat ?bss). pushable e" using w by (auto simp: writing_def)
  fix h assume "h \<in> set (w_index w1)"
  then have "last_key h \<in> fst ` set (concat ?bss)" using fb handles_keys by metis
  then obtain e where "e \<in> set (concat ?bss)" "last_key h = fst e" by blast
  with \<open>\<forall>e \<in> set (concat ?bss). pushable e\<close> show "length (last_key h) < 2 ^ 32"
    by (metis pushable_def)
qed

lemma writer_finish_ok:
  assumes w: "writing X w d bss pend" and f: "writer_finish X w d = (Inr (), d')"
  shows "\<exists>bss'. concat bss' = concat bss @ pend \<and> run_blocks bss'
     \<and> fs_lookup d' (w_path w) = Some (File (run_image X bss') True)"
proof -
  from f obtain w1 d1 where fl: "flush_block X w d = (Inr w1, d1)"
    and rest: "(let index_offset = w_offset w1 in
     act_then (act_res (index_bytes [] (w_index w1))) (\<lambda>index_bytes.
     let index_crc = crc32c X index_bytes; index_len = of_nat (length index_bytes) in
     act_then (act_map_err (io ''write run index'') (fs_write_all (w_path w1) index_bytes)) (\<lambda>_.
     let footer = footer_bytes (w_entry_count w1) index_offset index_len index_crc in
     act_then (act_map_err (io ''write run footer'') (fs_write_all (w_path w1) footer)) (\<lambda>_.
     act_then (act_map_err (io ''flush run buffer'') (fs_call (Inr ()))) (\<lambda>_.
     act_map_err (io ''flush run to stable storage'') (fs_sync_all (w_path w1))))))) d1 = (Inr (), d')"
    unfolding writer_finish_def by (auto elim: act_then_InrE)
  define bss' where "bss' = (if pend = [] then bss else bss @ [pend])"
  have cc: "concat bss' = concat bss @ pend" by (simp add: bss'_def)
  note w1 = flush_last_block [OF w fl bss'_def]
  have pk: "\<forall>e \<in> set (concat bss'). pushable e" using w cc by (simp add: writing_def)
  have "\<forall>h \<in> set (w_index w1). length (last_key h) < 2 ^ 32"
    using flush_index_keys [OF w fl] .
  then have ib: "index_bytes [] (w_index w1) = Inr (enc_index (handles X 8 bss'))"
    using w1 by (simp add: index_bytes_enc)
  have "fs_lookup d' (w_path w) = Some (File (run_image X bss') True)"
  proof -
    let ?idx = "enc_index (handles X 8 bss')"
    let ?ft = "footer_bytes (w_entry_count w1) (w_offset w1) (of_nat (length ?idx)) (crc32c X ?idx)"
    obtain d2 d3 d4 where s: "fs_write_all (w_path w) ?idx d1 = (Inr (), d2)"
      "fs_write_all (w_path w) ?ft d2 = (Inr (), d3)" "fs_call (Inr ()) d3 = (Inr (), d4)"
      "fs_sync_all (w_path w) d4 = (Inr (), d')"
      using rest ib w1
      by (auto elim!: act_then_InrE simp: Let_def act_map_err_Inr_iff)
    have "fs_lookup d1 (w_path w) = Some (File (MAGIC @ data_bytes bss') False)"
      using w1 by auto
    from fs_write_all_ok [OF s(2) fs_write_all_ok [OF s(1) this]]
    have "fs_lookup d4 (w_path w) = Some (File (run_image X bss') False)"
      using w1 by (simp add: fs_call_lookup [OF s(3)] run_image_def Let_def)
    from fs_sync_all_ok [OF s(4) this] show ?thesis by simp
  qed
  moreover have "\<forall>b \<in> set (butlast bss'). full_block b"
    using w in_set_butlastD [of _ bss] by (auto simp: bss'_def writing_def)
  then have "run_blocks bss'" using w1 pk by (simp only: run_blocks_def) blast
  ultimately show ?thesis using cc by blast
qed

section \<open>Frame: only the file being written changes\<close>

abbreviation (input) only :: "string \<Rightarrow> string \<Rightarrow> bool" where
  "only p \<equiv> (\<lambda>n. n = p)"

lemma keeps_quiet: "act_keeps (touches (\<lambda>n. False)) m \<Longrightarrow> act_keeps (touches P) m"
  by (erule act_keeps_touches_mono) simp

lemmas act_keeps_intros = act_keeps_then act_keeps_map_err act_keeps_basic touches_transp touches_refl

lemma writer_create_keeps: "act_keeps (touches (only p)) (writer_create p)"
  unfolding writer_create_def by (intro act_keeps_intros fs_keeps)

lemma flush_block_keeps: "act_keeps (touches (only (w_path w))) (flush_block X w)"
  unfolding flush_block_def Let_def by (auto intro!: act_keeps_intros fs_keeps)

lemma writer_push_keeps: "act_keeps (touches (only (w_path w))) (writer_push X w k r)"
proof -
  have "act_keeps (touches (only (w_path w))) (flush_block X (w\<lparr>block_buf := b, block_last_key := k,
      w_entry_count := c\<rparr>))" for b c
    using flush_block_keeps [of "w\<lparr>block_buf := b, block_last_key := k, w_entry_count := c\<rparr>"] by simp
  then show ?thesis
    unfolding writer_push_def Let_def by (auto intro!: act_keeps_intros)
qed

lemma flush_block_path: "flush_block X w d = (Inr w', d') \<Longrightarrow> w_path w' = w_path w"
  unfolding flush_block_def Let_def by (auto elim!: act_then_InrE split: if_splits)

lemma writer_push_path: "writer_push X w k r d = (Inr w', d') \<Longrightarrow> w_path w' = w_path w"
  unfolding writer_push_def Let_def
  by (auto elim!: act_then_InrE split: if_splits dest!: flush_block_path)

lemma writer_create_path: "writer_create p d = (Inr w, d') \<Longrightarrow> w_path w = p"
  unfolding writer_create_def by (auto elim!: act_then_InrE)

lemma push_entries_touches:
  "push_entries X (w, fo) es d = (r, d') \<Longrightarrow> touches (only (w_path w)) d d'"
proof (induction es arbitrary: w fo d)
  case Nil
  then show ?case by simp
next
  case (Cons e es)
  obtain k rec where e: "e = (k, rec)" by (cases e)
  obtain r1 d1 where p: "writer_push X w k rec d = (r1, d1)" by (cases "writer_push X w k rec d")
  have t: "touches (only (w_path w)) d d1" using act_keepsD [OF writer_push_keeps p] .
  show ?case
  proof (cases r1)
    case (Inl err)
    with p Cons.prems t e show ?thesis by (simp add: act_then_def)
  next
    case (Inr w1)
    with p have "w_path w1 = w_path w" by (simp add: writer_push_path)
    moreover have "touches (only (w_path w1)) d1 d'"
      using Cons.prems p Inr e by (intro Cons.IH) (simp add: act_then_def)
    ultimately show ?thesis using t by (metis touches_trans)
  qed
qed

lemma push_entries_path:
  "push_entries X (w, fo) es d = (Inr (w', fo'), d') \<Longrightarrow> w_path w' = w_path w"
proof (induction es arbitrary: w fo d)
  case Nil
  then show ?case by simp
next
  case (Cons e es)
  then show ?case by (cases e) (auto elim!: act_then_InrE dest!: writer_push_path)
qed

lemma writer_finish_keeps: "act_keeps (touches (only (w_path w))) (writer_finish X w)"
  unfolding act_keeps_def
proof
  fix d
  obtain r d1 where fl: "flush_block X w d = (r, d1)" by (cases "flush_block X w d")
  have t1: "touches (only (w_path w)) d d1" using act_keepsD [OF flush_block_keeps fl] .
  show "touches (only (w_path w)) d (snd (writer_finish X w d))"
  proof (cases r)
    case (Inl e)
    with fl t1 show ?thesis by (simp add: writer_finish_def act_then_cases)
  next
    case (Inr w1)
    let ?rest = "\<lambda>w. let index_offset = w_offset w in
     act_then (act_res (index_bytes [] (w_index w))) (\<lambda>index_bytes.
     let index_crc = crc32c X index_bytes; index_len = of_nat (length index_bytes) in
     act_then (act_map_err (io ''write run index'') (fs_write_all (w_path w) index_bytes)) (\<lambda>_.
     let footer = footer_bytes (w_entry_count w) index_offset index_len index_crc in
     act_then (act_map_err (io ''write run footer'') (fs_write_all (w_path w) footer)) (\<lambda>_.
     act_then (act_map_err (io ''flush run buffer'') (fs_call (Inr ()))) (\<lambda>_.
     act_map_err (io ''flush run to stable storage'') (fs_sync_all (w_path w))))))"
    have "act_keeps (touches (only (w_path w1))) (?rest w1)"
      unfolding Let_def
      by (intro act_keeps_intros fs_keeps keeps_quiet)
    then have "touches (only (w_path w1)) d1 (snd (?rest w1 d1))" by (simp add: act_keeps_def)
    moreover have "w_path w1 = w_path w" using fl Inr by (simp add: flush_block_path)
    moreover have "writer_finish X w d = ?rest w1 d1"
      using fl Inr by (simp add: writer_finish_def act_then_cases)
    ultimately show ?thesis using touches_trans [OF t1] by simp
  qed
qed

section \<open>A healthy disk: every run of entries that fit is written\<close>

lemma fault_free_ops:
  assumes "fault_free d"
  shows "\<exists>d'. fs_create p d = (Inr (), d') \<and> fault_free d'"
    and "\<exists>d'. fs_write_all p bs d = (Inr (), d') \<and> fault_free d'"
    and "\<exists>d'. fs_sync_all p d = (Inr (), d') \<and> fault_free d'"
    and "\<exists>d'. fs_call (Inr x) d = (Inr x, d') \<and> fault_free d'"
  using assms
  by (auto simp: fs_create_def fs_write_all_def fs_sync_all_def fs_call_def Let_def fault_free_def
      split: option.splits)

lemma writer_create_total:
  assumes "fault_free d"
  shows "\<exists>w d'. writer_create p d = (Inr w, d') \<and> fault_free d'"
proof -
  obtain d1 where 1: "fs_create p d = (Inr (), d1)" "fault_free d1"
    using fault_free_ops(1) [OF assms] by blast
  obtain d2 where 2: "fs_write_all p MAGIC d1 = (Inr (), d2)" "fault_free d2"
    using fault_free_ops(2) [OF 1(2)] by blast
  from 1 2 show ?thesis
    by (simp add: writer_create_def act_then_def act_map_err_def)
qed

lemma flush_block_total:
  assumes "fault_free d" and "length (block_buf w) < 2 ^ 32"
  shows "\<exists>w' d'. flush_block X w d = (Inr w', d') \<and> fault_free d'"
proof -
  obtain d1 where 1: "fs_write_all (w_path w) (block_buf w) d = (Inr (), d1)" "fault_free d1"
    using fault_free_ops(2) [OF assms(1)] by blast
  with assms show ?thesis
    by (auto simp: flush_block_def Let_def act_then_def act_map_err_def u32_try_from_def)
qed

lemma writer_push_room:
  assumes "fault_free d" and "pushable (k, r)" and "length (block_buf w) + length (enc_entry (k, r)) < 2 ^ 32"
  shows "\<exists>w' d'. writer_push X w k r d = (Inr w', d') \<and> fault_free d'"
proof -
  let ?buf = "block_buf w @ enc_entry (k, r)"
  let ?w = "w\<lparr>block_buf := ?buf, block_last_key := k, w_entry_count := w_entry_count w + 1\<rparr>"
  have pb: "push_bytes (block_buf w) k r = Inr ?buf"
    using assms(2) by (intro push_bytes_enc) (auto simp: pushable_def)
  have "length (block_buf ?w) < 2 ^ 32" using assms(3) by simp
  from flush_block_total [OF assms(1) this, of X] pb assms(1) show ?thesis
    by (auto simp: writer_push_def act_then_def Let_def)
qed

lemma writer_push_total:
  assumes "fault_free d" and "writing X w d bss pend" and "fits (k, r)"
  shows "\<exists>w' d'. writer_push X w k r d = (Inr w', d') \<and> fault_free d'"
proof (rule writer_push_room [OF assms(1) fits_pushable [OF assms(3)]])
  have "length (block_buf w) < 4096" using assms(2) by (simp add: writing_def TARGET_BLOCK_SIZE_def)
  moreover have "length (enc_entry (k, r)) \<le> 9 + 2 ^ 30 + 2 ^ 30"
    using assms(3) by (simp add: length_enc_entry fits_def)
  ultimately show "length (block_buf w) + length (enc_entry (k, r)) < 2 ^ 32" by simp
qed

lemma push_entries_total:
  assumes "fault_free d" and "writing X w d bss pend" and "\<forall>e \<in> set es. fits e"
  shows "\<exists>w' fo' d'. push_entries X (w, fo) es d = (Inr (w', fo'), d') \<and> fault_free d'"
  using assms
proof (induction es arbitrary: w fo d bss pend)
  case Nil
  then show ?case by simp
next
  case (Cons e es)
  obtain k r where e: "e = (k, r)" by (cases e)
  obtain w1 d1 where p: "writer_push X w k r d = (Inr w1, d1)" "fault_free d1"
    using writer_push_total [OF Cons.prems(1,2), of k r] Cons.prems(3) e by auto
  from writer_push_ok [OF Cons.prems(2) p(1)] obtain bss1 pend1 where "writing X w1 d1 bss1 pend1"
    by blast
  from Cons.IH [OF p(2) this] Cons.prems(3) p(1) show ?case
    by (simp add: e act_then_def)
qed

lemma writer_finish_total:
  assumes "fault_free d" and "writing X w d bss pend"
  shows "\<exists>d'. writer_finish X w d = (Inr (), d') \<and> fault_free d'"
proof -
  have "length (block_buf w) < 2 ^ 32" using assms(2) by (simp add: writing_def TARGET_BLOCK_SIZE_def)
  then obtain w1 d1 where fl: "flush_block X w d = (Inr w1, d1)" "fault_free d1"
    using flush_block_total [OF assms(1)] by blast
  have "\<exists>idx. index_bytes [] (w_index w1) = Inr idx"
  proof -
    have "\<forall>h \<in> set (w_index w1). length (last_key h) < 2 ^ 32"
      using flush_index_keys [OF assms(2) fl(1)] .
    then show ?thesis by (simp add: index_bytes_enc)
  qed
  then obtain idx where idx: "index_bytes [] (w_index w1) = Inr idx" by blast
  obtain d2 where 2: "fs_write_all (w_path w1) idx d1 = (Inr (), d2)" "fault_free d2"
    using fault_free_ops(2) [OF fl(2)] by blast
  let ?ft = "footer_bytes (w_entry_count w1) (w_offset w1) (of_nat (length idx)) (crc32c X idx)"
  obtain d3 where 3: "fs_write_all (w_path w1) ?ft d2 = (Inr (), d3)" "fault_free d3"
    using fault_free_ops(2) [OF 2(2)] by blast
  obtain d4 where 4: "fs_call (Inr ()) d3 = (Inr (), d4)" "fault_free d4"
    using fault_free_ops(4) [OF 3(2), of "()"] by auto
  obtain d5 where 5: "fs_sync_all (w_path w1) d4 = (Inr (), d5)" "fault_free d5"
    using fault_free_ops(3) [OF 4(2)] by blast
  from fl idx 2 3 4 5 show ?thesis
    by (simp add: writer_finish_def act_then_def act_map_err_def Let_def)
qed

end
