(* ===== verification/Cache.thy ===== *)
theory Cache
  imports Errors
begin

text \<open>
  The shared cache of decoded blocks (src/cache.rs): sixteen shards, each a ring of
  slots with a CLOCK hand. The per-shard mutexes make every call atomic, so a call is
  a function from the shard it finds to the shard it leaves.

  The locale \<^verbatim>\<open>lossy_cache\<close> is what a reader relies on: a hit is a block that was
  inserted under that key, whatever was evicted in between. Its client lemma, that a
  read-through over such a cache returns what the uncached read returns, is used for
  point lookups on a run.
\<close>

unbundle bit_operations_syntax

section \<open>The interface\<close>

locale lossy_cache =
  fixes get :: "'c \<Rightarrow> 'k \<Rightarrow> 'v option \<times> 'c"
    and insert :: "'c \<Rightarrow> 'k \<Rightarrow> 'v \<Rightarrow> 'c"
    and peek :: "'c \<Rightarrow> 'k \<Rightarrow> 'v option"
    and inv :: "'c \<Rightarrow> bool"
  assumes get_fst: "inv c \<Longrightarrow> fst (get c k) = peek c k"
    and get_peek: "inv c \<Longrightarrow> peek (snd (get c k)) k' = peek c k'"
    and get_inv: "inv c \<Longrightarrow> inv (snd (get c k))"
    and insert_inv: "inv c \<Longrightarrow> inv (insert c k v)"
    and insert_sound: "inv c \<Longrightarrow> peek (insert c k v) k' = Some w \<Longrightarrow>
      (if k' = k then w = v else peek c k' = Some w)"
begin

text \<open>Every resident block satisfies \<^verbatim>\<open>good\<close>; for lookups, \<^verbatim>\<open>good k v\<close> says that \<^verbatim>\<open>v\<close> is block \<^verbatim>\<open>k\<close>.\<close>

definition coherent :: "('k \<Rightarrow> 'v \<Rightarrow> bool) \<Rightarrow> 'c \<Rightarrow> bool" where
  "coherent good c \<longleftrightarrow> inv c \<and> (\<forall>k v. peek c k = Some v \<longrightarrow> good k v)"

lemma coherent_get: "coherent good c \<Longrightarrow> coherent good (snd (get c k))"
  by (simp add: coherent_def get_inv get_peek)

lemma coherent_insert: "coherent good c \<Longrightarrow> good k v \<Longrightarrow> coherent good (insert c k v)"
  by (auto simp: coherent_def insert_inv dest: insert_sound split: if_splits)

lemma coherent_hit: "coherent good c \<Longrightarrow> fst (get c k) = Some v \<Longrightarrow> good k v"
  by (simp add: coherent_def get_fst)

lemma coherent_mono: "coherent good c \<Longrightarrow> (\<And>k v. good k v \<Longrightarrow> good' k v) \<Longrightarrow> coherent good' c"
  by (auto simp: coherent_def)

end

section \<open>Shards\<close>

type_synonym decoded_block = "entry list"

record block_key =
  key_run_id :: u64
  key_block_idx :: u32

record slot =
  slot_key :: block_key
  slot_block :: decoded_block
  referenced :: bool

record shard =
  slots :: "slot option list"
  slot_index :: "block_key \<rightharpoonup> nat"
  hand :: nat

definition ASSUMED_BLOCK_BYTES :: nat where
  "ASSUMED_BLOCK_BYTES = 4 * 1024"

definition SHARDS :: nat where
  "SHARDS = 16"

definition with_slots :: "nat \<Rightarrow> shard" where
  "with_slots n = \<lparr>slots = replicate n None, slot_index = Map.empty, hand = 0\<rparr>"

definition shard_get :: "shard \<Rightarrow> block_key \<Rightarrow> decoded_block option \<times> shard" where
  "shard_get s key =
     (case slot_index s key of
        None \<Rightarrow> (None, s)
      | Some i \<Rightarrow>
          (case slots s ! i of
             Some sl \<Rightarrow>
               (Some (slot_block sl), s\<lparr>slots := (slots s)[i := Some (sl\<lparr>referenced := True\<rparr>)]\<rparr>)
           | None \<Rightarrow> (None, s)))"

text \<open>
  The sweep of \<^verbatim>\<open>free_or_evict\<close>: at most \<^verbatim>\<open>n\<close> more steps of the hand. The last
  equation is the fall-back after the loop, which \<^verbatim>\<open>evict_loop_victim\<close> shows is not
  reached with the \<^verbatim>\<open>2 * len\<close> steps the code allows.
\<close>

fun evict_loop :: "nat \<Rightarrow> shard \<Rightarrow> nat \<times> shard" where
  "evict_loop (Suc n) s =
     (let i = hand s; s' = s\<lparr>hand := (hand s + 1) mod length (slots s)\<rparr> in
      case slots s ! i of
        None \<Rightarrow> (i, s')
      | Some sl \<Rightarrow>
          if \<not> referenced sl then (i, s')
          else evict_loop n (s'\<lparr>slots := (slots s)[i := Some (sl\<lparr>referenced := False\<rparr>)]\<rparr>))"
| "evict_loop 0 s = (hand s, s)"

definition free_or_evict :: "shard \<Rightarrow> nat \<times> shard" where
  "free_or_evict s = evict_loop (2 * length (slots s)) s"

definition shard_insert :: "shard \<Rightarrow> block_key \<Rightarrow> decoded_block \<Rightarrow> shard" where
  "shard_insert s key block =
     (if slots s = [] then s
      else case slot_index s key of
        Some i \<Rightarrow>
          (case slots s ! i of
             Some sl \<Rightarrow>
               s\<lparr>slots := (slots s)[i := Some (sl\<lparr>slot_block := block, referenced := True\<rparr>)]\<rparr>
           | None \<Rightarrow> s)
      | None \<Rightarrow>
          (let (i, s) = free_or_evict s;
               index = (case slots s ! i of
                          Some old \<Rightarrow> (slot_index s)(slot_key old := None)
                        | None \<Rightarrow> slot_index s)
           in s\<lparr>slots := (slots s)[i := Some \<lparr>slot_key = key, slot_block = block, referenced = True\<rparr>],
                slot_index := index(key \<mapsto> i)\<rparr>))"

text \<open>
  The index and the ring describe the same residents; a lookup never indexes the ring
  out of range, so \<^verbatim>\<open>self.slots[i]\<close> does not panic.
\<close>

definition shard_inv :: "shard \<Rightarrow> bool" where
  "shard_inv s \<longleftrightarrow>
     (\<forall>k i. slot_index s k = Some i \<longleftrightarrow>
        i < length (slots s) \<and> (\<exists>sl. slots s ! i = Some sl \<and> slot_key sl = k))
     \<and> (0 < length (slots s) \<longrightarrow> hand s < length (slots s))"

definition shard_peek :: "shard \<Rightarrow> block_key \<Rightarrow> decoded_block option" where
  "shard_peek s key =
     (case slot_index s key of None \<Rightarrow> None | Some i \<Rightarrow> map_option slot_block (slots s ! i))"

lemma shard_inv_index:
  "shard_inv s \<Longrightarrow> slot_index s k = Some i \<longleftrightarrow>
     i < length (slots s) \<and> (\<exists>sl. slots s ! i = Some sl \<and> slot_key sl = k)"
  by (simp add: shard_inv_def)

lemma shard_inv_hand: "shard_inv s \<Longrightarrow> 0 < length (slots s) \<Longrightarrow> hand s < length (slots s)"
  by (simp add: shard_inv_def)

lemma shard_inv_slot:
  "shard_inv s \<Longrightarrow> i < length (slots s) \<Longrightarrow> slots s ! i = Some sl \<Longrightarrow>
     slot_index s (slot_key sl) = Some i"
  using shard_inv_index by blast

lemma shard_peek_slot:
  "shard_inv s \<Longrightarrow> i < length (slots s) \<Longrightarrow> slots s ! i = Some sl \<Longrightarrow>
     shard_peek s (slot_key sl) = Some (slot_block sl)"
  by (simp add: shard_peek_def shard_inv_slot)

lemma shard_peek_SomeE:
  assumes "shard_inv s" and "shard_peek s k = Some b"
  obtains i sl where "i < length (slots s)" "slots s ! i = Some sl" "slot_key sl = k"
    "slot_block sl = b" "slot_index s k = Some i"
proof -
  obtain i where i: "slot_index s k = Some i"
    using assms(2) by (auto simp: shard_peek_def split: option.splits)
  then obtain sl where "i < length (slots s)" "slots s ! i = Some sl" "slot_key sl = k"
    using shard_inv_index [OF assms(1)] by blast
  with i assms(2) that show thesis by (simp add: shard_peek_def)
qed

lemma with_slots_inv: "shard_inv (with_slots n)"
  by (auto simp: shard_inv_def with_slots_def)

subsection \<open>Updates that keep residents in their slots\<close>

text \<open>
  Setting reference bits, moving the hand or replacing a block in place leaves every
  key where it is. \<^verbatim>\<open>agree f\<close> relates two shards whose slots agree under \<^verbatim>\<open>f\<close>.
\<close>

definition agree :: "(slot \<Rightarrow> 'x) \<Rightarrow> shard \<Rightarrow> shard \<Rightarrow> bool" where
  "agree f s t \<longleftrightarrow> slot_index t = slot_index s \<and> length (slots t) = length (slots s)
     \<and> (\<forall>i < length (slots s). map_option f (slots t ! i) = map_option f (slots s ! i))"

abbreviation same_residents :: "shard \<Rightarrow> shard \<Rightarrow> bool" where
  "same_residents \<equiv> agree (\<lambda>sl. (slot_key sl, slot_block sl))"

lemma agree_refl [simp]: "agree f s s"
  by (simp add: agree_def)

lemma agree_trans: "agree f s t \<Longrightarrow> agree f t u \<Longrightarrow> agree f s u"
  by (simp add: agree_def)

lemma agree_image:
  assumes "agree f s t" and "\<And>x y. f x = f y \<Longrightarrow> g x = g y"
  shows "agree g s t"
proof -
  have "map_option g (slots t ! i) = map_option g (slots s ! i)" if "i < length (slots s)" for i
    using that assms unfolding agree_def
    by (cases "slots t ! i"; cases "slots s ! i") (metis option.simps(8,9) option.distinct(1) option.inject)+
  with assms(1) show ?thesis by (simp add: agree_def)
qed

lemma agree_inv:
  assumes a: "agree slot_key s t" and s: "shard_inv s"
    and h: "0 < length (slots s) \<Longrightarrow> hand t < length (slots s)"
  shows "shard_inv t"
proof -
  have "(\<exists>sl. slots t ! i = Some sl \<and> slot_key sl = k) \<longleftrightarrow> (\<exists>sl. slots s ! i = Some sl \<and> slot_key sl = k)"
    if "i < length (slots s)" for i k
  proof -
    have "map_option slot_key (slots t ! i) = map_option slot_key (slots s ! i)"
      using that a by (simp add: agree_def)
    then show ?thesis by (cases "slots t ! i"; cases "slots s ! i") auto
  qed
  then have "slot_index t k = Some i \<longleftrightarrow>
      i < length (slots t) \<and> (\<exists>sl. slots t ! i = Some sl \<and> slot_key sl = k)" for k i
    using a shard_inv_index [OF s, of k i] by (auto simp: agree_def)
  moreover have "length (slots t) = length (slots s)" using a by (simp add: agree_def)
  ultimately show ?thesis using h by (simp add: shard_inv_def)
qed

lemma agree_peek:
  assumes a: "same_residents s t" and s: "shard_inv s"
  shows "shard_peek t k = shard_peek s k"
proof (cases "slot_index s k")
  case None
  with a show ?thesis by (simp add: shard_peek_def agree_def)
next
  case (Some i)
  then have "i < length (slots s)" using shard_inv_index [OF s] by blast
  then have "map_option (\<lambda>sl. (slot_key sl, slot_block sl)) (slots t ! i)
      = map_option (\<lambda>sl. (slot_key sl, slot_block sl)) (slots s ! i)"
    using a by (simp add: agree_def)
  then have "map_option slot_block (slots t ! i) = map_option slot_block (slots s ! i)"
    by (cases "slots t ! i"; cases "slots s ! i") auto
  with Some a show ?thesis by (simp add: shard_peek_def agree_def)
qed

lemma agree_set_slot:
  "i < length (slots s) \<Longrightarrow> slots s ! i = Some sl \<Longrightarrow> f sl' = f sl \<Longrightarrow>
     agree f s (s\<lparr>slots := (slots s)[i := Some sl']\<rparr>)"
  by (simp add: agree_def nth_list_update)

lemma agree_hand: "agree f s t \<Longrightarrow> agree f s (t\<lparr>hand := h\<rparr>)"
  by (simp add: agree_def)

lemma same_residents_keys: "same_residents s t \<Longrightarrow> agree slot_key s t"
  by (erule agree_image) simp

subsection \<open>Get\<close>

lemma shard_get_fst: "fst (shard_get s k) = shard_peek s k"
  by (simp add: shard_get_def shard_peek_def split: option.splits)

lemma shard_get_agree:
  assumes "shard_inv s"
  shows "same_residents s (snd (shard_get s k))"
proof (cases "slot_index s k")
  case None
  then show ?thesis by (simp add: shard_get_def)
next
  case (Some i)
  then obtain sl where "i < length (slots s)" "slots s ! i = Some sl"
    using shard_inv_index [OF assms] by blast
  with Some show ?thesis
    by (simp add: shard_get_def agree_set_slot)
qed

lemma shard_get_hand: "hand (snd (shard_get s k)) = hand s"
  by (simp add: shard_get_def split: option.splits)

lemma shard_get_inv: "shard_inv s \<Longrightarrow> shard_inv (snd (shard_get s k))"
  by (rule agree_inv [OF same_residents_keys [OF shard_get_agree]])
    (simp_all add: shard_get_hand shard_inv_hand)

lemma shard_get_peek: "shard_inv s \<Longrightarrow> shard_peek (snd (shard_get s k)) k' = shard_peek s k'"
  by (simp add: agree_peek shard_get_agree)

subsection \<open>The CLOCK sweep\<close>

text \<open>
  Each step that does not return clears one reference bit, so the number of set bits
  bounds the steps. The victim is a free slot or one whose bit is clear.
\<close>

definition ref_count :: "shard \<Rightarrow> nat" where
  "ref_count s = length (filter (\<lambda>so. case so of Some sl \<Rightarrow> referenced sl | None \<Rightarrow> False) (slots s))"

definition evictable :: "shard \<Rightarrow> nat \<Rightarrow> bool" where
  "evictable s i \<longleftrightarrow> i < length (slots s)
     \<and> (case slots s ! i of None \<Rightarrow> True | Some sl \<Rightarrow> \<not> referenced sl)"

lemma hand_step: "h < n \<Longrightarrow> Suc h mod n < (n::nat)"
  by (rule mod_less_divisor) simp

lemma ref_count_le: "ref_count s \<le> length (slots s)"
  by (simp add: ref_count_def)

lemma length_filter_list_update:
  "i < length xs \<Longrightarrow> P (xs ! i) \<Longrightarrow> \<not> P y \<Longrightarrow>
     Suc (length (filter P (xs[i := y]))) = length (filter P xs)"
  by (induction xs arbitrary: i) (auto split: nat.splits)

lemma ref_count_clear:
  assumes "i < length (slots s)" and "slots s ! i = Some sl" and "referenced sl"
  shows "Suc (ref_count (s\<lparr>hand := h, slots := (slots s)[i := Some (sl\<lparr>referenced := False\<rparr>)]\<rparr>))
           = ref_count s"
  unfolding ref_count_def using assms
  by (simp add: length_filter_list_update)

lemma evict_loop_agree:
  assumes "hand s < length (slots s)"
  shows "same_residents s (snd (evict_loop n s))
           \<and> hand (snd (evict_loop n s)) < length (slots s)
           \<and> fst (evict_loop n s) < length (slots s)"
  using assms
proof (induction n s rule: evict_loop.induct)
  case (1 n s)
  let ?i = "hand s" and ?s' = "s\<lparr>hand := (hand s + 1) mod length (slots s)\<rparr>"
  have h': "(hand s + 1) mod length (slots s) < length (slots s)"
    using "1.prems" by (simp add: hand_step)
  show ?case
  proof (cases "\<exists>sl. slots s ! ?i = Some sl \<and> referenced sl")
    case False
    then have "evict_loop (Suc n) s = (?i, ?s')"
      by (auto simp: Let_def split: option.splits)
    with "1.prems" h' show ?thesis by (simp add: agree_hand del: evict_loop.simps)
  next
    case True
    then obtain sl where sl: "slots s ! ?i = Some sl" "referenced sl" by blast
    let ?t = "?s'\<lparr>slots := (slots s)[?i := Some (sl\<lparr>referenced := False\<rparr>)]\<rparr>"
    have eq: "evict_loop (Suc n) s = evict_loop n ?t"
      using sl by (simp add: Let_def)
    have "same_residents s ?t"
      using "1.prems" sl by (simp add: agree_def nth_list_update)
    moreover have "same_residents ?t (snd (evict_loop n ?t))
        \<and> hand (snd (evict_loop n ?t)) < length (slots ?t) \<and> fst (evict_loop n ?t) < length (slots ?t)"
      using "1.IH" [OF refl refl sl(1)] sl(2) h' by simp
    ultimately show ?thesis unfolding eq by (auto intro: agree_trans)
  qed
next
  case (2 s)
  then show ?case by simp
qed

lemma evict_loop_stop:
  assumes "\<nexists>sl. slots s ! hand s = Some sl \<and> referenced sl"
  shows "evict_loop (Suc n) s = (hand s, s\<lparr>hand := (hand s + 1) mod length (slots s)\<rparr>)"
  using assms by (auto simp: Let_def split: option.splits)

text \<open>
  With more steps than there are bits to clear, the loop ends at its \<^verbatim>\<open>return\<close>: the hand has
  moved past the slot it chose, and further steps would change nothing.
\<close>

lemma evict_loop_victim:
  assumes "hand s < length (slots s)" and "ref_count s < n"
  shows "evictable (snd (evict_loop n s)) (fst (evict_loop n s))
     \<and> hand (snd (evict_loop n s)) = (fst (evict_loop n s) + 1) mod length (slots s)
     \<and> evict_loop (n + m) s = evict_loop n s"
  using assms
proof (induction n s rule: evict_loop.induct)
  case (1 n s)
  let ?i = "hand s" and ?s' = "s\<lparr>hand := (hand s + 1) mod length (slots s)\<rparr>"
  show ?case
  proof (cases "\<exists>sl. slots s ! ?i = Some sl \<and> referenced sl")
    case False
    with evict_loop_stop [of s] "1.prems" show ?thesis
      by (auto simp: evictable_def simp del: evict_loop.simps split: option.splits)
  next
    case True
    then obtain sl where sl: "slots s ! ?i = Some sl" "referenced sl" by blast
    let ?t = "?s'\<lparr>slots := (slots s)[?i := Some (sl\<lparr>referenced := False\<rparr>)]\<rparr>"
    have eq: "evict_loop (Suc k) s = evict_loop k ?t" for k
      using sl by (simp add: Let_def)
    have "ref_count ?t < n"
      using ref_count_clear [of ?i s sl "(hand s + 1) mod length (slots s)"] "1.prems" sl by simp
    moreover have "hand ?t < length (slots ?t)"
      using "1.prems" by (simp add: hand_step)
    ultimately have "evictable (snd (evict_loop n ?t)) (fst (evict_loop n ?t))
       \<and> hand (snd (evict_loop n ?t)) = (fst (evict_loop n ?t) + 1) mod length (slots ?t)
       \<and> evict_loop (n + m) ?t = evict_loop n ?t"
      using "1.IH" [OF refl refl sl(1)] sl(2) by simp
    then show ?thesis unfolding add_Suc eq by simp
  qed
next
  case (2 s)
  then show ?case by simp
qed

text \<open>The \<^verbatim>\<open>2 * len\<close> steps always suffice: the fall-back after the loop is dead code.\<close>

lemma free_or_evict_victim:
  assumes "shard_inv s" and "slots s \<noteq> []"
  shows "evictable (snd (free_or_evict s)) (fst (free_or_evict s))"
    "hand (snd (free_or_evict s)) = (fst (free_or_evict s) + 1) mod length (slots s)"
    "2 * length (slots s) \<le> n \<Longrightarrow> evict_loop n s = free_or_evict s"
proof -
  have "hand s < length (slots s)" "ref_count s < 2 * length (slots s)"
    using shard_inv_hand [OF assms(1)] assms(2) ref_count_le [of s] by (simp_all add: le_less_trans)
  from evict_loop_victim [OF this, of "n - 2 * length (slots s)"] show
    "evictable (snd (free_or_evict s)) (fst (free_or_evict s))"
    "hand (snd (free_or_evict s)) = (fst (free_or_evict s) + 1) mod length (slots s)"
    "2 * length (slots s) \<le> n \<Longrightarrow> evict_loop n s = free_or_evict s"
    by (simp_all add: free_or_evict_def)
qed

lemma free_or_evict_agree:
  assumes "shard_inv s" and "slots s \<noteq> []"
  shows "same_residents s (snd (free_or_evict s))" "shard_inv (snd (free_or_evict s))"
    "fst (free_or_evict s) < length (slots (snd (free_or_evict s)))"
proof -
  have h: "hand s < length (slots s)" using assms by (simp add: shard_inv_hand)
  note ev = evict_loop_agree [OF h, of "2 * length (slots s)", folded free_or_evict_def]
  then show "same_residents s (snd (free_or_evict s))"
    "fst (free_or_evict s) < length (slots (snd (free_or_evict s)))"
    by (simp_all add: agree_def)
  show "shard_inv (snd (free_or_evict s))"
    using ev by (intro agree_inv [OF same_residents_keys assms(1)]) simp_all
qed

subsection \<open>Insert\<close>

text \<open>Placing a new key in a slot removes the slot's previous key from the index.\<close>

definition place :: "shard \<Rightarrow> nat \<Rightarrow> block_key \<Rightarrow> decoded_block \<Rightarrow> shard" where
  "place s i key block =
     s\<lparr>slots := (slots s)[i := Some \<lparr>slot_key = key, slot_block = block, referenced = True\<rparr>],
       slot_index := (case slots s ! i of
                        Some old \<Rightarrow> (slot_index s)(slot_key old := None)
                      | None \<Rightarrow> slot_index s)(key \<mapsto> i)\<rparr>"

lemma shard_insert_fresh:
  "slots s \<noteq> [] \<Longrightarrow> slot_index s key = None \<Longrightarrow>
     shard_insert s key block = place (snd (free_or_evict s)) (fst (free_or_evict s)) key block"
  by (simp add: shard_insert_def place_def Let_def case_prod_unfold)

lemma place_inv:
  assumes s: "shard_inv s" and i: "i < length (slots s)" and fresh: "slot_index s key = None"
  shows "shard_inv (place s i key block)"
proof -
  let ?t = "place s i key block"
  have "slot_index ?t k = Some j \<longleftrightarrow>
      j < length (slots ?t) \<and> (\<exists>sl. slots ?t ! j = Some sl \<and> slot_key sl = k)" for k j
  proof (cases "k = key")
    case True
    have "\<not> (\<exists>sl. slots s ! j = Some sl \<and> slot_key sl = key)" if "j < length (slots s)"
      using that fresh shard_inv_slot [OF s] by force
    with True i show ?thesis by (auto simp: place_def nth_list_update)
  next
    case False
    have old: "slots s ! i = Some old \<Longrightarrow> slot_index s (slot_key old) = Some i" for old
      using shard_inv_slot [OF s i] by simp
    have "slot_index ?t k = Some j \<longleftrightarrow> slot_index s k = Some j \<and> j \<noteq> i"
    proof (cases "slots s ! i")
      case None
      then have "slot_index s k \<noteq> Some i" using shard_inv_index [OF s, of k i] by simp
      with None False show ?thesis by (auto simp: place_def)
    next
      case (Some o1)
      then have "slot_index s k = Some i \<longleftrightarrow> slot_key o1 = k"
        using shard_inv_index [OF s, of k i] i by simp
      with Some False old show ?thesis by (auto simp: place_def)
    qed
    also have "\<dots> \<longleftrightarrow> j < length (slots ?t) \<and> (\<exists>sl. slots ?t ! j = Some sl \<and> slot_key sl = k)"
      using shard_inv_index [OF s, of k j] False i by (auto simp: place_def nth_list_update)
    finally show ?thesis .
  qed
  then show ?thesis
    using shard_inv_hand [OF s] by (simp add: shard_inv_def place_def)
qed

lemma place_peek:
  assumes s: "shard_inv s" and i: "i < length (slots s)" and fresh: "slot_index s key = None"
  shows "shard_peek (place s i key block) k =
    (if k = key then Some block else if slot_index s k = Some i then None else shard_peek s k)"
proof (cases "k = key")
  case True
  with i show ?thesis by (simp add: shard_peek_def place_def)
next
  case False
  have "slot_index (place s i key block) k = (if slot_index s k = Some i then None else slot_index s k)"
  proof (cases "slots s ! i")
    case None
    then have "slot_index s k \<noteq> Some i" using shard_inv_index [OF s, of k i] by simp
    with None False show ?thesis by (simp add: place_def)
  next
    case (Some o1)
    then have "slot_index s k = Some i \<longleftrightarrow> slot_key o1 = k"
      using shard_inv_index [OF s, of k i] i by simp
    with Some False shard_inv_slot [OF s i] show ?thesis by (auto simp: place_def)
  qed
  with False show ?thesis
    by (auto simp: shard_peek_def place_def nth_list_update split: option.splits)
qed

lemma shard_insert_resident:
  assumes s: "shard_inv s" and k: "slot_index s key = Some i"
  shows "shard_inv (shard_insert s key block)"
    "shard_peek (shard_insert s key block) k' = (if k' = key then Some block else shard_peek s k')"
proof -
  obtain sl where sl: "i < length (slots s)" "slots s ! i = Some sl" "slot_key sl = key"
    using k shard_inv_index [OF s] by blast
  then have ne: "slots s \<noteq> []" by auto
  let ?sl = "sl\<lparr>slot_block := block, referenced := True\<rparr>"
  have eq: "shard_insert s key block = s\<lparr>slots := (slots s)[i := Some ?sl]\<rparr>"
    using k sl ne by (simp add: shard_insert_def)
  show "shard_inv (shard_insert s key block)"
    unfolding eq using sl
    by (intro agree_inv [OF agree_set_slot [OF sl(1,2)] s]) (simp_all add: shard_inv_hand [OF s])
  have "slot_index s k' \<noteq> Some i" if "k' \<noteq> key"
    using that sl shard_inv_index [OF s, of k' i] by auto
  then show "shard_peek (shard_insert s key block) k' = (if k' = key then Some block else shard_peek s k')"
    unfolding eq using k sl by (auto simp: shard_peek_def nth_list_update split: option.splits)
qed

lemma shard_insert_inv:
  assumes "shard_inv s"
  shows "shard_inv (shard_insert s key block)"
proof (cases "slots s = []")
  case True
  with assms show ?thesis by (simp add: shard_insert_def)
next
  case False
  note fe = free_or_evict_agree [OF assms False]
  show ?thesis
  proof (cases "slot_index s key")
    case None
    with fe(1) have "slot_index (snd (free_or_evict s)) key = None" by (simp add: agree_def)
    with None False fe show ?thesis by (simp add: shard_insert_fresh place_inv)
  next
    case (Some i)
    with assms show ?thesis by (rule shard_insert_resident)
  qed
qed

text \<open>
  After an insert the key is resident with its new block; any other key is resident with
  its old block or was evicted.
\<close>

lemma shard_insert_peek:
  assumes "shard_inv s" and ne: "slots s \<noteq> []"
  shows "shard_peek (shard_insert s key block) key = Some block"
    and "k' \<noteq> key \<Longrightarrow>
      shard_peek (shard_insert s key block) k' \<in> {None, shard_peek s k'}"
proof -
  note fe = free_or_evict_agree [OF assms]
  show "shard_peek (shard_insert s key block) key = Some block"
  proof (cases "slot_index s key")
    case None
    with fe(1) have "slot_index (snd (free_or_evict s)) key = None" by (simp add: agree_def)
    with None ne fe show ?thesis by (simp add: shard_insert_fresh place_peek)
  next
    case (Some i)
    with assms(1) show ?thesis by (simp add: shard_insert_resident)
  qed
  show "shard_peek (shard_insert s key block) k' \<in> {None, shard_peek s k'}" if "k' \<noteq> key"
  proof (cases "slot_index s key")
    case None
    with fe(1) have "slot_index (snd (free_or_evict s)) key = None" by (simp add: agree_def)
    with None ne fe that show ?thesis
      by (simp add: shard_insert_fresh place_peek agree_peek [OF fe(1) assms(1)])
  next
    case (Some i)
    with assms(1) that show ?thesis by (simp add: shard_insert_resident)
  qed
qed

lemma shard_insert_disabled: "slots s = [] \<Longrightarrow> shard_insert s key block = s"
  by (simp add: shard_insert_def)

interpretation shard: lossy_cache shard_get shard_insert shard_peek shard_inv
proof unfold_locales
  fix s k v k' w
  assume a: "shard_inv s" "shard_peek (shard_insert s k v) k' = Some w"
  show "if k' = k then w = v else shard_peek s k' = Some w"
  proof (cases "slots s = []")
    case True
    with a have "slot_index s k' = None" using shard_inv_index [OF a(1), of k'] by (cases "slot_index s k'") auto
    with a True show ?thesis by (simp add: shard_insert_disabled shard_peek_def)
  next
    case False
    with a shard_insert_peek(1) [OF a(1) False, of k v]
      shard_insert_peek(2) [OF a(1) False, of k' k v] show ?thesis by auto
  qed
qed (simp_all add: shard_get_fst shard_get_peek shard_get_inv shard_insert_inv)

section \<open>The sharded cache\<close>

record block_cache =
  shards :: "shard list"
  enabled :: bool

definition cache_new :: "usize \<Rightarrow> block_cache" where
  "cache_new capacity_bytes =
     (let total_slots = unat capacity_bytes div ASSUMED_BLOCK_BYTES;
          enabled = (0 < total_slots);
          per_shard = (if enabled then max ((total_slots + SHARDS - 1) div SHARDS) 1 else 0)
      in \<lparr>shards = replicate SHARDS (with_slots per_shard), enabled = enabled\<rparr>)"

definition shard_of :: "block_key \<Rightarrow> nat" where
  "shard_of key =
     (let h = key_run_id key * 0x9E3779B97F4A7C15;
          h = h XOR (ucast (key_block_idx key) * 0xC2B2AE3D27D4EB4F)
      in unat (h AND (of_nat SHARDS - 1)))"

definition cache_get :: "block_cache \<Rightarrow> block_key \<Rightarrow> decoded_block option \<times> block_cache" where
  "cache_get c key =
     (if \<not> enabled c then (None, c)
      else let (r, s) = shard_get (shards c ! shard_of key) key
           in (r, c\<lparr>shards := (shards c)[shard_of key := s]\<rparr>))"

definition cache_insert :: "block_cache \<Rightarrow> block_key \<Rightarrow> decoded_block \<Rightarrow> block_cache" where
  "cache_insert c key block =
     (if \<not> enabled c then c
      else c\<lparr>shards := (shards c)[shard_of key := shard_insert (shards c ! shard_of key) key block]\<rparr>)"

definition cache_inv :: "block_cache \<Rightarrow> bool" where
  "cache_inv c \<longleftrightarrow> length (shards c) = SHARDS \<and> (\<forall>s \<in> set (shards c). shard_inv s)"

definition cache_peek :: "block_cache \<Rightarrow> block_key \<Rightarrow> decoded_block option" where
  "cache_peek c key = (if enabled c then shard_peek (shards c ! shard_of key) key else None)"

text \<open>The mask keeps the shard number in range.\<close>

lemma shard_of_less: "shard_of key < SHARDS"
proof -
  have "unat (h AND 15 :: u64) \<le> unat (15 :: u64)" for h :: u64
    using word_and_le1 [of h 15] by (simp add: word_le_nat_alt)
  then have "unat (h AND 15 :: u64) < 16" for h :: u64
    by (simp add: less_Suc_eq_le [symmetric])
  then show ?thesis by (simp add: shard_of_def SHARDS_def Let_def)
qed

lemma cache_inv_shard: "cache_inv c \<Longrightarrow> shard_inv (shards c ! shard_of key)"
  using shard_of_less [of key] by (simp add: cache_inv_def)

lemma cache_new_inv: "cache_inv (cache_new n)"
  by (auto simp: cache_inv_def cache_new_def Let_def with_slots_inv)

lemma cache_new_empty: "cache_peek (cache_new n) key = None"
  using shard_of_less [of key]
  by (simp add: cache_peek_def cache_new_def Let_def shard_peek_def with_slots_def)

lemma cache_update_inv:
  "cache_inv c \<Longrightarrow> shard_inv s \<Longrightarrow> cache_inv (c\<lparr>shards := (shards c)[i := s]\<rparr>)"
  using set_update_subset_insert [of "shards c" i s] by (auto simp: cache_inv_def)

interpretation cache: lossy_cache cache_get cache_insert cache_peek cache_inv
proof unfold_locales
  fix c k
  assume c: "cache_inv c"
  let ?s = "shards c ! shard_of k"
  have s: "shard_inv ?s" using c by (rule cache_inv_shard)
  have lt: "shard_of k' < length (shards c)" for k'
    using c shard_of_less by (simp add: cache_inv_def)
  show "fst (cache_get c k) = cache_peek c k"
    by (simp add: cache_get_def cache_peek_def case_prod_unfold Let_def shard_get_fst)
  show "cache_peek (snd (cache_get c k)) k' = cache_peek c k'" for k'
    using lt shard_get_peek [OF s, of k k']
    by (auto simp: cache_get_def cache_peek_def case_prod_unfold Let_def nth_list_update)
  show "cache_inv (snd (cache_get c k))"
    using c by (simp add: cache_get_def case_prod_unfold Let_def cache_update_inv shard_get_inv [OF s])
  show "cache_inv (cache_insert c k v)" for v
    using c by (simp add: cache_insert_def cache_update_inv shard_insert_inv [OF s])
  show "if k' = k then w = v else cache_peek c k' = Some w"
    if "cache_peek (cache_insert c k v) k' = Some w" for v k' w
    using that lt shard.insert_sound [OF s, of k v k' w]
    by (auto simp: cache_insert_def cache_peek_def nth_list_update split: if_splits)
qed

text \<open>A new cache is coherent with anything, being empty.\<close>

lemma cache_new_coherent: "cache.coherent good (cache_new n)"
  by (simp add: cache.coherent_def cache_new_inv cache_new_empty)

section \<open>Properties\<close>

text \<open>
  C34: A shard of the cache stays well formed and never lies. Its index always names
  exactly the resident slots; after an insertion the key's block is the one inserted, and
  any other key is either unchanged or evicted.
\<close>

theorem shard_insert_sound:
  assumes "shard_inv s" and "slots s \<noteq> []"
  shows "shard_inv (shard_insert s key block)
     \<and> fst (shard_get (shard_insert s key block) key) = Some block
     \<and> (\<forall>k. k \<noteq> key \<longrightarrow> fst (shard_get (shard_insert s key block) k) \<in> {None, fst (shard_get s k)})"
  using shard_insert_inv [OF assms(1)] shard_insert_peek [OF assms] by (simp add: shard_get_fst)

theorem shard_insert_sound_witness:
  "fst (shard_get (shard_insert (with_slots 1) \<lparr>key_run_id = 3, key_block_idx = 0\<rparr> [([1], Tombstone)])
     \<lparr>key_run_id = 3, key_block_idx = 0\<rparr>) = Some [([1], Tombstone)]"
  using shard_insert_sound [OF with_slots_inv, of 1] by (simp add: with_slots_def)

text \<open>
  C35: The CLOCK sweep ends at its \<^verbatim>\<open>return\<close> within the \<^verbatim>\<open>2 * len\<close> steps the loop is given. The
  slot it returns is free or its reference bit is clear, the hand stands just past it, and
  no number of further steps changes the outcome, so the fall-back after the loop is never
  reached; clearing the bits on the way loses no resident block. With a bound of \<^verbatim>\<open>len\<close> this
  is false: a shard whose bits are all set is given up after one round.
\<close>

theorem sweep_finds_victim:
  assumes "shard_inv s" and "slots s \<noteq> []" and "free_or_evict s = (i, t)"
  shows "i < length (slots t) \<and> (case slots t ! i of None \<Rightarrow> True | Some sl \<Rightarrow> \<not> referenced sl)
     \<and> same_residents s t \<and> hand t = (i + 1) mod length (slots s)
     \<and> (\<forall>n \<ge> 2 * length (slots s). evict_loop n s = (i, t))"
  using free_or_evict_victim [OF assms(1,2)] free_or_evict_agree [OF assms(1,2)] assms(3)
  by (simp add: evictable_def)

text \<open>A shard of two slots, both in use and both with their bit set.\<close>

theorem sweep_finds_victim_witness:
  "\<exists>s t. free_or_evict s = (0, t) \<and> hand t = 1 \<and> length (slots s) = 2 \<and> (\<forall>sl. Some sl \<in> set (slots s) \<longrightarrow> referenced sl)
     \<and> None \<notin> set (slots s)"
proof -
  let ?k = "\<lambda>r. \<lparr>key_run_id = r, key_block_idx = 0\<rparr>"
  define s where "s = shard_insert (shard_insert (with_slots 2) (?k 3) []) (?k 4) []"
  have inv: "shard_inv s" unfolding s_def by (intro shard_insert_inv with_slots_inv)
  have s: "slots s = [Some \<lparr>slot_key = ?k 3, slot_block = [], referenced = True\<rparr>, Some \<lparr>slot_key = ?k 4, slot_block = [], referenced = True\<rparr>]"
    "hand s = 0"
    by (simp_all add: s_def shard_insert_def with_slots_def free_or_evict_def eval_nat_numeral)
  have "fst (free_or_evict s) = 0" by (simp add: free_or_evict_def s Let_def eval_nat_numeral)
  then obtain t where t: "free_or_evict s = (0, t)" by (metis prod.collapse)
  from sweep_finds_victim [OF inv _ t] s have "hand t = 1" by simp
  with t s show ?thesis by (intro exI [of _ s] exI [of _ t]) simp
qed

end
