(* ===== verification/SSTable.thy ===== *)
theory SSTable
  imports SSTable_Writer Cache
begin

text \<open>
  An open, immutable sorted run (src/sstable.rs): opening it from its footer and index,
  the single-block point lookup through the shared block cache, and the cursor that
  streams its entries.

  The file handle of an open run is the bytes of its file: run files are written once,
  under a temporary name, and never modified after the rename, and an unlinked file
  stays readable through the handle.
\<close>

record 'f sstable =
  file_bytes :: bytes
  tbl_path :: string
  tbl_index :: "block_handle list"
  tbl_entry_count :: u64
  tbl_filter :: "'f option"
  tbl_cached :: bool
  run_id :: u64
  obsolete :: bool

definition usize_of :: "u64 \<Rightarrow> nat res" where
  "usize_of n = Inr (unat n)"

definition checked_add_u64 :: "u64 \<Rightarrow> u64 \<Rightarrow> u64 option" where
  "checked_add_u64 a b = (if unat a + unat b < 2 ^ 64 then Some (a + b) else None)"

text \<open>\<^verbatim>\<open>rid\<close> is the id \<^verbatim>\<open>NEXT_RUN_ID.fetch_add(1)\<close> hands out when the open succeeds.\<close>

definition sstable_open :: "'f externals \<Rightarrow> u64 \<Rightarrow> string \<Rightarrow> (error, 'f sstable) fsact" where
  "sstable_open X rid path =
     act_then (act_map_err (io ''open sorted run'') (fs_read path)) (\<lambda>file.
     act_then (act_map_err (io ''stat sorted run'') (fs_call (Inr (length file)))) (\<lambda>file_len.
     if file_len < length MAGIC + FOOTER_SIZE
     then act_err (corruption ''file shorter than header and footer'') else
     act_then (act_map_err (io ''read run footer'')
       (fs_call (pread_exact file FOOTER_SIZE (file_len - FOOTER_SIZE)))) (\<lambda>footer.
     if take 8 (drop 28 footer) \<noteq> MAGIC
     then act_err (corruption ''bad magic; not an lsm-db sorted run'') else
     let entry_count = u64_from_le_bytes (take 8 footer);
         index_offset = u64_from_le_bytes (take 8 (drop 8 footer));
         index_len = u64_from_le_bytes (take 8 (drop 16 footer));
         index_crc = u32_from_le_bytes (take 4 (drop 24 footer)) in
     if unat index_offset < length MAGIC \<or>
        (case checked_add_u64 index_offset index_len of
           None \<Rightarrow> True | Some end \<Rightarrow> end \<noteq> of_nat (file_len - FOOTER_SIZE))
     then act_err (corruption ''index extent inconsistent with file size'') else
     act_then (act_res (usize_of index_len)) (\<lambda>n.
     act_then (act_map_err (io ''read run index'')
       (fs_call (pread_exact file n (unat index_offset)))) (\<lambda>index_bytes.
     if crc32c X index_bytes \<noteq> index_crc
     then act_err (corruption ''index checksum mismatch'') else
     act_then (act_res (parse_index index_bytes)) (\<lambda>index.
     act_ok \<lparr>file_bytes = file, tbl_path = path, tbl_index = index,
             tbl_entry_count = entry_count, tbl_filter = None, tbl_cached = False,
             run_id = rid, obsolete = False\<rparr>))))))"

definition file_name :: "'f sstable \<Rightarrow> string" where
  "file_name t = tbl_path t"

definition entry_count :: "'f sstable \<Rightarrow> u64" where
  "entry_count t = tbl_entry_count t"

definition attach_filter :: "'f sstable \<Rightarrow> 'f option \<Rightarrow> 'f sstable" where
  "attach_filter t fo = t\<lparr>tbl_filter := fo\<rparr>"

definition attach_cache :: "'f sstable \<Rightarrow> 'f sstable" where
  "attach_cache t = t\<lparr>tbl_cached := True\<rparr>"

definition might_contain :: "'f externals \<Rightarrow> 'f sstable \<Rightarrow> bytes \<Rightarrow> bool" where
  "might_contain X t key =
     (case tbl_filter t of None \<Rightarrow> True | Some f \<Rightarrow> filter_might_contain X f key)"

definition mark_obsolete :: "'f sstable \<Rightarrow> 'f sstable" where
  "mark_obsolete t = t\<lparr>obsolete := True\<rparr>"

text \<open>\<^verbatim>\<open>Drop\<close>: the last handle of an obsolete run removes the run and its sidecar, best effort.\<close>

definition sstable_drop :: "'f sstable \<Rightarrow> fs \<Rightarrow> fs" where
  "sstable_drop t d =
     (if obsolete t
      then snd (fs_remove_file (sidecar_path (tbl_path t)) (snd (fs_remove_file (tbl_path t) d)))
      else d)"

section \<open>Point lookup\<close>

definition decode_block_at :: "'f externals \<Rightarrow> 'f sstable \<Rightarrow> nat \<Rightarrow> entry list res" where
  "decode_block_at X t i =
     (let handle = tbl_index t ! i in
      case pread_exact (file_bytes t) (unat (len handle)) (unat (offset handle)) of
        Inl e \<Rightarrow> Inl (io ''read data block'' e)
      | Inr buf \<Rightarrow>
          if crc32c X buf \<noteq> crc handle
          then Inl (corruption ''data block checksum mismatch'')
          else decode_block buf)"

definition read_block :: "'f externals \<Rightarrow> 'f sstable \<Rightarrow> nat \<Rightarrow> entry list res" where
  "read_block X t i = decode_block_at X t i"

definition cached_block ::
    "'f externals \<Rightarrow> 'f sstable \<Rightarrow> nat \<Rightarrow> block_cache \<Rightarrow> entry list res \<times> block_cache" where
  "cached_block X t i cache =
     (let key = \<lparr>key_run_id = run_id t, key_block_idx = of_nat i\<rparr> in
      if tbl_cached t then
        (case cache_get cache key of
           (Some block, cache) \<Rightarrow> (Inr block, cache)
         | (None, cache) \<Rightarrow>
             (case decode_block_at X t i of
                Inl e \<Rightarrow> (Inl e, cache)
              | Inr block \<Rightarrow> (Inr block, cache_insert cache key block)))
      else (decode_block_at X t i, cache))"

text \<open>
  \<^verbatim>\<open>partition_point\<close> on the index, whose last keys \<^verbatim>\<open>parse_index\<close> has checked to be
  strictly increasing: the number of leading blocks that end before the key.
\<close>

definition partition_point :: "('a \<Rightarrow> bool) \<Rightarrow> 'a list \<Rightarrow> nat" where
  "partition_point P xs = length (takeWhile P xs)"

definition find_record :: "entry list \<Rightarrow> bytes \<Rightarrow> record_v option" where
  "find_record block key = map_option snd (find (\<lambda>e. fst e = key) block)"

definition sstable_lookup ::
    "'f externals \<Rightarrow> 'f sstable \<Rightarrow> bytes \<Rightarrow> block_cache \<Rightarrow> record_v option res \<times> block_cache" where
  "sstable_lookup X t key cache =
     (let block_idx = partition_point (\<lambda>h. last_key h < key) (tbl_index t) in
      if length (tbl_index t) \<le> block_idx then (Inr None, cache)
      else case cached_block X t block_idx cache of
             (Inl e, cache) \<Rightarrow> (Inl e, cache)
           | (Inr block, cache) \<Rightarrow> (Inr (find_record block key), cache))"

section \<open>The cursor\<close>

record 'f run_cursor =
  cur_table :: "'f sstable"
  next_block :: nat
  cur_block :: "entry list"
  peeked :: "entry option"
  cur_error :: "error option"

definition cursor_new :: "'f sstable \<Rightarrow> 'f run_cursor" where
  "cursor_new t = \<lparr>cur_table = t, next_block = 0, cur_block = [], peeked = None, cur_error = None\<rparr>"

function cursor_fill_loop :: "'f externals \<Rightarrow> 'f run_cursor \<Rightarrow> 'f run_cursor" where
  "cursor_fill_loop X c =
     (case cur_block c of
        e # rest \<Rightarrow> c\<lparr>cur_block := rest, peeked := Some e\<rparr>
      | [] \<Rightarrow>
          if length (tbl_index (cur_table c)) \<le> next_block c then c
          else (case read_block X (cur_table c) (next_block c) of
                  Inr es \<Rightarrow> cursor_fill_loop X (c\<lparr>next_block := next_block c + 1, cur_block := es\<rparr>)
                | Inl e \<Rightarrow> c\<lparr>cur_error := Some e\<rparr>))"
  by pat_completeness auto
termination
  by (relation "measure (\<lambda>(X, c). length (tbl_index (cur_table c)) - next_block c)") auto

declare cursor_fill_loop.simps [simp del]

definition cursor_fill :: "'f externals \<Rightarrow> 'f run_cursor \<Rightarrow> 'f run_cursor" where
  "cursor_fill X c =
     (if peeked c \<noteq> None \<or> cur_error c \<noteq> None then c else cursor_fill_loop X c)"

definition cursor_peek_key :: "'f externals \<Rightarrow> 'f run_cursor \<Rightarrow> bytes option \<times> 'f run_cursor" where
  "cursor_peek_key X c = (let c = cursor_fill X c in (map_option fst (peeked c), c))"

definition cursor_next_entry :: "'f externals \<Rightarrow> 'f run_cursor \<Rightarrow> entry option \<times> 'f run_cursor" where
  "cursor_next_entry X c = (let c = cursor_fill X c in (peeked c, c\<lparr>peeked := None\<rparr>))"

definition cursor_take_error :: "'f run_cursor \<Rightarrow> error option \<times> 'f run_cursor" where
  "cursor_take_error c = (cur_error c, c\<lparr>cur_error := None\<rparr>)"

section \<open>Reading back a written run\<close>

text \<open>
  \<^verbatim>\<open>readable bss\<close>: blocks the reader accepts. \<^verbatim>\<open>table_of X t bss\<close>: the table \<^verbatim>\<open>t\<close> is
  open on a file whose data blocks are \<^verbatim>\<open>bss\<close>, with the matching index.
\<close>

definition readable :: "entry list list \<Rightarrow> bool" where
  "readable bss \<longleftrightarrow> asc_keys (concat bss) \<and> (\<forall>e \<in> set (concat bss). fits e)
     \<and> (\<forall>b \<in> set bss. b \<noteq> [] \<and> length (enc_block b) < 2 ^ 32)"

definition table_of :: "'f externals \<Rightarrow> 'f sstable \<Rightarrow> entry list list \<Rightarrow> bool" where
  "table_of X t bss \<longleftrightarrow> readable bss \<and> tbl_index t = handles X 8 bss
     \<and> (\<exists>post. file_bytes t = MAGIC @ data_bytes bss @ post)
     \<and> 8 + length (data_bytes bss) < usize_limit"

lemma run_blocks_readable:
  "run_blocks bss \<Longrightarrow> asc_keys (concat bss) \<Longrightarrow> \<forall>e \<in> set (concat bss). fits e \<Longrightarrow> readable bss"
  by (simp add: run_blocks_def readable_def)

lemma handles_nth:
  "i < length bss \<Longrightarrow> handles X off bss ! i =
     \<lparr>last_key = fst (last (bss ! i)), offset = of_nat (off + length (data_bytes (take i bss))),
      len = of_nat (length (enc_block (bss ! i))), crc = crc32c X (enc_block (bss ! i))\<rparr>"
proof (induction bss arbitrary: off i)
  case Nil
  then show ?case by simp
next
  case (Cons b bss)
  then show ?case by (cases i) (simp_all add: add.assoc)
qed

lemma decode_block_at_table:
  assumes t: "table_of X t bss" and i: "i < length bss"
  shows "decode_block_at X t i = Inr (bss ! i)"
proof -
  let ?b = "bss ! i" and ?pre = "data_bytes (take i bss)"
  have split: "data_bytes bss = ?pre @ enc_block ?b @ data_bytes (drop (Suc i) bss)"
  proof -
    have "concat bss = concat (take i bss) @ ?b @ concat (drop (Suc i) bss)"
      using id_take_nth_drop [OF i] by (metis concat.simps(2) concat_append)
    then show ?thesis by simp
  qed
  from t obtain post where img: "file_bytes t = MAGIC @ data_bytes bss @ post"
    and sz: "8 + length (data_bytes bss) < usize_limit" and r: "readable bss"
    by (auto simp: table_of_def)
  have mem: "?b \<in> set bss" using i by simp
  have blen: "length (enc_block ?b) < 2 ^ 32" using r mem by (simp add: readable_def)
  have off: "unat (of_nat (8 + length ?pre) :: u64) = 8 + length ?pre"
    using sz split by (intro unat_of_nat_u64) simp
  have rd: "pread_exact (file_bytes t) (length (enc_block ?b)) (8 + length ?pre) = Inr (enc_block ?b)"
    by (simp add: pread_exact_def img split)
  have "asc_keys ?b"
  proof -
    have "asc_keys (concat (take i bss) @ ?b @ concat (drop (Suc i) bss))"
      using r id_take_nth_drop [OF i] by (metis concat.simps(2) concat_append readable_def)
    then show ?thesis by (simp add: sorted_wrt_append)
  qed
  moreover have "\<forall>e \<in> set ?b. fits e" using r mem by (auto simp: readable_def)
  ultimately have "decode_block (enc_block ?b) = Inr ?b"
    using blen by (intro decode_block_enc) simp_all
  moreover have "tbl_index t ! i = handles X 8 bss ! i" using t by (simp add: table_of_def)
  ultimately show ?thesis
    using off rd blen by (simp add: decode_block_at_def Let_def handles_nth [OF i])
qed

subsection \<open>The footer and index are found again\<close>

lemma footer_fields:
  "take 8 (footer_bytes a b c e) = u64_to_le_bytes a"
  "take 8 (drop 8 (footer_bytes a b c e)) = u64_to_le_bytes b"
  "take 8 (drop 16 (footer_bytes a b c e)) = u64_to_le_bytes c"
  "take 4 (drop 24 (footer_bytes a b c e)) = u32_to_le_bytes e"
  "take 8 (drop 28 (footer_bytes a b c e)) = MAGIC"
  "length (footer_bytes a b c e) = 36"
  by (simp_all add: footer_bytes_def)

lemma readable_Cons:
  assumes "readable (b # bss)"
  shows "readable bss" "b \<noteq> []" "asc_keys b" "\<forall>a \<in> fst ` set b. \<forall>c \<in> fst ` set (concat bss). a < c"
  using assms by (auto simp: readable_def sorted_wrt_append)

lemma last_keys_asc: "readable bss \<Longrightarrow> sorted_wrt (<) (map (\<lambda>b. fst (last b)) bss)"
proof (induction bss)
  case Nil
  then show ?case by simp
next
  case (Cons b bss)
  note rc = readable_Cons [OF Cons.prems]
  have "fst (last b) < fst (last c)" if "c \<in> set bss" for c
  proof -
    have "c \<noteq> []" using rc(1) that by (auto simp: readable_def)
    then have "last c \<in> set (concat bss)" "last b \<in> set b"
      using that rc(2) last_in_set by fastforce+
    with rc(4) show ?thesis by blast
  qed
  with Cons.IH rc(1) show ?case by simp
qed

text \<open>
  Opening a run reads its index and not its blocks: \<^verbatim>\<open>indexable bss\<close> is what it needs of them.
\<close>

definition indexable :: "entry list list \<Rightarrow> bool" where
  "indexable bss \<longleftrightarrow> sorted_wrt (<) (map (\<lambda>b. fst (last b)) bss) \<and> (\<forall>b \<in> set bss. length (fst (last b)) \<le> 2 ^ 30)"

lemma readable_indexable: "readable bss \<Longrightarrow> indexable bss"
proof -
  assume r: "readable bss"
  have "length (fst (last b)) \<le> 2 ^ 30" if "b \<in> set bss" for b
  proof -
    have "last b \<in> set (concat bss)" using r that last_in_set by (fastforce simp: readable_def)
    with r show ?thesis by (auto simp: readable_def fits_def)
  qed
  with last_keys_asc [OF r] show ?thesis by (simp add: indexable_def)
qed

lemma parse_index_handles:
  assumes "indexable bss" and "length (enc_index (handles X off bss)) < usize_limit"
  shows "parse_index (enc_index (handles X off bss)) = Inr (handles X off bss)"
proof (rule parse_index_enc [OF _ _ assms(2)])
  show "sorted_wrt (<) (map last_key (handles X off bss))"
    using assms(1) by (simp add: indexable_def last_key_handles)
  have "last_key ` set (handles X off bss) = (\<lambda>b. fst (last b)) ` set bss"
    using arg_cong [OF last_key_handles [of X off bss], of set] by simp
  moreover have "\<forall>k \<in> (\<lambda>b. fst (last b)) ` set bss. length k \<le> 2 ^ 30" using assms(1) by (auto simp: indexable_def)
  ultimately show "\<forall>h \<in> set (handles X off bss). fits_handle h" unfolding fits_handle_def by (metis image_eqI)
qed

definition opened :: "'f externals \<Rightarrow> u64 \<Rightarrow> string \<Rightarrow> entry list list \<Rightarrow> 'f sstable" where
  "opened X rid path bss =
     \<lparr>file_bytes = run_image X bss, tbl_path = path, tbl_index = handles X 8 bss,
      tbl_entry_count = of_nat (length (concat bss)), tbl_filter = None, tbl_cached = False,
      run_id = rid, obsolete = False\<rparr>"

text \<open>
  The checks of \<^verbatim>\<open>open\<close> on a run image, in the order the code makes them.
\<close>

lemma run_image_checks:
  fixes X :: "'f externals"
  assumes r: "indexable bss" and sz: "length (run_image X bss) < usize_limit"
  defines "img \<equiv> run_image X bss" and "idx \<equiv> enc_index (handles X 8 bss)"
    and "off \<equiv> 8 + length (data_bytes bss)"
  defines "ft \<equiv> footer_bytes (of_nat (length (concat bss))) (of_nat off) (of_nat (length idx)) (crc32c X idx)"
  shows "\<not> length img < length MAGIC + FOOTER_SIZE"
    and "pread_exact img FOOTER_SIZE (length img - FOOTER_SIZE) = Inr ft"
    and "unat (of_nat off :: u64) = off" and "unat (of_nat (length idx) :: u64) = length idx"
    and "checked_add_u64 (of_nat off) (of_nat (length idx)) = Some (of_nat (length img - FOOTER_SIZE))"
    and "pread_exact img (length idx) off = Inr idx"
    and "parse_index idx = Inr (handles X 8 bss)"
proof -
  have img: "img = MAGIC @ data_bytes bss @ idx @ ft"
    by (simp add: img_def run_image_def idx_def off_def ft_def Let_def)
  have lft: "length ft = 36" by (simp add: ft_def footer_fields)
  have limg: "length img = off + length idx + 36" using lft by (simp add: img off_def)
  then have lim: "off + length idx < usize_limit" using sz by (simp add: img_def)
  show "\<not> length img < length MAGIC + FOOTER_SIZE" using limg by (simp add: FOOTER_SIZE_def off_def)
  show "pread_exact img FOOTER_SIZE (length img - FOOTER_SIZE) = Inr ft"
    using lft by (simp add: pread_exact_def img FOOTER_SIZE_def)
  show u1: "unat (of_nat off :: u64) = off" and u2: "unat (of_nat (length idx) :: u64) = length idx"
    using lim by (intro unat_of_nat_u64; linarith)+
  show "checked_add_u64 (of_nat off) (of_nat (length idx)) = Some (of_nat (length img - FOOTER_SIZE))"
    using lim u1 u2 limg by (simp add: checked_add_u64_def FOOTER_SIZE_def)
  show "pread_exact img (length idx) off = Inr idx"
    by (simp add: pread_exact_def img off_def)
  show "parse_index idx = Inr (handles X 8 bss)"
    unfolding idx_def using lim by (intro parse_index_handles [OF r]) (simp add: idx_def)
qed

lemma sstable_open_image:
  assumes "fs_lookup d path = Some f" and "fdata f = run_image X bss"
    and r: "indexable bss" and sz: "length (run_image X bss) < usize_limit"
    and op: "sstable_open X rid path d = (Inr t, d')"
  shows "t = opened X rid path bss"
proof -
  note ck = run_image_checks [OF r sz]
  from op obtain bs d1 where rd: "fs_read path d = (Inr bs, d1)"
    unfolding sstable_open_def by (auto elim!: act_then_InrE simp: act_map_err_Inr_iff)
  with assms(1,2) have bs: "bs = run_image X bss" by (auto dest: fs_read_ok)
  show ?thesis
    using op rd ck unfolding sstable_open_def opened_def bs
    by (auto elim!: act_then_InrE dest!: fs_call_ok
        simp: act_map_err_Inr_iff Let_def footer_fields usize_of_def split: if_splits)
qed

lemma fault_free_reads:
  assumes "fault_free d" and "fs_lookup d path = Some f"
  shows "\<exists>d'. fs_read path d = (Inr (fdata f), d') \<and> fault_free d'"
    and "\<exists>d'. fs_call (Inr x) d = (Inr x, d') \<and> fault_free d'"
  using assms by (auto simp: fs_read_def fs_call_def fault_free_def)

lemma fs_call_fault_free: "fault_free d \<Longrightarrow> fs_call r d = (r, tick d)"
  by (simp add: fs_call_def)

lemma sstable_open_total:
  assumes ff: "fault_free d" and f: "fs_lookup d path = Some f" "fdata f = run_image X bss"
    and r: "indexable bss" and sz: "length (run_image X bss) < usize_limit"
  shows "\<exists>d'. sstable_open X rid path d = (Inr (opened X rid path bss), d') \<and> fault_free d'"
proof -
  note ck = run_image_checks [OF r sz]
  have "fs_read path d = (Inr (run_image X bss), tick d)"
    using ff f by (simp add: fs_read_def)
  then show ?thesis
    using ck ff
    by (simp add: sstable_open_def act_then_def act_map_err_def fs_call_fault_free Let_def
        footer_fields usize_of_def opened_def)
qed

lemma sstable_open_keeps: "act_keeps (touches (\<lambda>n. False)) (sstable_open X rid path)"
  unfolding sstable_open_def Let_def by (auto intro!: act_keeps_intros fs_keeps)

lemma table_of_opened:
  assumes "readable bss" and "length (run_image X bss) < usize_limit"
  shows "table_of X (opened X rid path bss) bss"
  using assms by (auto simp: table_of_def opened_def run_image_def Let_def)

text \<open>Only the bytes and the index matter for reading; filter, cache and marks do not.\<close>

lemma table_of_cong:
  "tbl_index t = tbl_index t' \<Longrightarrow> file_bytes t = file_bytes t' \<Longrightarrow> table_of X t bss = table_of X t' bss"
  by (simp add: table_of_def)

lemma table_of_attach [simp]:
  "table_of X (attach_filter t fo) bss = table_of X t bss"
  "table_of X (attach_cache t) bss = table_of X t bss"
  "table_of X (mark_obsolete t) bss = table_of X t bss"
  by (rule table_of_cong; simp add: attach_filter_def attach_cache_def mark_obsolete_def)+

section \<open>Lookup is lookup in the run's entries\<close>

lemma find_record_map_of: "find_record b k = map_of b k"
  by (induction b) (auto simp: find_record_def)

lemma partition_point_handles:
  "partition_point (\<lambda>h. last_key h < k) (handles X off bss) = length (takeWhile (\<lambda>b. fst (last b) < k) bss)"
  by (induction bss arbitrary: off) (auto simp: partition_point_def)

text \<open>The one block the index selects is the only one that can hold the key.\<close>

lemma candidate_block:
  assumes "readable bss"
  shows "map_of (concat bss) k =
     (let i = length (takeWhile (\<lambda>b. fst (last b) < k) bss) in
      if i < length bss then map_of (bss ! i) k else None)"
  using assms
proof (induction bss)
  case Nil
  then show ?case by simp
next
  case (Cons b bss)
  note rc = readable_Cons [OF Cons.prems]
  have lb: "last b \<in> set b" using rc(2) by simp
  show ?case
  proof (cases "fst (last b) < k")
    case True
    have "a \<le> fst (last b)" if "a \<in> fst ` set b" for a
    proof -
      have "b = butlast b @ [last b]" using rc(2) by simp
      then have "asc_keys (butlast b @ [last b])" using rc(3) by simp
      then have "\<forall>x \<in> set (butlast b). fst x < fst (last b)" by (auto simp: sorted_wrt_append)
      moreover have "set b = insert (last b) (set (butlast b))"
        using \<open>b = butlast b @ [last b]\<close> by (metis Un_insert_right list.simps(15) set_append empty_set sup_bot_right)
      ultimately show ?thesis using that by auto
    qed
    with True have "map_of b k = None" by (force simp: map_of_eq_None_iff)
    with True Cons.IH [OF rc(1)] show ?thesis by (simp add: map_add_def Let_def split: option.splits)
  next
    case False
    then have "map_of (concat bss) k = None"
      using rc(4) lb by (force simp: map_of_eq_None_iff)
    with False show ?thesis by (simp add: map_add_def split: option.splits)
  qed
qed

subsection \<open>Through the cache\<close>

text \<open>
  A cached block is right for a table when it is what that table's file decodes to at
  the index it is cached under. The key narrows the block number to 32 bits, so this
  speaks of indexes that agree modulo \<^verbatim>\<open>2 ^ 32\<close>. Blocks are only cached for runs whose
  id has been handed out, so a run opened later finds nothing cached under its id.
\<close>

definition block_of :: "'f externals \<Rightarrow> 'f sstable set \<Rightarrow> u64 \<Rightarrow> block_key \<Rightarrow> entry list \<Rightarrow> bool" where
  "block_of X T n key b \<longleftrightarrow> key_run_id key < n \<and> (\<forall>t \<in> T. run_id t = key_run_id key \<longrightarrow>
     (\<forall>i < length (tbl_index t). of_nat i = key_block_idx key \<longrightarrow> decode_block_at X t i = Inr b))"

abbreviation cache_coherent :: "'f externals \<Rightarrow> 'f sstable set \<Rightarrow> u64 \<Rightarrow> block_cache \<Rightarrow> bool" where
  "cache_coherent X T n c \<equiv> cache.coherent (block_of X T n) c"

text \<open>Run ids identify files: two tables with one id are handles on one file.\<close>

definition ids_unique :: "'f sstable set \<Rightarrow> u64 \<Rightarrow> bool" where
  "ids_unique T n \<longleftrightarrow> (\<forall>t \<in> T. run_id t < n \<and> (\<forall>t' \<in> T. run_id t = run_id t' \<longrightarrow>
     file_bytes t = file_bytes t' \<and> tbl_index t = tbl_index t'))"

lemma decode_block_at_cong:
  "file_bytes t = file_bytes t' \<Longrightarrow> tbl_index t = tbl_index t' \<Longrightarrow>
     decode_block_at X t i = decode_block_at X t' i"
  by (simp add: decode_block_at_def)

lemma cached_block_correct:
  assumes c: "cache_coherent X T n c" and T: "t \<in> T" "ids_unique T n"
    and i: "i < length (tbl_index t)" and sz: "length (tbl_index t) \<le> 2 ^ 32"
  shows "fst (cached_block X t i c) = decode_block_at X t i
     \<and> cache_coherent X T n (snd (cached_block X t i c))"
proof -
  let ?key = "\<lparr>key_run_id = run_id t, key_block_idx = of_nat i\<rparr>"
  have c1: "cache_coherent X T n (snd (cache_get c ?key))" using c by (rule cache.coherent_get)
  have idx: "j = i" if "j < length (tbl_index t)" "(of_nat j :: u32) = of_nat i" for j
  proof -
    have "j < 2 ^ 32" "i < 2 ^ 32" using that(1) i sz by linarith+
    with that(2) show ?thesis by (metis unat_of_nat_u32)
  qed
  show ?thesis
  proof (cases "fst (cache_get c ?key)")
    case (Some b)
    from cache.coherent_hit [OF c Some] have "decode_block_at X t i = Inr b"
      using T(1) i by (simp add: block_of_def)
    with Some c c1 show ?thesis
      by (auto simp: cached_block_def Let_def split: prod.splits)
  next
    case None
    have ins: "cache_coherent X T n (cache_insert (snd (cache_get c ?key)) ?key b)"
      if b: "decode_block_at X t i = Inr b" for b
    proof (rule cache.coherent_insert [OF c1])
      have "run_id t < n" using T unfolding ids_unique_def by blast
      moreover have "decode_block_at X t' j = Inr b"
        if t': "t' \<in> T" "run_id t' = run_id t" and j: "j < length (tbl_index t')" "of_nat j = (of_nat i :: u32)"
        for t' j
      proof -
        from T t' have same: "file_bytes t' = file_bytes t" "tbl_index t' = tbl_index t"
          unfolding ids_unique_def by blast+
        with j idx [of j] have "j = i" by simp
        with b same show ?thesis by (metis decode_block_at_cong)
      qed
      ultimately show "block_of X T n ?key b" by (simp add: block_of_def)
    qed
    show ?thesis
      using None c c1 ins
      by (auto simp: cached_block_def Let_def split: prod.splits sum.splits)
  qed
qed

lemma sstable_lookup_correct:
  assumes t: "table_of X t bss" and c: "cache_coherent X T n c" and T: "t \<in> T" "ids_unique T n"
    and sz: "length bss \<le> 2 ^ 32"
  shows "fst (sstable_lookup X t k c) = Inr (map_of (concat bss) k)
     \<and> cache_coherent X T n (snd (sstable_lookup X t k c))"
proof -
  let ?i = "length (takeWhile (\<lambda>b. fst (last b) < k) bss)"
  have ix: "tbl_index t = handles X 8 bss" and r: "readable bss" using t by (auto simp: table_of_def)
  note cand = candidate_block [OF r, of k, unfolded Let_def]
  show ?thesis
  proof (cases "?i < length bss")
    case False
    with cand c show ?thesis
      by (simp add: sstable_lookup_def ix partition_point_handles)
  next
    case True
    note cb = cached_block_correct [OF c T, of ?i] and db = decode_block_at_table [OF t True]
    have "fst (cached_block X t ?i c) = Inr (bss ! ?i)"
      "cache_coherent X T n (snd (cached_block X t ?i c))"
      using cb True sz by (simp_all add: ix db)
    with True cand show ?thesis
      by (auto simp: sstable_lookup_def ix partition_point_handles find_record_map_of Let_def
          split: prod.splits sum.splits)
  qed
qed

text \<open>Opening one more run under the next id, and dropping runs, keep the cache coherent.\<close>

lemma cache_coherent_add:
  assumes "cache_coherent X T n c" and "run_id t = n" and "n + 1 \<noteq> 0"
  shows "cache_coherent X (insert t T) (n + 1) c"
proof (rule cache.coherent_mono [OF assms(1)])
  fix key b assume b: "block_of X T n key b"
  then have lt: "key_run_id key < n" by (simp add: block_of_def)
  have "n < n + 1" using assms(3) by (rule less_succ_u64)
  with lt have "key_run_id key < n + 1" by (rule order.strict_trans)
  moreover have "run_id t \<noteq> key_run_id key" using lt assms(2) by auto
  ultimately show "block_of X (insert t T) (n + 1) key b" using b by (simp add: block_of_def)
qed

lemma cache_coherent_subset:
  "cache_coherent X T n c \<Longrightarrow> T' \<subseteq> T \<Longrightarrow> cache_coherent X T' n c"
  by (erule cache.coherent_mono) (auto simp: block_of_def)

end
