(* ===== verification/Entry_Stream.thy ===== *)
theory Entry_Stream
  imports SSTable
begin

text \<open>
  The contract a merge needs of its inputs: a stream of entries that can be peeked,
  advanced and asked for the error that stopped it. \<^verbatim>\<open>entry_source\<close> holds the laws that
  bound the work, \<^verbatim>\<open>entry_stream\<close> adds what an input in a consistent state promises about
  errors. The run cursor of src/sstable.rs is interpreted as such a stream: its view is
  the concatenation of the blocks it has not handed out yet, up to the first one that
  fails to read or decode.
\<close>

locale entry_source =
  fixes peek :: "'s \<Rightarrow> bytes option \<times> 's"
    and take_next :: "'s \<Rightarrow> entry option \<times> 's"
    and take_error :: "'s \<Rightarrow> error option \<times> 's"
    and view :: "'s \<Rightarrow> entry list"
  assumes view_peek: "view (snd (peek s)) = view s"
    and view_take_error: "view (snd (take_error s)) = view s"
    and view_next: "view s = (case fst (take_next s) of None \<Rightarrow> [] | Some e \<Rightarrow> [e]) @ view (snd (take_next s))"
    and next_peeked: "map_option fst (fst (take_next s)) = fst (peek s)"
    and peek_peek: "fst (peek (snd (peek s))) = fst (peek s)"
begin

lemma peek_Some: "fst (peek s) = Some k \<Longrightarrow> \<exists>r rest. view s = (k, r) # rest
    \<and> fst (take_next s) = Some (k, r) \<and> view (snd (take_next s)) = rest"
  using view_next [of s] next_peeked [of s] by (cases "fst (take_next s)") auto

end

locale entry_stream = entry_source +
  fixes fault :: "'s \<Rightarrow> error option"
    and inv :: "'s \<Rightarrow> bool"
  assumes inv_peek: "inv s \<Longrightarrow> inv (snd (peek s))"
    and inv_next: "inv s \<Longrightarrow> inv (snd (take_next s))"
    and inv_take_error: "inv s \<Longrightarrow> inv (snd (take_error s))"
    and fault_peek: "fault (snd (peek s)) = fault s"
    and fault_next: "fault (snd (take_next s)) = fault s"
    and fault_take_error: "fault (snd (take_error s)) = fault s"
    and peek_None: "inv s \<Longrightarrow> fst (peek s) = None \<Longrightarrow> view s = []"
    and error_peeked: "inv s \<Longrightarrow> fst (take_error (snd (peek s))) = (if view s = [] then fault s else None)"
begin

lemma peek_view:
  assumes "inv s"
  shows "fst (peek s) = (case view s of [] \<Rightarrow> None | e # es \<Rightarrow> Some (fst e))"
proof (cases "fst (peek s)")
  case None
  with assms peek_None show ?thesis by simp
next
  case (Some k)
  with peek_Some [OF this] show ?thesis by auto
qed

end

section \<open>The run cursor\<close>

function blocks_view :: "'f externals \<Rightarrow> 'f sstable \<Rightarrow> nat \<Rightarrow> entry list \<times> error option" where
  "blocks_view X t i =
     (if length (tbl_index t) \<le> i then ([], None)
      else case read_block X t i of
             Inl e \<Rightarrow> ([], Some e)
           | Inr es \<Rightarrow> (es @ fst (blocks_view X t (i + 1)), snd (blocks_view X t (i + 1))))"
  by pat_completeness auto
termination
  by (relation "measure (\<lambda>(X, t, i). length (tbl_index t) - i)") auto

declare blocks_view.simps [simp del]

definition cursor_view :: "'f externals \<Rightarrow> 'f run_cursor \<Rightarrow> entry list" where
  "cursor_view X c = (case peeked c of None \<Rightarrow> [] | Some e \<Rightarrow> [e]) @ cur_block c
     @ fst (blocks_view X (cur_table c) (next_block c))"

definition cursor_fault :: "'f externals \<Rightarrow> 'f run_cursor \<Rightarrow> error option" where
  "cursor_fault X c = snd (blocks_view X (cur_table c) (next_block c))"

text \<open>A pending error is the one the next block still produces, with nothing buffered before it.\<close>

definition cursor_inv :: "'f externals \<Rightarrow> 'f run_cursor \<Rightarrow> bool" where
  "cursor_inv X c \<longleftrightarrow> (\<forall>e. cur_error c = Some e \<longrightarrow> peeked c = None \<and> cur_block c = []
     \<and> next_block c < length (tbl_index (cur_table c))
     \<and> read_block X (cur_table c) (next_block c) = Inl e)"

lemma cursor_inv_new: "cursor_inv X (cursor_new t)"
  by (simp add: cursor_inv_def cursor_new_def)

definition settled :: "'f externals \<Rightarrow> 'f run_cursor \<Rightarrow> 'f run_cursor \<Rightarrow> bool" where
  "settled X c c' \<longleftrightarrow> cursor_view X c' = cursor_view X c \<and> cursor_fault X c' = cursor_fault X c
     \<and> cursor_inv X c' \<and> (if peeked c' = None then cursor_view X c = [] \<and> cur_error c' = cursor_fault X c
                          else cur_error c' = None)"

lemma fill_loop_settled:
  "peeked c = None \<Longrightarrow> cur_error c = None \<Longrightarrow> settled X c (cursor_fill_loop X c)"
proof (induction X c rule: cursor_fill_loop.induct)
  case (1 X c)
  note step = cursor_fill_loop.simps [of X c] and bv = blocks_view.simps [of X "cur_table c" "next_block c"]
  show ?case
  proof (cases "cur_block c")
    case (Cons e rest)
    with "1.prems" show ?thesis
      by (simp add: step settled_def cursor_view_def cursor_fault_def cursor_inv_def)
  next
    case Nil
    show ?thesis
    proof (cases "length (tbl_index (cur_table c)) \<le> next_block c")
      case True
      with Nil "1.prems" bv show ?thesis
        by (simp add: step settled_def cursor_view_def cursor_fault_def cursor_inv_def)
    next
      case False
      show ?thesis
      proof (cases "read_block X (cur_table c) (next_block c)")
        case (Inl e)
        with Nil False "1.prems" bv show ?thesis
          by (simp add: step settled_def cursor_view_def cursor_fault_def cursor_inv_def)
      next
        case (Inr es)
        let ?c = "c\<lparr>next_block := next_block c + 1, cur_block := es\<rparr>"
        have "settled X ?c (cursor_fill_loop X ?c)"
          using "1.IH" [OF Nil False Inr] "1.prems" by simp
        moreover have "cursor_fill_loop X c = cursor_fill_loop X ?c"
          using Nil False Inr by (simp add: step)
        moreover have "cursor_view X ?c = cursor_view X c" "cursor_fault X ?c = cursor_fault X c"
          using Nil False Inr "1.prems" bv by (simp_all add: cursor_view_def cursor_fault_def)
        ultimately show ?thesis unfolding settled_def by metis
      qed
    qed
  qed
qed

lemma fill_facts:
  shows "cursor_view X (cursor_fill X c) = cursor_view X c"
    and "cursor_fault X (cursor_fill X c) = cursor_fault X c"
    and "cursor_inv X c \<Longrightarrow> cursor_inv X (cursor_fill X c)"
  by (cases "peeked c"; cases "cur_error c"; use fill_loop_settled [of c X] in
      \<open>simp add: cursor_fill_def settled_def\<close>)+

lemma fill_loop_twice:
  "peeked c = None \<Longrightarrow> cur_error c = None \<Longrightarrow>
     cursor_fill X (cursor_fill_loop X c) = cursor_fill_loop X c"
proof (induction X c rule: cursor_fill_loop.induct)
  case (1 X c)
  note step = cursor_fill_loop.simps [of X c]
  show ?case
  proof (cases "cur_block c = [] \<and> next_block c < length (tbl_index (cur_table c))")
    case True
    show ?thesis
    proof (cases "read_block X (cur_table c) (next_block c)")
      case (Inl e)
      with True show ?thesis by (simp add: step cursor_fill_def)
    next
      case (Inr es)
      with True "1.IH" "1.prems" show ?thesis by (simp add: step)
    qed
  next
    case False
    with "1.prems" show ?thesis
      by (cases "cur_block c") (simp_all add: step cursor_fill_def)
  qed
qed

lemma fill_twice: "cursor_fill X (cursor_fill X c) = cursor_fill X c"
  by (cases "peeked c"; cases "cur_error c"; use fill_loop_twice [of c X] in
      \<open>simp add: cursor_fill_def\<close>)

lemma fill_settled:
  assumes "cursor_inv X c"
  shows "peeked (cursor_fill X c) = None \<Longrightarrow>
           cursor_view X c = [] \<and> cur_error (cursor_fill X c) = cursor_fault X c"
    and "peeked (cursor_fill X c) \<noteq> None \<Longrightarrow> cur_error (cursor_fill X c) = None"
proof -
  have stuck: "cursor_view X c = [] \<and> cursor_fault X c = Some e" if "cur_error c = Some e" for e
    using assms that blocks_view.simps [of X "cur_table c" "next_block c"]
    by (auto simp: cursor_inv_def cursor_view_def cursor_fault_def)
  have sl: "settled X c (cursor_fill_loop X c)" if "peeked c = None" "cur_error c = None"
    using that by (rule fill_loop_settled)
  show "cursor_view X c = [] \<and> cur_error (cursor_fill X c) = cursor_fault X c"
    if p: "peeked (cursor_fill X c) = None"
  proof (cases "cur_error c")
    case (Some e)
    with stuck show ?thesis by (simp add: cursor_fill_def)
  next
    case None
    with p have "peeked c = None" by (cases "peeked c") (simp_all add: cursor_fill_def)
    with None p sl show ?thesis by (simp add: cursor_fill_def settled_def)
  qed
  show "cur_error (cursor_fill X c) = None" if p: "peeked (cursor_fill X c) \<noteq> None"
  proof (cases "peeked c = None \<and> cur_error c = None")
    case True
    with p sl show ?thesis by (simp add: cursor_fill_def settled_def)
  next
    case False
    with p assms show ?thesis by (cases "cur_error c") (auto simp: cursor_fill_def cursor_inv_def)
  qed
qed

interpretation cursor: entry_stream "cursor_peek_key X" "cursor_next_entry X" cursor_take_error
  "cursor_view X" "cursor_fault X" "cursor_inv X" for X :: "'f externals"
proof
  fix s :: "'f run_cursor"
  note ops = cursor_peek_key_def cursor_next_entry_def cursor_take_error_def Let_def
  have drop_peeked: "cursor_view X c = (case peeked c of None \<Rightarrow> [] | Some e \<Rightarrow> [e])
      @ cursor_view X (c\<lparr>peeked := None\<rparr>)" for c
    by (simp add: cursor_view_def split: option.splits)
  show "cursor_view X (snd (cursor_peek_key X s)) = cursor_view X s"
    by (simp add: ops fill_facts)
  show "cursor_view X (snd (cursor_take_error s)) = cursor_view X s"
    by (simp add: ops cursor_view_def)
  show "cursor_view X s = (case fst (cursor_next_entry X s) of None \<Rightarrow> [] | Some e \<Rightarrow> [e])
      @ cursor_view X (snd (cursor_next_entry X s))"
    using drop_peeked [of "cursor_fill X s"] by (simp add: ops fill_facts)
  show "map_option fst (fst (cursor_next_entry X s)) = fst (cursor_peek_key X s)"
    by (simp add: ops)
  show "fst (cursor_peek_key X (snd (cursor_peek_key X s))) = fst (cursor_peek_key X s)"
    by (simp add: ops fill_twice)
  show "cursor_fault X (snd (cursor_peek_key X s)) = cursor_fault X s"
    by (simp add: ops fill_facts)
  show "cursor_fault X (snd (cursor_next_entry X s)) = cursor_fault X s"
    using fill_facts(2) [of X s] by (simp add: ops cursor_fault_def)
  show "cursor_fault X (snd (cursor_take_error s)) = cursor_fault X s"
    by (simp add: ops cursor_fault_def)
  assume inv: "cursor_inv X s"
  show "cursor_inv X (snd (cursor_peek_key X s))"
    using inv by (simp add: ops fill_facts)
  show "cursor_inv X (snd (cursor_next_entry X s))"
    using fill_facts(3) [OF inv] by (simp add: ops cursor_inv_def)
  show "cursor_inv X (snd (cursor_take_error s))"
    using inv by (simp add: ops cursor_inv_def)
  show "cursor_view X s = []" if "fst (cursor_peek_key X s) = None"
    using fill_settled(1) [OF inv] that by (simp add: ops)
  have "cursor_view X s \<noteq> []" if "peeked (cursor_fill X s) \<noteq> None"
    using that drop_peeked [of "cursor_fill X s"] by (auto simp: fill_facts)
  then show "fst (cursor_take_error (snd (cursor_peek_key X s)))
      = (if cursor_view X s = [] then cursor_fault X s else None)"
    using fill_settled [OF inv] by (cases "peeked (cursor_fill X s)") (auto simp: ops)
qed

text \<open>Over a table whose blocks are \<^verbatim>\<open>bss\<close>, the cursor yields all of them and no error.\<close>

lemma blocks_view_table:
  assumes t: "table_of X t bss" and "i \<le> length bss"
  shows "blocks_view X t i = (concat (drop i bss), None)"
  using assms(2)
proof (induction rule: inc_induct)
  case base
  have "length (tbl_index t) = length bss" using t by (simp add: table_of_def)
  then show ?case by (simp add: blocks_view.simps)
next
  case (step n)
  have "length (tbl_index t) = length bss" using t by (simp add: table_of_def)
  with step decode_block_at_table [OF t step.hyps(2)] show ?case
    by (subst blocks_view.simps) (simp add: read_block_def Cons_nth_drop_Suc [symmetric])
qed

lemma cursor_view_table:
  assumes "table_of X t bss"
  shows "cursor_view X (cursor_new t) = concat bss" "cursor_fault X (cursor_new t) = None"
  using blocks_view_table [OF assms, of 0] by (simp_all add: cursor_view_def cursor_fault_def cursor_new_def)

end
