(* ===== verification/Merge.thy ===== *)
theory Merge
  imports Entry_Stream
begin

text \<open>
  The merge of the memtable snapshot and the runs (src/merge.rs). The loops of
  \<^verbatim>\<open>Merge::next\<close> over the sources are stated for any stream type and reasoned about once
  in the stream locales; the merge itself runs them on \<^verbatim>\<open>source\<close>, the memtable snapshot
  or a run cursor. The specification is \<^verbatim>\<open>resolve\<close>: for each key the first source that
  mentions it decides, and a tombstone there makes the key absent.
\<close>

datatype 'f source = Mem "entry list" | Run "'f run_cursor"

fun source_peek_key :: "'f externals \<Rightarrow> 'f source \<Rightarrow> bytes option \<times> 'f source" where
  "source_peek_key X (Mem es) = (case es of [] \<Rightarrow> None | e # rest \<Rightarrow> Some (fst e), Mem es)"
| "source_peek_key X (Run cur) = map_prod id Run (cursor_peek_key X cur)"

fun source_next_entry :: "'f externals \<Rightarrow> 'f source \<Rightarrow> entry option \<times> 'f source" where
  "source_next_entry X (Mem es) = (case es of [] \<Rightarrow> (None, Mem []) | e # rest \<Rightarrow> (Some e, Mem rest))"
| "source_next_entry X (Run cur) = map_prod id Run (cursor_next_entry X cur)"

fun source_take_error :: "'f source \<Rightarrow> error option \<times> 'f source" where
  "source_take_error (Mem es) = (None, Mem es)"
| "source_take_error (Run cur) = map_prod id Run (cursor_take_error cur)"

definition merge_new :: "entry list \<Rightarrow> 'f run_cursor list \<Rightarrow> 'f source list" where
  "merge_new mem runs = Mem mem # map Run runs"

section \<open>The loops over the sources\<close>

definition peek_all :: "('s \<Rightarrow> bytes option \<times> 's) \<Rightarrow> 's list \<Rightarrow> 's list" where
  "peek_all peek sources = map (\<lambda>s. snd (peek s)) sources"

fun first_error :: "('s \<Rightarrow> error option \<times> 's) \<Rightarrow> 's list \<Rightarrow> error option \<times> 's list" where
  "first_error take_error [] = (None, [])"
| "first_error take_error (s # sources) =
     (case take_error s of
        (Some err, s) \<Rightarrow> (Some err, s # sources)
      | (None, s) \<Rightarrow> map_prod id (\<lambda>sources. s # sources) (first_error take_error sources))"

definition min_key :: "('s \<Rightarrow> bytes option \<times> 's) \<Rightarrow> 's list \<Rightarrow> bytes option \<times> 's list" where
  "min_key peek sources =
     (let keys = List.map_filter (\<lambda>s. fst (peek s)) sources in
      (if keys = [] then None else Some (Min (set keys)), peek_all peek sources))"

fun take_min :: "('s \<Rightarrow> bytes option \<times> 's) \<Rightarrow> ('s \<Rightarrow> entry option \<times> 's) \<Rightarrow>
    bytes \<Rightarrow> record_v option \<Rightarrow> 's list \<Rightarrow> record_v option \<times> 's list" where
  "take_min peek take_next m chosen [] = (chosen, [])"
| "take_min peek take_next m chosen (s # sources) =
     (case peek s of (k, s) \<Rightarrow>
      if k = Some m then
        (case take_next s of (e, s) \<Rightarrow>
           map_prod id (\<lambda>sources. s # sources)
             (take_min peek take_next m
                (case e of Some (_, record) \<Rightarrow> (if chosen = None then Some record else chosen)
                         | None \<Rightarrow> chosen) sources))
      else map_prod id (\<lambda>sources. s # sources) (take_min peek take_next m chosen sources))"

section \<open>What the sources say of a key\<close>

fun newest :: "entry list list \<Rightarrow> bytes \<Rightarrow> record_v option" where
  "newest [] k = None"
| "newest (es # ess) k = (case map_of es k of None \<Rightarrow> newest ess k | Some r \<Rightarrow> Some r)"

definition resolve :: "entry list list \<Rightarrow> bytes \<Rightarrow> bytes option" where
  "resolve ess k = Option.bind (newest ess k) visible"

lemma newest_append: "newest (xs @ ys) k = (case newest xs k of None \<Rightarrow> newest ys k | Some r \<Rightarrow> Some r)"
  by (induction xs) (auto split: option.splits)

lemma newest_empty: "\<forall>es \<in> set ess. es = [] \<Longrightarrow> newest ess k = None"
  by (induction ess) auto

lemma newest_remove:
  "newest (map (filter (\<lambda>e. fst e \<noteq> m)) ess) k = (if k = m then None else newest ess k)"
proof (induction ess)
  case (Cons es ess)
  have "map_of (filter (\<lambda>e. fst e \<noteq> m) es) k = (if k = m then None else map_of es k)"
    by (induction es) auto
  with Cons show ?case by (cases "k = m") (auto split: option.splits)
qed simp

text \<open>The least key of ascending lists is at the head of every list that has it.\<close>

lemma filter_least:
  assumes "asc_keys es" and "\<forall>e \<in> set es. (m::'k::linorder) \<le> fst e"
  shows "filter (\<lambda>e. fst e \<noteq> m) es = (case es of [] \<Rightarrow> [] | e # rest \<Rightarrow> if fst e = m then rest else es)"
proof (cases es)
  case (Cons e rest)
  with assms(1) have "\<forall>x \<in> set rest. fst e < fst x" by simp
  with Cons assms(2) have "\<forall>x \<in> set rest. fst x \<noteq> m" by (metis leD list.set_intros(1))
  then have "filter (\<lambda>e. fst e \<noteq> m) rest = rest" by (simp add: filter_id_conv)
  with Cons show ?thesis by simp
qed simp

context entry_source
begin

definition weight :: "'s list \<Rightarrow> nat" where
  "weight sources = (\<Sum>s\<leftarrow>sources. length (view s))"

lemma weight_simps [simp]:
  "weight [] = 0" "weight (s # sources) = length (view s) + weight sources"
  by (simp_all add: weight_def)

lemma views_peek_all: "map view (peek_all peek sources) = map view sources"
  by (simp add: peek_all_def view_peek)

lemma views_first_error: "map view (snd (first_error take_error sources)) = map view sources"
proof (induction sources)
  case (Cons s sources)
  then show ?case using view_take_error [of s]
    by (auto split: prod.splits option.splits simp: map_prod_def)
qed simp

lemma weight_views: "map view xs = map view ys \<Longrightarrow> weight xs = weight ys"
  by (metis (mono_tags, lifting) weight_def map_map comp_apply map_eq_conv list.map_comp)

lemma view_next_less: "fst (peek s) = Some k \<Longrightarrow> length (view (snd (take_next s))) < length (view s)"
  using peek_Some by fastforce

lemma take_min_weight_le: "weight (snd (take_min peek take_next m c sources)) \<le> weight sources"
proof (induction sources arbitrary: c)
  case (Cons s sources)
  have "length (view (snd (take_next (snd (peek s))))) \<le> length (view s)"
    using view_next [of "snd (peek s)"] by (simp add: view_peek)
  with Cons view_peek [of s] show ?case
    by (auto split: prod.splits simp: add_mono)
qed simp

lemma take_min_weight_less:
  "\<exists>s \<in> set sources. fst (peek s) = Some m \<Longrightarrow>
     weight (snd (take_min peek take_next m c sources)) < weight sources"
proof (induction sources arbitrary: c)
  case (Cons s sources)
  show ?case
  proof (cases "fst (peek s) = Some m")
    case True
    then have "fst (peek (snd (peek s))) = Some m" by (simp add: peek_peek)
    then have "length (view (snd (take_next (snd (peek s))))) < length (view s)"
      using view_next_less view_peek by metis
    with True take_min_weight_le show ?thesis
      by (auto split: prod.splits intro!: add_less_le_mono)
  next
    case False
    with Cons view_peek [of s] show ?thesis by (auto split: prod.splits)
  qed
qed simp

lemma min_key_Some:
  assumes "min_key peek sources = (Some m, sources')"
  shows "sources' = peek_all peek sources" "\<exists>s \<in> set sources'. fst (peek s) = Some m"
    "\<forall>s \<in> set sources. \<forall>k. fst (peek s) = Some k \<longrightarrow> m \<le> k"
proof -
  let ?keys = "List.map_filter (\<lambda>s. fst (peek s)) sources"
  have set: "set ?keys = {k. \<exists>s \<in> set sources. fst (peek s) = Some k}"
    by (force simp: List.map_filter_def)
  from assms have ne: "?keys \<noteq> []" and m: "m = Min (set ?keys)" and eq: "sources' = peek_all peek sources"
    by (auto simp: min_key_def Let_def split: if_splits)
  show "sources' = peek_all peek sources" by (rule eq)
  from ne have "m \<in> set ?keys" unfolding m by (intro Min_in) auto
  then show "\<exists>s \<in> set sources'. fst (peek s) = Some m"
    unfolding set eq peek_all_def by (auto simp: peek_peek)
  show "\<forall>s \<in> set sources. \<forall>k. fst (peek s) = Some k \<longrightarrow> m \<le> k"
  proof (intro ballI allI impI)
    fix s k assume "s \<in> set sources" "fst (peek s) = Some k"
    then have "k \<in> set ?keys" using set by blast
    then show "m \<le> k" unfolding m by simp
  qed
qed

lemma min_key_None:
  "min_key peek sources = (None, sources') \<Longrightarrow>
     sources' = peek_all peek sources \<and> (\<forall>s \<in> set sources. fst (peek s) = None)"
proof -
  assume "min_key peek sources = (None, sources')"
  then have e: "sources' = peek_all peek sources" "List.map_filter (\<lambda>s. fst (peek s)) sources = []"
    by (auto simp: min_key_def Let_def split: if_splits)
  then have "\<forall>s \<in> set sources. fst (peek s) = None"
    by (auto simp: List.map_filter_def filter_empty_conv)
  with e show ?thesis by simp
qed

end

context entry_stream
begin

definition ready :: "'s list \<Rightarrow> bool" where
  "ready sources \<longleftrightarrow> (\<forall>s \<in> set sources. inv s \<and> asc_keys (view s))"

lemma ready_peek_all: "ready sources \<Longrightarrow> ready (peek_all peek sources)"
  by (simp add: ready_def peek_all_def inv_peek view_peek)

lemma faults_peek_all: "map fault (peek_all peek sources) = map fault sources"
  by (simp add: peek_all_def fault_peek)

lemma first_error_keeps:
  "ready sources \<Longrightarrow> ready (snd (first_error take_error sources))"
  "map fault (snd (first_error take_error sources)) = map fault sources"
proof (induction sources)
  case (Cons s sources)
  obtain eo s' where te: "take_error s = (eo, s')" by fastforce
  {
    case 1
    then have "inv s' \<and> asc_keys (view s')"
      using inv_take_error [of s] view_take_error [of s] te by (simp add: ready_def)
    with 1 Cons.IH(1) te show ?case by (cases eo) (simp_all add: ready_def)
  next
    case 2
    with Cons.IH(2) fault_take_error [of s] te show ?case by (cases eo) simp_all
  }
qed (simp_all add: ready_def)

text \<open>After every source was peeked, an error surfaces exactly if an exhausted source failed.\<close>

lemma first_error_peeked:
  "ready sources \<Longrightarrow> fst (first_error take_error (peek_all peek sources)) = None \<longleftrightarrow>
     (\<forall>s \<in> set sources. view s = [] \<longrightarrow> fault s = None)"
proof (induction sources)
  case (Cons s sources)
  then have "inv s" "ready sources" by (simp_all add: ready_def)
  with Cons.IH error_peeked [of s] show ?case
    by (cases "view s = []"; cases "fault s") (auto simp: peek_all_def split: prod.splits option.splits)
qed (simp add: peek_all_def)

lemma first_error_origin:
  "ready sources \<Longrightarrow> fst (first_error take_error (peek_all peek sources)) = Some e \<Longrightarrow>
     \<exists>s \<in> set sources. fault s = Some e"
proof (induction sources)
  case (Cons s sources)
  then have "inv s" "ready sources" by (simp_all add: ready_def)
  with Cons error_peeked [of s] show ?case
    by (auto simp: peek_all_def split: prod.splits option.splits if_splits)
qed (simp add: peek_all_def)

lemma take_min_views:
  assumes "ready sources" and "\<forall>s \<in> set sources. \<forall>k. fst (peek s) = Some k \<longrightarrow> m \<le> k"
  shows "map view (snd (take_min peek take_next m c sources)) = map (filter (\<lambda>e. fst e \<noteq> m)) (map view sources)
     \<and> fst (take_min peek take_next m c sources) = (case c of None \<Rightarrow> newest (map view sources) m | Some r \<Rightarrow> Some r)"
  using assms
proof (induction sources arbitrary: c)
  case (Cons s sources)
  then have s: "inv s" "asc_keys (view s)" and rest: "ready sources" by (simp_all add: ready_def)
  have least: "\<forall>e \<in> set (view s). m \<le> fst e"
  proof
    fix e assume e: "e \<in> set (view s)"
    then obtain h tl where v: "view s = h # tl" by (cases "view s") auto
    with Cons.prems(2) peek_view [OF s(1)] have "m \<le> fst h" by simp
    with v e s(2) show "m \<le> fst e" by (force dest: order.strict_implies_order)
  qed
  note fl = filter_least [OF s(2) least]
  show ?case
  proof (cases "fst (peek s) = Some m")
    case True
    then have "fst (peek (snd (peek s))) = Some m" by (simp add: peek_peek)
    from peek_Some [OF this] obtain r tl where
      v: "view s = (m, r) # tl" and nx: "fst (take_next (snd (peek s))) = Some (m, r)"
        "view (snd (take_next (snd (peek s)))) = tl"
      by (auto simp: view_peek)
    then show ?thesis
      using True Cons.IH [OF rest] Cons.prems(2) fl by (auto split: prod.splits option.splits)
  next
    case False
    have none: "map_of (view s) m = None"
      using False peek_view [OF s(1)] least s(2)
      by (cases "view s") (force simp: map_of_eq_None_iff)+
    have "filter (\<lambda>e. fst e \<noteq> m) (view s) = view s"
      using False peek_view [OF s(1)] fl by (auto split: list.splits)
    with False none show ?thesis
      using Cons.IH [OF rest] Cons.prems(2) view_peek [of s] by (auto split: prod.splits option.splits)
  qed
qed (simp split: option.splits)

lemma take_min_keeps:
  "(\<forall>s \<in> set sources. inv s) \<Longrightarrow> \<forall>s \<in> set (snd (take_min peek take_next m c sources)). inv s"
  "map fault (snd (take_min peek take_next m c sources)) = map fault sources"
proof (induction sources arbitrary: c)
  case (Cons s sources)
  {
    case 1
    then have "inv (snd (peek s))" "inv (snd (take_next (snd (peek s))))"
      by (simp_all add: inv_peek inv_next)
    with 1 Cons.IH(1) show ?case by (auto split: prod.splits)
  next
    case 2
    with Cons.IH(2) fault_peek [of s] fault_next [of "snd (peek s)"] show ?case
      by (auto split: prod.splits)
  }
qed simp_all

end

section \<open>The merge\<close>

fun source_view :: "'f externals \<Rightarrow> 'f source \<Rightarrow> entry list" where
  "source_view X (Mem es) = es"
| "source_view X (Run cur) = cursor_view X cur"

fun source_fault :: "'f externals \<Rightarrow> 'f source \<Rightarrow> error option" where
  "source_fault X (Mem es) = None"
| "source_fault X (Run cur) = cursor_fault X cur"

fun source_inv :: "'f externals \<Rightarrow> 'f source \<Rightarrow> bool" where
  "source_inv X (Mem es) = True"
| "source_inv X (Run cur) = cursor_inv X cur"

interpretation src: entry_stream "source_peek_key X" "source_next_entry X" source_take_error
  "source_view X" "source_fault X" "source_inv X" for X :: "'f externals"
proof
  fix s :: "'f source"
  note cursor_laws = cursor.view_peek cursor.view_take_error cursor.next_peeked cursor.peek_peek
    cursor.fault_peek cursor.fault_next cursor.fault_take_error
  show "source_view X (snd (source_peek_key X s)) = source_view X s"
    "source_view X (snd (source_take_error s)) = source_view X s"
    "map_option fst (fst (source_next_entry X s)) = fst (source_peek_key X s)"
    "fst (source_peek_key X (snd (source_peek_key X s))) = fst (source_peek_key X s)"
    "source_fault X (snd (source_peek_key X s)) = source_fault X s"
    "source_fault X (snd (source_next_entry X s)) = source_fault X s"
    "source_fault X (snd (source_take_error s)) = source_fault X s"
    by (cases s; simp add: cursor_laws split: list.splits)+
  show "source_view X s = (case fst (source_next_entry X s) of None \<Rightarrow> [] | Some e \<Rightarrow> [e])
      @ source_view X (snd (source_next_entry X s))"
    by (cases s) (simp_all add: cursor.view_next [symmetric] split: list.splits)
  assume inv: "source_inv X s"
  then show "source_inv X (snd (source_peek_key X s))" "source_inv X (snd (source_next_entry X s))"
    "source_inv X (snd (source_take_error s))"
    by (cases s; simp add: cursor.inv_peek cursor.inv_next cursor.inv_take_error split: list.splits)+
  show "source_view X s = []" if "fst (source_peek_key X s) = None"
    using inv that by (cases s) (auto simp: cursor.peek_None split: list.splits)
  show "fst (source_take_error (snd (source_peek_key X s)))
      = (if source_view X s = [] then source_fault X s else None)"
    using inv by (cases s) (simp_all add: cursor.error_peeked)
qed

function merge_next ::
    "'f externals \<Rightarrow> 'f source list \<Rightarrow> (error + bytes \<times> bytes) option \<times> 'f source list" where
  "merge_next X sources =
     (case first_error source_take_error (peek_all (source_peek_key X) sources) of
        (Some err, sources) \<Rightarrow> (Some (Inl err), sources)
      | (None, sources) \<Rightarrow>
          (case min_key (source_peek_key X) sources of
             (None, sources) \<Rightarrow> (None, sources)
           | (Some m, sources) \<Rightarrow>
               (case take_min (source_peek_key X) (source_next_entry X) m None sources of
                  (chosen, sources) \<Rightarrow>
                    (case chosen of
                       Some (Value value) \<Rightarrow> (Some (Inr (m, value)), sources)
                     | _ \<Rightarrow> merge_next X sources))))"
  by pat_completeness auto

text \<open>One round takes the least key from at least one source, so the merge ends.\<close>

lemma merge_round_weight:
  assumes "first_error source_take_error (peek_all (source_peek_key X) sources) = (None, s1)"
    and "min_key (source_peek_key X) s1 = (Some m, s2)"
    and "take_min (source_peek_key X) (source_next_entry X) m c s2 = (ch, s3)"
  shows "src.weight X s3 < src.weight X sources"
proof -
  have "map (source_view X) s1 = map (source_view X) sources"
    using src.views_first_error [of X "peek_all (source_peek_key X) sources"] assms(1)
    by (simp add: src.views_peek_all)
  moreover note mk = src.min_key_Some [OF assms(2)]
  moreover have "map (source_view X) s2 = map (source_view X) s1"
    by (simp add: mk(1) src.views_peek_all)
  ultimately have "src.weight X s2 = src.weight X sources" by (intro src.weight_views) simp
  moreover have "src.weight X s3 < src.weight X s2"
    using src.take_min_weight_less [OF mk(2), of c] assms(3) by simp
  ultimately show ?thesis by simp
qed

termination merge_next
proof (relation "measure (\<lambda>(X, sources). src.weight X sources)")
qed (auto dest: merge_round_weight [OF sym sym sym])

declare merge_next.simps [simp del]

definition views :: "'f externals \<Rightarrow> 'f source list \<Rightarrow> entry list list" where
  "views X sources = map (source_view X) sources"

text \<open>
  \<^verbatim>\<open>advanced X sources k sources'\<close>: the merge has passed every key up to \<^verbatim>\<open>k\<close>, whose
  visible values were none, except possibly at \<^verbatim>\<open>k\<close> itself, and changed nothing beyond.
\<close>

definition advanced :: "'f externals \<Rightarrow> 'f source list \<Rightarrow> bytes \<Rightarrow> 'f source list \<Rightarrow> bool" where
  "advanced X sources k sources' \<longleftrightarrow> src.ready X sources'
     \<and> map (source_fault X) sources' = map (source_fault X) sources
     \<and> (\<forall>k' < k. resolve (views X sources) k' = None)
     \<and> (\<forall>k'. resolve (views X sources') k' = (if k' \<le> k then None else resolve (views X sources) k'))"

lemma newest_below:
  "\<forall>es \<in> set ess. \<forall>e \<in> set es. m \<le> fst e \<Longrightarrow> k < m \<Longrightarrow> newest ess k = None"
proof (induction ess)
  case (Cons es ess)
  then have "map_of es k = None" by (force simp: map_of_eq_None_iff)
  with Cons show ?case by simp
qed simp

lemma merge_round:
  assumes rd: "src.ready X sources"
    and fe: "first_error source_take_error (peek_all (source_peek_key X) sources) = (None, s1)"
    and mk: "min_key (source_peek_key X) s1 = (Some m, s2)"
    and tm: "take_min (source_peek_key X) (source_next_entry X) m None s2 = (chosen, s3)"
  shows "advanced X sources m s3" "chosen = newest (views X sources) m"
proof -
  have rd1: "src.ready X s1" and f1: "map (source_fault X) s1 = map (source_fault X) sources"
    and v1: "views X s1 = views X sources"
    using src.first_error_keeps [of X "peek_all (source_peek_key X) sources"] src.ready_peek_all [OF rd]
      src.views_first_error [of X "peek_all (source_peek_key X) sources"] fe
    by (simp_all add: src.faults_peek_all src.views_peek_all views_def)
  note mk' = src.min_key_Some [OF mk]
  have rd2: "src.ready X s2" and f2: "map (source_fault X) s2 = map (source_fault X) sources"
    and v2: "views X s2 = views X sources"
    using src.ready_peek_all [OF rd1] f1 v1
    by (simp_all add: mk'(1) src.faults_peek_all src.views_peek_all views_def)
  have least: "\<forall>s \<in> set s2. \<forall>k. fst (source_peek_key X s) = Some k \<longrightarrow> m \<le> k"
    using mk'(3) by (auto simp: mk'(1) peek_all_def src.peek_peek)
  have v3: "views X s3 = map (filter (\<lambda>e. fst e \<noteq> m)) (views X sources)"
    and ch: "chosen = newest (views X sources) m"
    using src.take_min_views [OF rd2 least, of None] tm v2 by (simp_all add: views_def del: map_map)
  show "chosen = newest (views X sources) m" by (rule ch)
  have f3: "map (source_fault X) s3 = map (source_fault X) sources"
    using src.take_min_keeps(2) [of X m None s2] tm f2 by simp
  have "\<forall>s \<in> set s3. source_inv X s"
    using src.take_min_keeps(1) [of s2 X m None] rd2 tm by (simp add: src.ready_def)
  moreover have "\<forall>es \<in> set (views X s3). asc_keys es"
    unfolding v3 using rd by (auto simp: views_def src.ready_def intro: asc_keys_filter)
  ultimately have rd3: "src.ready X s3" by (simp add: src.ready_def views_def)
  have "\<forall>es \<in> set (views X sources). \<forall>e \<in> set es. m \<le> fst e"
  proof (intro ballI)
    fix es e assume es: "es \<in> set (views X sources)" and e: "e \<in> set es"
    from es have "es \<in> set (views X s2)" by (simp only: v2)
    then obtain s where s: "s \<in> set s2" "es = source_view X s" by (auto simp: views_def)
    obtain h tl where v: "es = h # tl" using e by (cases es) auto
    have "asc_keys es" "source_inv X s" using rd2 s by (simp_all add: src.ready_def)
    moreover from this have "fst (source_peek_key X s) = Some (fst h)"
      using src.peek_view [of X s] v s(2) by simp
    with least s(1) have "m \<le> fst h" by blast
    ultimately show "m \<le> fst e" using v e by (force dest: order.strict_implies_order)
  qed
  then have below: "newest (views X sources) k = None" if "k < m" for k using that by (rule newest_below)
  show "advanced X sources m s3"
    unfolding advanced_def using rd3 f3 below
    by (auto simp: v3 resolve_def newest_remove)
qed

lemma advanced_trans:
  assumes a: "advanced X s0 m s1" and v: "resolve (views X s0) m = None" and b: "advanced X s1 k s2"
    and nb: "resolve (views X s1) k \<noteq> None"
  shows "advanced X s0 k s2 \<and> resolve (views X s0) k = resolve (views X s1) k"
proof -
  have mk: "m < k" using a nb by (auto simp: advanced_def not_le [symmetric])
  have "resolve (views X s0) k' = None" if "k' < k" for k'
    using a b v that unfolding advanced_def by (metis linorder_cases not_le)
  with a b mk show ?thesis unfolding advanced_def by auto
qed

definition merge_post :: "'f externals \<Rightarrow> 'f source list \<Rightarrow>
    (error + bytes \<times> bytes) option \<times> 'f source list \<Rightarrow> bool" where
  "merge_post X sources out \<longleftrightarrow>
     (case fst out of
        None \<Rightarrow> (\<forall>k. resolve (views X sources) k = None) \<and> (\<forall>s \<in> set sources. source_fault X s = None)
      | Some (Inl e) \<Rightarrow> (\<exists>s \<in> set sources. source_fault X s = Some e)
      | Some (Inr (k, v)) \<Rightarrow> resolve (views X sources) k = Some v \<and> advanced X sources k (snd out))"

lemma faults_any: "map (source_fault X) s1 = map (source_fault X) s0 \<Longrightarrow>
    (\<exists>s \<in> set s1. source_fault X s = y) = (\<exists>s \<in> set s0. source_fault X s = y)"
  by (metis (mono_tags, opaque_lifting) image_iff list.set_map)

lemma merge_post_trans:
  assumes a: "advanced X s0 m s1" and v: "resolve (views X s0) m = None" and p: "merge_post X s1 out"
  shows "merge_post X s0 out"
proof (cases "fst out")
  case None
  with p have n: "\<forall>k. resolve (views X s1) k = None" and f: "\<forall>s \<in> set s1. source_fault X s = None"
    by (simp_all add: merge_post_def)
  have "resolve (views X s0) k = None" for k
    using a v n unfolding advanced_def by (metis linorder_cases not_le)
  moreover have "\<forall>s \<in> set s0. source_fault X s = None"
    using f a unfolding advanced_def by (metis (no_types, lifting) image_iff list.set_map)
  ultimately show ?thesis using None by (simp add: merge_post_def)
next
  case (Some r)
  show ?thesis
  proof (cases r)
    case (Inl e)
    with Some p a faults_any [of X s1 s0 "Some e"] show ?thesis by (simp add: merge_post_def advanced_def)
  next
    case (Inr kv)
    with Some p a v advanced_trans [OF a v, of "fst kv" "snd out"] show ?thesis
      by (cases kv) (auto simp: merge_post_def)
  qed
qed

lemma merge_exhausted:
  assumes rd: "src.ready X sources"
    and fe: "first_error source_take_error (peek_all (source_peek_key X) sources) = (None, s1)"
    and mk: "min_key (source_peek_key X) s1 = (None, s2)"
  shows "\<forall>es \<in> set (views X sources). es = []" "\<forall>s \<in> set sources. source_fault X s = None"
proof -
  have v1: "views X s1 = views X sources"
    using src.views_first_error [of X "peek_all (source_peek_key X) sources"] fe
    by (simp add: src.views_peek_all views_def)
  have "src.ready X s1"
    using src.first_error_keeps(1) [OF src.ready_peek_all [OF rd]] fe by simp
  then have "\<forall>s \<in> set s1. source_view X s = []"
    using src.min_key_None [OF mk] src.peek_None unfolding src.ready_def by blast
  then show empty: "\<forall>es \<in> set (views X sources). es = []" unfolding v1 [symmetric] by (simp add: views_def)
  then show "\<forall>s \<in> set sources. source_fault X s = None"
    using src.first_error_peeked [OF rd] fe by (simp add: views_def)
qed

lemma merge_next_post: "src.ready X sources \<Longrightarrow> merge_post X sources (merge_next X sources)"
proof (induction X sources rule: merge_next.induct)
  case (1 X sources)
  note rd = "1.prems" and step = merge_next.simps [of X sources]
  obtain eo s1 where fe: "first_error source_take_error (peek_all (source_peek_key X) sources) = (eo, s1)"
    by fastforce
  show ?case
  proof (cases eo)
    case (Some err)
    with fe src.first_error_origin [OF rd, of err] show ?thesis by (simp add: step merge_post_def)
  next
    case None
    note fe = fe [unfolded None]
    obtain mo s2 where mk: "min_key (source_peek_key X) s1 = (mo, s2)" by fastforce
    show ?thesis
    proof (cases mo)
      case None
      with merge_exhausted [OF rd fe] mk show ?thesis
        using fe by (simp add: step merge_post_def resolve_def newest_empty)
    next
      case (Some m)
      note mk = mk [unfolded Some]
      obtain chosen s3 where tm: "take_min (source_peek_key X) (source_next_entry X) m None s2 = (chosen, s3)"
        by fastforce
      note rnd = merge_round [OF rd fe mk tm]
      have rd3: "src.ready X s3" using rnd(1) by (simp add: advanced_def)
      show ?thesis
      proof (cases "\<exists>v. chosen = Some (Value v)")
        case True
        then show ?thesis using rnd fe mk tm
          by (auto simp: step merge_post_def resolve_def)
      next
        case False
        then have gone: "resolve (views X sources) m = None"
          unfolding resolve_def rnd(2) [symmetric] by (cases chosen; cases "the chosen") simp_all
        have eq: "merge_next X sources = merge_next X s3"
          using False fe mk tm by (auto simp: step split: option.splits record_v.splits)
        have "merge_post X s3 (merge_next X s3)"
        proof (cases chosen)
          case None
          show ?thesis using "1.IH"(1) [OF fe [symmetric] refl mk [symmetric] refl tm [symmetric] None rd3] .
        next
          case (Some r)
          with False have "r = Tombstone" by (cases r) auto
          then show ?thesis
            using "1.IH"(2) [OF fe [symmetric] refl mk [symmetric] refl tm [symmetric] Some _ rd3] by simp
        qed
        then show ?thesis unfolding eq by (rule merge_post_trans [OF rnd(1) gone])
      qed
    qed
  qed
qed

section \<open>Draining the merge\<close>

lemma merge_next_weight:
  "merge_next X sources = (Some (Inr kv), sources') \<Longrightarrow> src.weight X sources' < src.weight X sources"
proof (induction X sources rule: merge_next.induct)
  case (1 X sources)
  note step = merge_next.simps [of X sources]
  from "1.prems" obtain s1 where fe: "first_error source_take_error (peek_all (source_peek_key X) sources) = (None, s1)"
    by (auto simp: step split: prod.splits option.splits)
  with "1.prems" obtain m s2 where mk: "min_key (source_peek_key X) s1 = (Some m, s2)"
    by (auto simp: step split: prod.splits option.splits)
  obtain chosen s3 where tm: "take_min (source_peek_key X) (source_next_entry X) m None s2 = (chosen, s3)"
    by fastforce
  note less = merge_round_weight [OF fe mk tm]
  show ?case
  proof (cases "\<exists>v. chosen = Some (Value v)")
    case True
    with "1.prems" fe mk tm less show ?thesis by (auto simp: step)
  next
    case False
    then have eq: "merge_next X sources = merge_next X s3"
      using fe mk tm by (auto simp: step split: option.splits record_v.splits)
    have "src.weight X sources' < src.weight X s3"
    proof (cases chosen)
      case None
      with "1.IH"(1) [OF fe [symmetric] refl mk [symmetric] refl tm [symmetric] None] "1.prems" eq
      show ?thesis by simp
    next
      case (Some r)
      with False have "r = Tombstone" by (cases r) auto
      with "1.IH"(2) [OF fe [symmetric] refl mk [symmetric] refl tm [symmetric] Some] "1.prems" eq
      show ?thesis by simp
    qed
    with less show ?thesis by simp
  qed
qed

text \<open>What a \<^verbatim>\<open>for item in merge\<close> loop sees: the items before the first error, and the error.\<close>

function merge_items :: "'f externals \<Rightarrow> 'f source list \<Rightarrow> (bytes \<times> bytes) list \<times> error option" where
  "merge_items X sources =
     (case merge_next X sources of
        (None, sources) \<Rightarrow> ([], None)
      | (Some (Inl err), sources) \<Rightarrow> ([], Some err)
      | (Some (Inr kv), sources) \<Rightarrow> (kv # fst (merge_items X sources), snd (merge_items X sources)))"
  by pat_completeness auto
termination
  by (relation "measure (\<lambda>(X, sources). src.weight X sources)") (auto dest: merge_next_weight [OF sym])

declare merge_items.simps [simp del]

definition drained :: "'f externals \<Rightarrow> 'f source list \<Rightarrow> (bytes \<times> bytes) list \<Rightarrow> error option \<Rightarrow> bool" where
  "drained X sources es err \<longleftrightarrow> asc_keys es
     \<and> (\<forall>k v. (k, v) \<in> set es \<longrightarrow> resolve (views X sources) k = Some v)
     \<and> (case err of
          None \<Rightarrow> map_of es = resolve (views X sources) \<and> (\<forall>s \<in> set sources. source_fault X s = None)
        | Some e \<Rightarrow> \<exists>s \<in> set sources. source_fault X s = Some e)"

lemma drained_Cons:
  assumes v: "resolve (views X sources) k = Some v" and adv: "advanced X sources k s'"
    and d: "drained X s' es err"
  shows "drained X sources ((k, v) # es) err"
proof -
  have faults: "map (source_fault X) s' = map (source_fault X) sources" using adv by (simp add: advanced_def)
  have above: "k < k2 \<and> resolve (views X sources) k2 = Some v2" if "(k2, v2) \<in> set es" for k2 v2
    using that d adv unfolding drained_def advanced_def by (metis not_le option.distinct(1))
  have map: "map_of ((k, v) # es) = resolve (views X sources)" if "map_of es = resolve (views X s')"
  proof
    fix k2
    show "map_of ((k, v) # es) k2 = resolve (views X sources) k2"
      using that v adv unfolding advanced_def by (cases k2 k rule: linorder_cases) simp_all
  qed
  have "asc_keys ((k, v) # es)" using d above by (auto simp: drained_def)
  moreover have "\<forall>k2 v2. (k2, v2) \<in> set ((k, v) # es) \<longrightarrow> resolve (views X sources) k2 = Some v2"
    using above v by auto
  moreover have "case err of
      None \<Rightarrow> map_of ((k, v) # es) = resolve (views X sources) \<and> (\<forall>s \<in> set sources. source_fault X s = None)
    | Some e \<Rightarrow> \<exists>s \<in> set sources. source_fault X s = Some e"
  proof (cases err)
    case None
    with d have es: "map_of es = resolve (views X s')" and "\<forall>s \<in> set s'. source_fault X s = None"
      by (simp_all add: drained_def)
    then have "\<forall>s \<in> set sources. source_fault X s = None"
      using faults by (metis (no_types, lifting) image_iff list.set_map)
    with None map [OF es] show ?thesis by simp
  next
    case (Some e)
    with d faults_any [OF faults] show ?thesis by (simp add: drained_def)
  qed
  ultimately show ?thesis unfolding drained_def by blast
qed

lemma merge_items_drained:
  "src.ready X sources \<Longrightarrow> drained X sources (fst (merge_items X sources)) (snd (merge_items X sources))"
proof (induction X sources rule: merge_items.induct)
  case (1 X sources)
  note step = merge_items.simps [of X sources] and post = merge_next_post [OF "1.prems"]
  obtain r s' where nx: "merge_next X sources = (r, s')" by fastforce
  consider "r = None" | e where "r = Some (Inl e)" | k v where "r = Some (Inr (k, v))"
    by (metis option.exhaust sum.exhaust prod.exhaust)
  then show ?case
  proof cases
    case 1
    with post nx show ?thesis by (auto simp: step merge_post_def drained_def)
  next
    case 2
    with post nx show ?thesis by (simp add: step merge_post_def drained_def)
  next
    case 3
    with post nx have v: "resolve (views X sources) k = Some v" and adv: "advanced X sources k s'"
      by (simp_all add: merge_post_def)
    then have "src.ready X s'" by (simp add: advanced_def)
    with "1.IH" nx 3 have "drained X s' (fst (merge_items X s')) (snd (merge_items X s'))" by simp
    with drained_Cons [OF v adv] nx 3 show ?thesis by (simp add: step)
  qed
qed

text \<open>With readable inputs the merge yields exactly the visible entries, in key order.\<close>

lemma merge_items_ok:
  assumes "src.ready X sources" and "\<forall>s \<in> set sources. source_fault X s = None"
  shows "snd (merge_items X sources) = None" "asc_keys (fst (merge_items X sources))"
    "map_of (fst (merge_items X sources)) = resolve (views X sources)"
  using merge_items_drained [OF assms(1)] assms(2)
  by (auto simp: drained_def split: option.splits)

end
