(* ===== verification/Manifest.thy ===== *)
theory Manifest
  imports Bloom
begin

text \<open>
  The manifest (src/manifest.rs): the text file that names the live runs, newest first,
  and the next sequence number, with the parsing and printing it takes from the standard
  library. A \<^verbatim>\<open>String\<close> is the characters of its UTF-8 bytes, so a text file and its lines
  are kept byte for byte. File names are relative to the database directory.
\<close>

definition text_of :: "bytes \<Rightarrow> string" where
  "text_of bs = map (\<lambda>b. char_of (unat b)) bs"

text \<open>The check \<^verbatim>\<open>read_to_string\<close> makes: well-formed UTF-8 by the table of the Unicode standard.\<close>

definition utf8_cont :: "byte \<Rightarrow> bool" where
  "utf8_cont b \<longleftrightarrow> 0x80 \<le> b \<and> b \<le> 0xBF"

fun utf8_valid :: "bytes \<Rightarrow> bool" where
  "utf8_valid [] = True"
| "utf8_valid (b # bs) =
     (if b < 0x80 then utf8_valid bs
      else if 0xC2 \<le> b \<and> b \<le> 0xDF then
        (case bs of c # rest \<Rightarrow> utf8_cont c \<and> utf8_valid rest | _ \<Rightarrow> False)
      else if 0xE0 \<le> b \<and> b \<le> 0xEF then
        (case bs of c # e # rest \<Rightarrow>
           (if b = 0xE0 then 0xA0 \<le> c else 0x80 \<le> c) \<and> (if b = 0xED then c \<le> 0x9F else c \<le> 0xBF)
           \<and> utf8_cont e \<and> utf8_valid rest
         | _ \<Rightarrow> False)
      else if 0xF0 \<le> b \<and> b \<le> 0xF4 then
        (case bs of c # e # f # rest \<Rightarrow>
           (if b = 0xF0 then 0x90 \<le> c else 0x80 \<le> c) \<and> (if b = 0xF4 then c \<le> 0x8F else c \<le> 0xBF)
           \<and> utf8_cont e \<and> utf8_cont f \<and> utf8_valid rest
         | _ \<Rightarrow> False)
      else False)"

definition fs_read_to_string :: "string \<Rightarrow> (io_error, string) fsact" where
  "fs_read_to_string name =
     act_then (fs_read name) (\<lambda>bs.
       if utf8_valid bs then act_ok (text_of bs) else act_err InvalidData)"

section \<open>Strings\<close>

definition NL :: char where
  "NL = CHR 0x0A"

definition CR :: char where
  "CR = CHR 0x0D"

definition strip_cr :: "string \<Rightarrow> string" where
  "strip_cr l = (if l \<noteq> [] \<and> last l = CR then butlast l else l)"

text \<open>\<^verbatim>\<open>str::lines\<close>: a last line without a newline keeps its carriage return.\<close>

fun lines_from :: "string \<Rightarrow> string \<Rightarrow> string list" where
  "lines_from cur [] = (if cur = [] then [] else [rev cur])"
| "lines_from cur (c # cs) =
     (if c = NL then strip_cr (rev cur) # lines_from [] cs else lines_from (c # cur) cs)"

definition lines :: "string \<Rightarrow> string list" where
  "lines s = lines_from [] s"

definition strip_prefix :: "string \<Rightarrow> string \<Rightarrow> string option" where
  "strip_prefix p s = (if take (length p) s = p then Some (drop (length p) s) else None)"

definition strip_suffix :: "string \<Rightarrow> string \<Rightarrow> string option" where
  "strip_suffix p s = map_option rev (strip_prefix (rev p) (rev s))"

text \<open>\<^verbatim>\<open>u64::to_string\<close> and \<^verbatim>\<open>str::parse::<u64>\<close>: an optional plus sign, then digits, with every step checked.\<close>

definition digit_char :: "nat \<Rightarrow> char" where
  "digit_char n = char_of (48 + n)"

definition digit_val :: "char \<Rightarrow> nat option" where
  "digit_val c = (let n = of_char c in if 48 \<le> n \<and> n \<le> 57 then Some (n - 48) else None)"

fun digits :: "nat \<Rightarrow> string" where
  "digits n = (if n < 10 then [digit_char n] else digits (n div 10) @ [digit_char (n mod 10)])"

declare digits.simps [simp del]

definition u64_to_string :: "u64 \<Rightarrow> string" where
  "u64_to_string n = digits (unat n)"

fun parse_digits :: "nat \<Rightarrow> string \<Rightarrow> nat option" where
  "parse_digits acc [] = Some acc"
| "parse_digits acc (c # cs) =
     (case digit_val c of
        None \<Rightarrow> None
      | Some x \<Rightarrow>
          if 2 ^ 64 \<le> acc * 10 then None
          else if 2 ^ 64 \<le> acc * 10 + x then None
          else parse_digits (acc * 10 + x) cs)"

definition parse_u64 :: "string \<Rightarrow> u64 option" where
  "parse_u64 s =
     (case s of
        [] \<Rightarrow> None
      | c # cs \<Rightarrow>
          if c = CHR ''+'' then (if cs = [] then None else map_option of_nat (parse_digits 0 cs))
          else map_option of_nat (parse_digits 0 s))"

section \<open>The manifest\<close>

definition MANIFEST :: string where
  "MANIFEST = ''MANIFEST''"

definition MANIFEST_TMP :: string where
  "MANIFEST_TMP = ''MANIFEST.tmp''"

definition HEADER :: string where
  "HEADER = ''LSMDB-MANIFEST v1''"

record manifest =
  m_next_seq :: u64
  m_runs :: "string list"

definition manifest_parse :: "string \<Rightarrow> manifest res" where
  "manifest_parse text =
     (case lines text of
        [] \<Rightarrow> Inl (corruption ''manifest header missing or unrecognised'')
      | h # ls \<Rightarrow>
          if h \<noteq> HEADER then Inl (corruption ''manifest header missing or unrecognised'')
          else case ls of
                 [] \<Rightarrow> Inl (corruption ''manifest truncated'')
               | line # rest \<Rightarrow>
                   (case Option.bind (strip_prefix ''next_seq='' line) parse_u64 of
                      None \<Rightarrow> Inl (corruption ''manifest next_seq line malformed'')
                    | Some next_seq \<Rightarrow>
                        Inr \<lparr>m_next_seq = next_seq, m_runs = filter (\<lambda>l. l \<noteq> []) rest\<rparr>))"

definition manifest_load :: "(error, manifest option) fsact" where
  "manifest_load =
     act_then (fs_exists MANIFEST) (\<lambda>found.
     if \<not> found then act_ok None
     else act_then (act_map_err (io ''read manifest'') (fs_read_to_string MANIFEST)) (\<lambda>text.
          act_then (act_res (manifest_parse text)) (\<lambda>m. act_ok (Some m))))"

definition manifest_body :: "u64 \<Rightarrow> string list \<Rightarrow> string" where
  "manifest_body next_seq runs =
     HEADER @ [NL] @ ''next_seq='' @ u64_to_string next_seq @ [NL] @ concat (map (\<lambda>run. run @ [NL]) runs)"

definition manifest_store :: "u64 \<Rightarrow> string list \<Rightarrow> (error, unit) fsact" where
  "manifest_store next_seq runs =
     act_then (act_map_err (io ''create manifest'') (fs_create MANIFEST_TMP)) (\<lambda>_.
     act_then (act_map_err (io ''write manifest'')
       (fs_write_all MANIFEST_TMP (ascii (manifest_body next_seq runs)))) (\<lambda>_.
     act_then (act_map_err (io ''flush manifest to stable storage'') (fs_sync_all MANIFEST_TMP)) (\<lambda>_.
     act_map_err (io ''install manifest'') (fs_rename MANIFEST_TMP MANIFEST))))"

text \<open>\<^verbatim>\<open>format!("run-{seq:010}.sst")\<close> and its inverse.\<close>

definition zero_pad :: "nat \<Rightarrow> string \<Rightarrow> string" where
  "zero_pad n ds = replicate (n - length ds) (CHR ''0'') @ ds"

definition run_filename :: "u64 \<Rightarrow> string" where
  "run_filename seq = ''run-'' @ zero_pad 10 (u64_to_string seq) @ ''.sst''"

definition seq_of :: "string \<Rightarrow> u64 option" where
  "seq_of name =
     Option.bind (strip_prefix ''run-'' name) (\<lambda>rest.
     Option.bind (strip_suffix ''.sst'' rest) parse_u64)"

section \<open>Numbers print and parse back\<close>

lemma digit_roundtrip: "n < 10 \<Longrightarrow> digit_val (digit_char n) = Some n"
  by (simp add: digit_val_def digit_char_def Let_def of_char_of)

lemma digits_induct: "(\<And>n. n < 10 \<Longrightarrow> P n) \<Longrightarrow> (\<And>n. 10 \<le> n \<Longrightarrow> P (n div 10) \<Longrightarrow> P n) \<Longrightarrow> P (n :: nat)"
proof (induction n rule: less_induct)
  case (less n)
  then show ?case by (cases "n < 10") auto
qed

lemma parse_digits_append:
  "parse_digits acc (xs @ ys) = Option.bind (parse_digits acc xs) (\<lambda>acc. parse_digits acc ys)"
  by (induction xs arbitrary: acc) (auto split: option.splits)

lemma parse_zeros [simp]: "parse_digits 0 (replicate n (CHR ''0'')) = Some 0"
  by (induction n) (simp_all add: digit_val_def)

lemma parse_digits_roundtrip: "n < 2 ^ 64 \<Longrightarrow> parse_digits 0 (digits n) = Some n"
proof (induction n rule: digits_induct)
  case (1 n)
  then show ?case by (subst digits.simps) (simp add: digit_roundtrip)
next
  case (2 n)
  have "n div 10 < 2 ^ 64" using 2(3) by (meson div_le_dividend le_less_trans)
  with 2 have "parse_digits 0 (digits (n div 10)) = Some (n div 10)" by simp
  moreover have "n div 10 * 10 + n mod 10 = n" by simp
  moreover have "n div 10 * 10 < 2 ^ 64" using 2(3) by linarith
  ultimately show ?case
    using 2(1,3) by (subst digits.simps) (simp add: parse_digits_append digit_roundtrip)
qed

lemma digits_chars: "c \<in> set (digits n) \<Longrightarrow> \<exists>x < 10. c = digit_char x"
proof (induction n rule: digits_induct)
  case (1 n)
  then show ?case by (subst (asm) digits.simps) auto
next
  case (2 n)
  then have "c \<in> set (digits (n div 10)) \<or> c = digit_char (n mod 10)"
    by (subst (asm) (2) digits.simps) auto
  moreover have "n mod 10 < 10" by simp
  ultimately show ?case using 2(2) by blast
qed

lemma digit_char_plain:
  "x < 10 \<Longrightarrow> digit_char x \<noteq> NL \<and> digit_char x \<noteq> CR \<and> digit_char x \<noteq> CHR ''+'' \<and> of_char (digit_char x) < (128::nat)"
proof -
  assume "x < 10"
  then have n: "of_char (digit_char x) = 48 + x" by (simp add: digit_char_def of_char_of)
  have "of_char NL = (10::nat)" "of_char CR = (13::nat)" "of_char (CHR ''+'') = (43::nat)"
    by (simp_all add: NL_def CR_def)
  moreover have "(of_char (digit_char x) :: nat) \<noteq> 10" "(of_char (digit_char x) :: nat) \<noteq> 13"
    using n by linarith+
  moreover have "of_char (digit_char x) < (128::nat)" using n \<open>x < 10\<close> by linarith
  moreover have "of_char (digit_char x) \<noteq> (43::nat)" using n by linarith
  ultimately show ?thesis by auto
qed

lemma digits_not_Nil [simp]: "digits n \<noteq> []"
  by (subst digits.simps) simp

lemma parse_u64_digits:
  assumes "n < 2 ^ 64"
  shows "parse_u64 (replicate k (CHR ''0'') @ digits n) = Some (of_nat n)"
proof -
  let ?s = "replicate k (CHR ''0'') @ digits n"
  have "parse_digits 0 ?s = Some n" using parse_digits_roundtrip [OF assms] by (simp add: parse_digits_append)
  moreover have "hd ?s \<noteq> CHR ''+''"
    using digits_chars [of "hd (digits n)" n] digit_char_plain by (cases k) force+
  ultimately show ?thesis by (cases ?s) (simp_all add: parse_u64_def)
qed

lemma strip_prefix_append [simp]: "strip_prefix p (p @ s) = Some s"
  by (simp add: strip_prefix_def)

lemma strip_suffix_append [simp]: "strip_suffix p (s @ p) = Some s"
  by (simp add: strip_suffix_def)

lemma seq_of_run_filename: "seq_of (run_filename seq) = Some seq"
proof -
  have "parse_u64 (zero_pad 10 (u64_to_string seq)) = Some seq"
    unfolding zero_pad_def u64_to_string_def
    using parse_u64_digits [of "unat seq"] unsigned_less [of seq, where 'a = nat] by simp
  moreover have "strip_prefix ''run-'' (run_filename seq) = Some (zero_pad 10 (u64_to_string seq) @ ''.sst'')"
    unfolding run_filename_def by (rule strip_prefix_append)
  ultimately show ?thesis by (simp add: seq_of_def)
qed

lemma run_filename_inj: "run_filename a = run_filename b \<longleftrightarrow> a = b"
  by (metis option.inject seq_of_run_filename)

section \<open>The manifest reads back\<close>

text \<open>A plain name: seven-bit characters, none of them a line break. Run names are plain.\<close>

definition plain :: "string \<Rightarrow> bool" where
  "plain s \<longleftrightarrow> (\<forall>c \<in> set s. c \<noteq> NL \<and> c \<noteq> CR \<and> of_char c < (128::nat))"

lemma plain_append [simp]: "plain (a @ b) \<longleftrightarrow> plain a \<and> plain b"
  by (auto simp: plain_def)

lemma plain_digits: "plain (digits n)"
  unfolding plain_def
proof
  fix c assume "c \<in> set (digits n)"
  then obtain x where "x < 10" "c = digit_char x" using digits_chars by blast
  with digit_char_plain show "c \<noteq> NL \<and> c \<noteq> CR \<and> of_char c < (128::nat)" by simp
qed

lemma plain_literals:
  "plain ''run-''" "plain ''.sst''" "plain ''next_seq=''" "plain HEADER" "plain (replicate n (CHR ''0''))"
  by (simp_all add: plain_def HEADER_def NL_def CR_def)

lemma plain_run_filename: "plain (run_filename seq) \<and> run_filename seq \<noteq> []"
  using plain_literals plain_digits
  unfolding run_filename_def zero_pad_def u64_to_string_def plain_append by simp

lemma text_of_ascii [simp]: "text_of (ascii s) = s"
proof -
  have "char_of (unat (of_nat (of_char c) :: byte)) = c" for c :: char
    using of_char_of [of "of_char c :: nat"] of_nat_of_char [of c, where 'a = nat]
    by (simp add: unat_of_nat)
  then show ?thesis by (simp add: text_of_def ascii_def comp_def)
qed

lemma utf8_valid_ascii:
  "\<forall>c \<in> set s. of_char c < (128::nat) \<Longrightarrow> utf8_valid (ascii s)"
proof (induction s)
  case (Cons c s)
  have "(of_nat (of_char c) :: byte) < 0x80"
    using Cons.prems by (simp add: word_less_nat_alt unat_of_nat)
  with Cons show ?case by (simp add: ascii_def)
qed (simp add: ascii_def)

lemma strip_cr_plain: "plain l \<Longrightarrow> strip_cr l = l"
  by (auto simp: strip_cr_def plain_def)

lemma lines_from_line:
  "plain l \<Longrightarrow> lines_from cur (l @ NL # rest) = strip_cr (rev cur @ l) # lines_from [] rest"
  by (induction l arbitrary: cur) (auto simp: plain_def)

lemma lines_line: "plain l \<Longrightarrow> lines (l @ NL # rest) = l # lines rest"
  by (simp add: lines_def lines_from_line strip_cr_plain)

lemma lines_runs:
  "\<forall>r \<in> set runs. plain r \<Longrightarrow> lines (concat (map (\<lambda>run. run @ [NL]) runs)) = runs"
proof (induction runs)
  case Nil
  then show ?case by (simp add: lines_def)
next
  case (Cons r runs)
  then show ?case by (simp add: lines_line)
qed

lemma manifest_body_lines:
  assumes "\<forall>r \<in> set runs. plain r"
  shows "lines (manifest_body seq runs) = HEADER # (''next_seq='' @ u64_to_string seq) # runs"
proof -
  have p: "plain (''next_seq='' @ u64_to_string seq)"
    unfolding plain_append using plain_literals(3) plain_digits by (simp only: u64_to_string_def)
  have "manifest_body seq runs = HEADER @ NL # (''next_seq='' @ u64_to_string seq)
      @ NL # concat (map (\<lambda>run. run @ [NL]) runs)"
    by (simp add: manifest_body_def)
  with lines_line [OF plain_literals(4)] lines_line [OF p] lines_runs [OF assms] show ?thesis
    by (simp only:)
qed

lemma manifest_parse_body:
  assumes "\<forall>r \<in> set runs. plain r \<and> r \<noteq> []"
  shows "manifest_parse (manifest_body seq runs) = Inr \<lparr>m_next_seq = seq, m_runs = runs\<rparr>"
proof -
  have "parse_u64 (u64_to_string seq) = Some seq"
    using parse_u64_digits [of "unat seq" 0] unsigned_less [of seq, where 'a = nat]
    by (simp add: u64_to_string_def)
  then have "Option.bind (strip_prefix ''next_seq='' (''next_seq='' @ u64_to_string seq)) parse_u64 = Some seq"
    by (simp only: strip_prefix_append Option.bind.simps)
  moreover have "filter (\<lambda>l. l \<noteq> []) runs = runs" using assms by (auto simp: filter_id_conv)
  moreover have "lines (manifest_body seq runs) = HEADER # (''next_seq='' @ u64_to_string seq) # runs"
    using assms by (intro manifest_body_lines) blast
  ultimately show ?thesis unfolding manifest_parse_def by (simp only: list.case if_False simp_thms option.case)
qed

definition seven_bit :: "string \<Rightarrow> bool" where
  "seven_bit s \<longleftrightarrow> (\<forall>c \<in> set s. of_char c < (128::nat))"

lemma seven_bit_simps:
  "seven_bit (a @ b) \<longleftrightarrow> seven_bit a \<and> seven_bit b" "seven_bit [NL]" "plain s \<Longrightarrow> seven_bit s"
  "seven_bit (NL # s) \<longleftrightarrow> seven_bit s" "seven_bit []"
  by (auto simp: seven_bit_def plain_def NL_def)

lemma manifest_body_utf8:
  assumes "\<forall>r \<in> set runs. plain r"
  shows "utf8_valid (ascii (manifest_body seq runs))"
proof -
  have "seven_bit (concat (map (\<lambda>run. run @ [NL]) runs))"
    using assms by (induction runs) (simp_all add: seven_bit_simps)
  then have "seven_bit (manifest_body seq runs)"
    unfolding manifest_body_def seven_bit_simps(1) u64_to_string_def
    using plain_literals(3,4) plain_digits seven_bit_simps(2,3) by blast
  then show ?thesis by (intro utf8_valid_ascii) (simp add: seven_bit_def)
qed

section \<open>Storing is atomic\<close>

abbreviation manifest_names :: "string \<Rightarrow> bool" where
  "manifest_names n \<equiv> n = MANIFEST \<or> n = MANIFEST_TMP"

definition manifest_file :: "u64 \<Rightarrow> string list \<Rightarrow> fnode" where
  "manifest_file seq runs = File (ascii (manifest_body seq runs)) True"

lemma manifest_names_differ [simp]: "MANIFEST \<noteq> MANIFEST_TMP" "MANIFEST_TMP \<noteq> MANIFEST"
  by (simp_all add: MANIFEST_def MANIFEST_TMP_def)

lemma manifest_store_keeps: "act_keeps (touches manifest_names) (manifest_store seq runs)"
  unfolding manifest_store_def
  by (intro act_keeps_then act_keeps_map_err touches_transp
      act_keeps_touches_mono [OF fs_create_keeps] act_keeps_touches_mono [OF fs_write_all_keeps]
      act_keeps_touches_mono [OF fs_sync_all_keeps] act_keeps_touches_mono [OF fs_rename_keeps]) auto

lemma manifest_store_ok:
  assumes "manifest_store seq runs d = (Inr x, d')"
  shows "fs_lookup d' MANIFEST = Some (manifest_file seq runs)"
  using assms unfolding manifest_store_def
  by (auto elim!: act_then_InrE dest!: fs_create_ok fs_write_all_ok fs_sync_all_ok fs_rename_ok
      simp: act_map_err_Inr_iff manifest_file_def)

text \<open>A failure at any step leaves the manifest as it was.\<close>

lemma fs_rename_fails: "act_fails (touches P) (fs_rename src dst)"
  by (auto simp: act_fails_def fs_rename_def split: option.splits)

lemma manifest_store_fails: "act_fails (touches (\<lambda>n. n = MANIFEST_TMP)) (manifest_store seq runs)"
  unfolding manifest_store_def
  by (intro act_fails_then act_fails_map_err act_keeps_map_err touches_transp fs_keeps fs_rename_fails)

lemma manifest_store_err:
  "manifest_store seq runs d = (Inl e, d') \<Longrightarrow> fs_lookup d' MANIFEST = fs_lookup d MANIFEST"
  by (drule act_failsD [OF manifest_store_fails]) (simp add: touches_def)

lemma manifest_load_file:
  assumes "fs_lookup d MANIFEST = Some (manifest_file seq runs)"
    and "\<forall>r \<in> set runs. plain r \<and> r \<noteq> []" and "manifest_load d = (Inr mo, d')"
  shows "mo = None \<or> mo = Some \<lparr>m_next_seq = seq, m_runs = runs\<rparr>"
proof -
  have "utf8_valid (ascii (manifest_body seq runs))"
    using assms(2) by (intro manifest_body_utf8) blast
  with assms manifest_parse_body [OF assms(2)] show ?thesis
    unfolding manifest_load_def fs_read_to_string_def
    by (auto elim!: act_then_InrE simp: act_map_err_Inr_iff manifest_file_def fs_exists_def
        split: if_splits option.splits dest!: fs_read_ok)
qed

lemma manifest_load_total:
  assumes "fault_free d" and "\<forall>r \<in> set runs. plain r \<and> r \<noteq> []"
    and "fs_lookup d MANIFEST = Some (manifest_file seq runs)"
  shows "\<exists>d'. manifest_load d = (Inr (Some \<lparr>m_next_seq = seq, m_runs = runs\<rparr>), d')"
proof -
  have "utf8_valid (ascii (manifest_body seq runs))"
    using assms(2) by (intro manifest_body_utf8) blast
  with assms manifest_parse_body [OF assms(2)] show ?thesis
    by (simp add: manifest_load_def fs_read_to_string_def fs_exists_def fs_read_def act_then_def
        act_map_err_def manifest_file_def fault_free_def)
qed

lemma manifest_store_total:
  assumes "fault_free d"
  shows "\<exists>d'. manifest_store seq runs d = (Inr (), d')"
  using assms
  by (simp add: manifest_store_def fs_create_def fs_write_all_def fs_sync_all_def fs_rename_def
      act_then_def act_map_err_def Let_def fault_free_def)

section \<open>Properties\<close>

text \<open>An empty directory on a disk without faults, for the concrete applications below.\<close>

definition blank :: fs where
  "blank = \<lparr>dir = [], plan = (\<lambda>n. None), clock = 0, undo = []\<rparr>"

lemma blank_store: "\<exists>d. manifest_store seq runs blank = (Inr (), d) \<and> fault_free d"
proof -
  have ff: "fault_free blank" by (simp add: blank_def fault_free_def)
  from manifest_store_total [OF this] obtain d where d: "manifest_store seq runs blank = (Inr (), d)" by blast
  with fault_free_keeps [OF manifest_store_keeps d ff] show ?thesis by blast
qed

text \<open>
  C29: Replacing the manifest is atomic. Whatever call fails on the way, and however much
  of a write reached the disk, the manifest under its own name is the old one; when the
  store reports success it is the new text, forced to stable storage. No other file but
  the temporary one is touched.
\<close>

theorem manifest_store_atomic:
  assumes "manifest_store seq runs d = (r, d')"
  shows "fs_lookup d' MANIFEST
      = (if r = Inr () then Some (File (ascii (manifest_body seq runs)) True) else fs_lookup d MANIFEST)
     \<and> (\<forall>n. n \<noteq> MANIFEST \<longrightarrow> n \<noteq> MANIFEST_TMP \<longrightarrow> fs_lookup d' n = fs_lookup d n)"
proof -
  have "touches manifest_names d d'" by (rule act_keepsD [OF manifest_store_keeps assms])
  then have "\<forall>n. n \<noteq> MANIFEST \<longrightarrow> n \<noteq> MANIFEST_TMP \<longrightarrow> fs_lookup d' n = fs_lookup d n" by (simp add: touches_def)
  with manifest_store_ok [of seq runs d "()" d'] manifest_store_err [of seq runs d _ d'] assms show ?thesis
    by (cases r) (simp_all add: manifest_file_def)
qed

theorem manifest_store_atomic_witness:
  "\<exists>d. manifest_store 3 [run_filename 2] blank = (Inr (), d)
     \<and> fs_lookup d MANIFEST = Some (File (ascii (manifest_body 3 [run_filename 2])) True)"
proof -
  from blank_store [of 3 "[run_filename 2]"] obtain d where d: "manifest_store 3 [run_filename 2] blank = (Inr (), d)"
    by blast
  with manifest_store_atomic [OF d] show ?thesis by auto
qed

text \<open>
  C32: What was stored is loaded. After a successful store of run file names the manifest
  module makes, loading from a disk without faults returns the sequence number and the
  names, in order.
\<close>

theorem manifest_roundtrip:
  assumes "manifest_store seq (map run_filename seqs) d = (Inr (), d')" and "fault_free d'"
  shows "fst (manifest_load d') = Inr (Some \<lparr>m_next_seq = seq, m_runs = map run_filename seqs\<rparr>)"
proof -
  have "\<forall>r \<in> set (map run_filename seqs). plain r \<and> r \<noteq> []" using plain_run_filename by auto
  from manifest_load_total [OF assms(2) this manifest_store_ok [OF assms(1)]] show ?thesis by auto
qed

theorem manifest_roundtrip_witness:
  "\<exists>d. fst (manifest_load d) = Inr (Some \<lparr>m_next_seq = 12, m_runs = map run_filename [11, 4]\<rparr>)"
proof -
  from blank_store [of 12 "map run_filename [11, 4]"] obtain d
    where "manifest_store 12 (map run_filename [11, 4]) blank = (Inr (), d)" "fault_free d" by blast
  from manifest_roundtrip [OF this] show ?thesis by blast
qed

text \<open>When the metadata of the manifest cannot be read, loading reports that there is no manifest.\<close>

lemma manifest_load_unreadable: "plan d (clock d) = Some failure \<Longrightarrow> manifest_load d = (Inr None, tick d)"
  by (cases failure) (simp add: manifest_load_def act_then_def fs_exists_def)

end
