(* ===== verification/Memtable.thy ===== *)
theory Memtable
  imports Errors BTree_Map
begin

text \<open>
  The in-memory write buffer (src/memtable.rs): the latest record per key, with the
  running byte count that decides when the buffer is flushed. The count is a
  \<^verbatim>\<open>usize\<close> and its arithmetic wraps.
\<close>

record memtable =
  entries :: "(bytes, record_v) btree"
  approx_size :: usize

definition memtable_new :: memtable where
  "memtable_new = \<lparr>entries = [], approx_size = 0\<rparr>"

definition memtable_insert :: "memtable \<Rightarrow> bytes \<Rightarrow> record_v \<Rightarrow> memtable" where
  "memtable_insert m key record =
     (let added = length key + value_len record in
      case btree_get (entries m) key of
        Some old \<Rightarrow>
          m\<lparr>approx_size := approx_size m - of_nat (value_len old) + of_nat (value_len record),
            entries := btree_insert key record (entries m)\<rparr>
      | None \<Rightarrow>
          m\<lparr>approx_size := approx_size m + of_nat added,
            entries := btree_insert key record (entries m)\<rparr>)"

definition memtable_apply :: "memtable \<Rightarrow> bytes \<Rightarrow> record_v \<Rightarrow> memtable" where
  "memtable_apply m key record = memtable_insert m key record"

definition memtable_get :: "memtable \<Rightarrow> bytes \<Rightarrow> record_v option" where
  "memtable_get m key = btree_get (entries m) key"

definition memtable_approx_size :: "memtable \<Rightarrow> usize" where
  "memtable_approx_size m = approx_size m"

definition memtable_is_empty :: "memtable \<Rightarrow> bool" where
  "memtable_is_empty m = (entries m = [])"

definition memtable_iter :: "memtable \<Rightarrow> entry list" where
  "memtable_iter m = entries m"

definition memtable_take :: "memtable \<Rightarrow> (bytes, record_v) btree \<times> memtable" where
  "memtable_take m = (entries m, \<lparr>entries = [], approx_size = 0\<rparr>)"

section \<open>Invariant: order and byte accounting\<close>

definition live_bytes :: "entry list \<Rightarrow> nat" where
  "live_bytes es = (\<Sum>(k, r) \<leftarrow> es. length k + value_len r)"

definition memtable_inv :: "memtable \<Rightarrow> bool" where
  "memtable_inv m \<longleftrightarrow> asc_keys (entries m) \<and> approx_size m = of_nat (live_bytes (entries m))"

lemma live_bytes_simps [simp]:
  "live_bytes [] = 0"
  "live_bytes ((k, r) # es) = length k + value_len r + live_bytes es"
  by (simp_all add: live_bytes_def)

text \<open>Replacing a key swaps its value cost; a fresh key adds key and value bytes.\<close>

lemma live_bytes_insert:
  assumes "asc_keys es"
  shows "live_bytes (btree_insert k r es) + (case map_of es k of None \<Rightarrow> 0 | Some old \<Rightarrow> value_len old)
           = live_bytes es + value_len r + (case map_of es k of None \<Rightarrow> length k | Some _ \<Rightarrow> 0)"
  using assms
proof (induction es)
  case Nil
  then show ?case by simp
next
  case (Cons e es)
  obtain k1 r1 where e: "e = (k1, r1)" by (cases e)
  show ?case
  proof (cases "k1 < k")
    case True
    with Cons e show ?thesis by (auto split: option.splits)
  next
    case False
    then have "k1 \<noteq> k \<Longrightarrow> map_of es k = None"
      using Cons.prems e by (intro map_of_less_head) (auto intro: less_trans)
    with False e show ?thesis by (auto split: option.splits)
  qed
qed

lemma memtable_new_inv: "memtable_inv memtable_new"
  by (simp add: memtable_inv_def memtable_new_def)

lemma memtable_apply_inv:
  assumes "memtable_inv m"
  shows "memtable_inv (memtable_apply m k r)"
proof -
  let ?es = "entries m"
  have asc: "asc_keys ?es" and size: "approx_size m = of_nat (live_bytes ?es)"
    using assms by (simp_all add: memtable_inv_def)
  show ?thesis
  proof (cases "map_of ?es k")
    case None
    then have "live_bytes (btree_insert k r ?es) = live_bytes ?es + (length k + value_len r)"
      using live_bytes_insert [OF asc, of k r] by simp
    with None asc size show ?thesis
      by (simp add: memtable_inv_def memtable_apply_def memtable_insert_def btree_get_def
          asc_btree_insert)
  next
    case (Some old)
    then have "live_bytes (btree_insert k r ?es) + value_len old = live_bytes ?es + value_len r"
      using live_bytes_insert [OF asc, of k r] by simp
    then have "of_nat (live_bytes (btree_insert k r ?es)) + of_nat (value_len old)
                 = (of_nat (live_bytes ?es) + of_nat (value_len r) :: usize)"
      by (metis of_nat_add)
    then have "of_nat (live_bytes (btree_insert k r ?es))
                 = (of_nat (live_bytes ?es) - of_nat (value_len old) + of_nat (value_len r) :: usize)"
      by (simp add: algebra_simps eq_diff_eq)
    with Some asc size show ?thesis
      by (simp add: memtable_inv_def memtable_apply_def memtable_insert_def btree_get_def
          asc_btree_insert)
  qed
qed

lemma entries_memtable_apply: "entries (memtable_apply m k r) = btree_insert k r (entries m)"
  by (simp add: memtable_apply_def memtable_insert_def split: option.splits)

lemma memtable_get_apply:
  "memtable_get (memtable_apply m k r) = (memtable_get m)(k \<mapsto> r)"
  by (simp add: fun_eq_iff memtable_get_def entries_memtable_apply btree_get_def
      map_of_btree_insert)

lemma memtable_apply_not_empty: "\<not> memtable_is_empty (memtable_apply m k r)"
  by (simp add: memtable_is_empty_def entries_memtable_apply)

lemma memtable_take_inv: "memtable_inv (snd (memtable_take m))"
  by (simp add: memtable_take_def memtable_inv_def)

text \<open>The buffer is an ordered map of records, with the byte count as a cached sum.\<close>

lemma memtable_size_exact:
  assumes "memtable_inv m" and "live_bytes (entries m) < usize_limit"
  shows "unat (memtable_approx_size m) = live_bytes (entries m)"
  using assms by (simp add: memtable_approx_size_def memtable_inv_def)

section \<open>Applying a group of writes\<close>

definition apply_all :: "entry list \<Rightarrow> memtable \<Rightarrow> memtable" where
  "apply_all ops m = fold (\<lambda>(k, r) m. memtable_apply m k r) ops m"

lemma apply_all_simps [simp]:
  "apply_all [] m = m"
  "apply_all ((k, r) # ops) m = apply_all ops (memtable_apply m k r)"
  by (simp_all add: apply_all_def)

lemma apply_all_inv: "memtable_inv m \<Longrightarrow> memtable_inv (apply_all ops m)"
  by (induction ops arbitrary: m) (auto simp: memtable_apply_inv)

lemma entries_apply_all:
  "entries (apply_all ops m) = fold (\<lambda>(k, r). btree_insert k r) ops (entries m)"
  by (induction ops arbitrary: m) (auto simp: entries_memtable_apply)

lemma memtable_get_apply_all:
  assumes "memtable_inv m"
  shows "memtable_get (apply_all ops m) = memtable_get m ++ map_of (rev ops)"
  using btree.get_fold_insert [of "entries m" ops] assms
  by (simp add: memtable_get_def [abs_def] entries_apply_all memtable_inv_def)

lemma apply_all_not_empty: "ops \<noteq> [] \<Longrightarrow> \<not> memtable_is_empty (apply_all ops m)"
proof (induction ops arbitrary: m rule: rev_induct)
  case Nil
  then show ?case by simp
next
  case (snoc op ops)
  then show ?case
    by (cases op) (simp add: apply_all_def memtable_apply_not_empty)
qed

section \<open>Properties\<close>

text \<open>
  C36: The buffer's accounting is exact. Applying a record keeps the keys strictly
  ascending and the byte counter equal to the key and value bytes held, a replaced value
  included; as long as these fit a machine word the counter is their number.
\<close>

theorem memtable_accounting:
  assumes "memtable_inv m" and "live_bytes (entries (memtable_apply m k r)) < usize_limit"
  shows "memtable_inv (memtable_apply m k r)
     \<and> unat (memtable_approx_size (memtable_apply m k r)) = (\<Sum>(k, r) \<leftarrow> entries (memtable_apply m k r). length k + value_len r)"
  using memtable_apply_inv [OF assms(1)] memtable_size_exact [OF memtable_apply_inv [OF assms(1)] assms(2)]
  by (simp add: live_bytes_def)

theorem memtable_accounting_witness:
  "unat (memtable_approx_size (memtable_apply (memtable_apply memtable_new [1] (Value [2, 3])) [1] Tombstone)) = 1"
proof -
  let ?m = "memtable_apply memtable_new [1] (Value [2, 3])"
  have e: "entries (memtable_apply ?m [1] Tombstone) = [([1], Tombstone)]"
    by (simp add: entries_memtable_apply memtable_new_def)
  have "memtable_inv ?m" by (intro memtable_apply_inv memtable_new_inv)
  from memtable_accounting [OF this, of "[1]" Tombstone] show ?thesis unfolding e by simp
qed

end
