(* ===== verification/Durability.thy ===== *)
theory Durability
  imports Memtable Bloom
begin

text \<open>
  The write-ahead log (src/durability.rs), in both builds: with the \<^verbatim>\<open>durability\<close> feature
  every group of writes is one encoded record appended to \<^verbatim>\<open>wal.log\<close>; without it every
  operation is a no-op. The log file itself is wal-db's; what the engine relies on is
  \<^verbatim>\<open>wal_laws\<close>: a new log is empty, an append adds one record at the end, a failed append
  adds at most that record, reopening a log keeps its records, and opening one forces its
  file to the medium.
\<close>

definition WAL_FILE :: string where
  "WAL_FILE = ''wal.log''"

definition LOG_TAG_VALUE :: byte where
  "LOG_TAG_VALUE = 0"

definition LOG_TAG_TOMBSTONE :: byte where
  "LOG_TAG_TOMBSTONE = 1"

definition MAX_LEN :: u32 where
  "MAX_LEN = push_bit 30 1"

section \<open>Records of the log\<close>

definition log_op :: "bytes \<Rightarrow> entry \<Rightarrow> bytes" where
  "log_op buf e =
     (case e of (key, record) \<Rightarrow>
      let buf = buf @ u32_to_le_bytes (of_nat (length key)) @ key in
      case record of
        Value val \<Rightarrow> buf @ [LOG_TAG_VALUE] @ u32_to_le_bytes (of_nat (length val)) @ val
      | Tombstone \<Rightarrow> buf @ [LOG_TAG_TOMBSTONE] @ u32_to_le_bytes 0)"

definition log_encode :: "entry list \<Rightarrow> bytes" where
  "log_encode ops = fold (\<lambda>e buf. log_op buf e) ops (u32_to_le_bytes (of_nat (length ops)))"

definition log_read_u8 :: "bytes \<Rightarrow> nat \<Rightarrow> (byte \<times> nat) res" where
  "log_read_u8 bs pos =
     (if pos < length bs then Inr (bs ! pos, pos + 1) else Inl (corruption ''log record truncated''))"

definition log_read_u32 :: "bytes \<Rightarrow> nat \<Rightarrow> (u32 \<times> nat) res" where
  "log_read_u32 bs pos =
     and_then (read_exact_at (corruption ''log record overflow'') (corruption ''log record truncated'') bs pos 4)
       (\<lambda>(arr, pos). Inr (u32_from_le_bytes arr, pos))"

definition log_read_bytes :: "bytes \<Rightarrow> nat \<Rightarrow> nat \<Rightarrow> (bytes \<times> nat) res" where
  "log_read_bytes bs pos n =
     read_exact_at (corruption ''log record overflow'') (corruption ''log record truncated'') bs pos n"

text \<open>The body of the loop of \<^verbatim>\<open>decode\<close>: one operation at \<^verbatim>\<open>pos\<close>.\<close>

definition log_op_at :: "bytes \<Rightarrow> nat \<Rightarrow> (bytes \<times> record_v \<times> nat) res" where
  "log_op_at bs pos =
     and_then (log_read_u32 bs pos) (\<lambda>(key_len, pos).
     if MAX_LEN < key_len then Inl (corruption ''log key length exceeds maximum'') else
     and_then (log_read_bytes bs pos (unat key_len)) (\<lambda>(key, pos).
     and_then (log_read_u8 bs pos) (\<lambda>(tag, pos).
     and_then (log_read_u32 bs pos) (\<lambda>(value_len, pos).
     if MAX_LEN < value_len then Inl (corruption ''log value length exceeds maximum'') else
     if tag = LOG_TAG_VALUE then
       and_then (log_read_bytes bs pos (unat value_len)) (\<lambda>(val, pos). Inr (key, Value val, pos))
     else if tag = LOG_TAG_TOMBSTONE then
       (if value_len \<noteq> 0 then Inl (corruption ''log tombstone with non-zero value length'')
        else Inr (key, Tombstone, pos))
     else Inl (corruption ''unknown log record tag'')))))"

fun log_ops :: "bytes \<Rightarrow> nat \<Rightarrow> nat \<Rightarrow> entry list \<Rightarrow> (entry list \<times> nat) res" where
  "log_ops bs 0 pos ops = Inr (ops, pos)"
| "log_ops bs (Suc n) pos ops =
     (case log_op_at bs pos of
        Inl e \<Rightarrow> Inl e
      | Inr (key, record, pos) \<Rightarrow> log_ops bs n pos (ops @ [(key, record)]))"

definition log_decode :: "bytes \<Rightarrow> entry list res" where
  "log_decode bs =
     and_then (log_read_u32 bs 0) (\<lambda>(count, pos).
     and_then (log_ops bs (unat count) pos []) (\<lambda>(ops, pos).
     if pos \<noteq> length bs then Inl (corruption ''trailing bytes in log record'') else Inr ops))"

section \<open>The log file\<close>

definition wal_err :: "string \<Rightarrow> string \<Rightarrow> error" where
  "wal_err context msg = io context (Other msg)"

text \<open>\<^verbatim>\<open>Wal::open\<close>, \<^verbatim>\<open>append_and_sync\<close> and \<^verbatim>\<open>iter\<close> on the file of the log.\<close>

definition wal_open_file :: "'f externals \<Rightarrow> string \<Rightarrow> (string, unit) fsact" where
  "wal_open_file X path d =
     (case plan d (clock d) of
        Some (e, m) \<Rightarrow> (Inl (wal_msg X e), tick d)
      | None \<Rightarrow>
          (case wal_open X (map_option fdata (fs_lookup d path)) of
             Inl msg \<Rightarrow> (Inl msg, tick d)
           | Inr bs \<Rightarrow> (Inr (), set_file path (File bs (wal_open_syncs X)) (note_new path (tick d)))))"

definition wal_append_and_sync :: "'f externals \<Rightarrow> string \<Rightarrow> bytes \<Rightarrow> (string, unit) fsact" where
  "wal_append_and_sync X path rec d =
     (let cur = (case fs_lookup d path of None \<Rightarrow> [] | Some f \<Rightarrow> fdata f) in
      case plan d (clock d) of
        Some (e, m) \<Rightarrow> (Inl (wal_msg X e), set_file path (File (wal_torn X cur rec m) False) (tick d))
      | None \<Rightarrow> (Inr (), set_file path (File (wal_append X cur rec) True) (tick d)))"

definition wal_iter_file :: "'f externals \<Rightarrow> string \<Rightarrow> (string, (string + bytes) list) fsact" where
  "wal_iter_file X path d =
     (case plan d (clock d) of
        Some (e, m) \<Rightarrow> (Inl (wal_msg X e), tick d)
      | None \<Rightarrow> (wal_iter X (case fs_lookup d path of None \<Rightarrow> [] | Some f \<Rightarrow> fdata f), tick d))"

text \<open>The handle: \<^verbatim>\<open>wal\<close> is \<^verbatim>\<open>Some\<close> exactly when \<^verbatim>\<open>wal_is_open\<close>.\<close>

record durability =
  wal_is_open :: bool
  wal_path :: string

text \<open>\<^verbatim>\<open>mod disabled\<close>: the build without the feature keeps no log.\<close>

definition disabled_open :: "(error, durability) fsact" where
  "disabled_open = act_ok \<lparr>wal_is_open = False, wal_path = WAL_FILE\<rparr>"

definition disabled_log_one :: "bytes \<Rightarrow> record_v \<Rightarrow> (error, unit) fsact" where
  "disabled_log_one key record = act_ok ()"

definition disabled_log_batch :: "entry list \<Rightarrow> (error, unit) fsact" where
  "disabled_log_batch ops = act_ok ()"

definition disabled_rotate :: "durability \<Rightarrow> fs \<Rightarrow> unit res \<times> durability \<times> fs" where
  "disabled_rotate du d = (Inr (), du, d)"

definition disabled_replay :: "memtable \<Rightarrow> (error, memtable) fsact" where
  "disabled_replay mem = act_ok mem"

lemmas durability_disabled [simp] =
  disabled_open_def disabled_log_one_def disabled_log_batch_def disabled_rotate_def disabled_replay_def

definition durability_open :: "'f externals \<Rightarrow> (error, durability) fsact" where
  "durability_open X =
     (if \<not> durability_on X then disabled_open
      else act_then (act_map_err (wal_err ''open write-ahead log'') (wal_open_file X WAL_FILE)) (\<lambda>_.
           act_ok \<lparr>wal_is_open = True, wal_path = WAL_FILE\<rparr>))"

definition wal_handle :: "durability \<Rightarrow> string res" where
  "wal_handle du = (if wal_is_open du then Inr (wal_path du)
                    else Inl (corruption ''write-ahead log not open''))"

definition log_append :: "'f externals \<Rightarrow> durability \<Rightarrow> bytes \<Rightarrow> (error, unit) fsact" where
  "log_append X du bs =
     act_then (act_res (wal_handle du)) (\<lambda>path.
     act_map_err (wal_err ''append to write-ahead log'') (wal_append_and_sync X path bs))"

definition log_one :: "'f externals \<Rightarrow> durability \<Rightarrow> bytes \<Rightarrow> record_v \<Rightarrow> (error, unit) fsact" where
  "log_one X du key record =
     (if \<not> durability_on X then disabled_log_one key record else log_append X du (log_encode [(key, record)]))"

definition log_batch :: "'f externals \<Rightarrow> durability \<Rightarrow> entry list \<Rightarrow> (error, unit) fsact" where
  "log_batch X du ops =
     (if \<not> durability_on X then disabled_log_batch ops else log_append X du (log_encode ops))"

text \<open>
  \<^verbatim>\<open>rotate\<close> closes the handle first, so an error on the way leaves the log closed; the
  second component is the handle in the state the call leaves it.
\<close>

definition rotate_log :: "'f externals \<Rightarrow> durability \<Rightarrow> fs \<Rightarrow> unit res \<times> durability \<times> fs" where
  "rotate_log X du d =
     (if \<not> durability_on X then disabled_rotate du d
      else let du = du\<lparr>wal_is_open := False\<rparr> in
        case fs_remove_file (wal_path du) d of
          (r, d) \<Rightarrow>
            if r \<noteq> Inr () \<and> r \<noteq> Inl NotFound
            then (Inl (io ''rotate write-ahead log'' (case r of Inl e \<Rightarrow> e | Inr _ \<Rightarrow> NotFound)), du, d)
            else (case wal_open_file X (wal_path du) d of
                    (Inl msg, d) \<Rightarrow> (Inl (wal_err ''reopen write-ahead log'' msg), du, d)
                  | (Inr _, d) \<Rightarrow> (Inr (), du\<lparr>wal_is_open := True\<rparr>, d)))"

fun replay_records :: "(string + bytes) list \<Rightarrow> memtable \<Rightarrow> memtable res" where
  "replay_records [] mem = Inr mem"
| "replay_records (entry # rest) mem =
     (case entry of
        Inl msg \<Rightarrow> Inl (wal_err ''read log record'' msg)
      | Inr data \<Rightarrow> and_then (log_decode data) (\<lambda>ops. replay_records rest (apply_all ops mem)))"

definition replay_log :: "'f externals \<Rightarrow> durability \<Rightarrow> memtable \<Rightarrow> (error, memtable) fsact" where
  "replay_log X du mem =
     (if \<not> durability_on X then disabled_replay mem
      else act_then (act_res (wal_handle du)) (\<lambda>path.
           act_then (act_map_err (wal_err ''read write-ahead log'') (wal_iter_file X path)) (\<lambda>es.
           act_res (replay_records es mem))))"

section \<open>A log record reads back\<close>

lemma log_tags: "LOG_TAG_VALUE = TAG_VALUE" "LOG_TAG_TOMBSTONE = TAG_TOMBSTONE" "MAX_LEN = MAX_RECORD_LEN"
  by (simp_all add: LOG_TAG_VALUE_def LOG_TAG_TOMBSTONE_def MAX_LEN_def TAG_VALUE_def TAG_TOMBSTONE_def
      MAX_RECORD_LEN_def)

text \<open>The operations of a record have the layout of the entries of a data block.\<close>

lemma log_encode_enc: "log_encode ops = u32_to_le_bytes (of_nat (length ops)) @ enc_block ops"
proof -
  have "log_op buf e = buf @ enc_entry e" for buf e
    by (cases e; cases "snd e") (simp_all add: log_op_def enc_entry_def log_tags)
  then have "fold (\<lambda>e buf. log_op buf e) ops buf = buf @ enc_block ops" for buf
    by (induction ops arbitrary: buf) simp_all
  then show ?thesis by (simp add: log_encode_def)
qed

lemma read_exact_at_errors:
  "read_exact_at ov tr bs pos n = Inr x \<longleftrightarrow> read_exact_at ov' tr' bs pos n = Inr x"
  by (auto simp: read_exact_at_def split: if_splits)

lemma log_readers:
  "log_read_u32 bs pos = Inr x \<longleftrightarrow> read_u32_at bs pos = Inr x"
  "log_read_bytes bs pos n = Inr y \<longleftrightarrow> read_bytes_at bs pos n = Inr y"
  "log_read_u8 bs pos = Inr z \<longleftrightarrow> read_u8_at bs pos = Inr z"
  unfolding log_read_u32_def read_u32_at_def log_read_bytes_def read_bytes_at_def
    log_read_u8_def read_u8_at_def read_array_at_def and_then_Inr_iff
  by (simp_all add: read_exact_at_errors [of "corruption ''log record overflow''" "corruption ''log record truncated''"
        _ _ _ _ "corruption ''record extent overflows''" "corruption ''record truncated''"] split: if_splits)

text \<open>The two decoders accept the same bytes, with different error texts.\<close>

lemma log_op_at_iff: "log_op_at bs pos = Inr x \<longleftrightarrow> decode_entry_at bs pos = Inr x"
  unfolding log_op_at_def decode_entry_at_def log_tags
  by (auto simp: and_then_Inr_iff log_readers split: if_splits)

lemma log_ops_enc:
  assumes "drop pos bs = enc_block es @ post" and "\<forall>e \<in> set es. fits e" and "length bs < usize_limit"
  shows "log_ops bs (length es) pos acc = Inr (acc @ es, pos + length (enc_block es))"
  using assms
proof (induction es arbitrary: pos acc)
  case (Cons e es)
  obtain k r where e: "e = (k, r)" by (cases e)
  have d: "drop pos bs = enc_entry (k, r) @ enc_block es @ post" using Cons.prems(1) e by simp
  have "log_op_at bs pos = Inr (k, r, pos + length (enc_entry (k, r)))"
    using Cons.prems(2,3) e by (simp add: log_op_at_iff decode_entry_at_enc [OF d])
  moreover have "log_ops bs (length es) (pos + length (enc_entry (k, r))) (acc @ [(k, r)])
      = Inr ((acc @ [(k, r)]) @ es, pos + length (enc_entry (k, r)) + length (enc_block es))"
    using Cons.prems drop_step [OF d] by (intro Cons.IH) simp_all
  ultimately show ?case by (simp add: e add.assoc)
qed simp

definition loggable :: "entry list \<Rightarrow> bool" where
  "loggable ops \<longleftrightarrow> (\<forall>e \<in> set ops. fits e) \<and> length ops < 2 ^ 32
     \<and> 4 + length (enc_block ops) < usize_limit"

lemma log_roundtrip:
  assumes "loggable ops"
  shows "log_decode (log_encode ops) = Inr ops"
proof -
  let ?n = "of_nat (length ops) :: u32" and ?bs = "log_encode ops"
  have bs: "?bs = u32_to_le_bytes ?n @ enc_block ops" by (rule log_encode_enc)
  have l: "length ?bs < usize_limit" using assms by (simp add: bs loggable_def)
  have d0: "drop 0 ?bs = u32_to_le_bytes ?n @ enc_block ops" by (simp add: bs)
  have r0: "log_read_u32 ?bs 0 = Inr (?n, 4)"
    using read_u32_at_enc [OF d0 _ l] by (simp add: log_readers)
  have n: "unat ?n = length ops" using assms by (simp add: loggable_def)
  have "log_ops ?bs (length ops) 4 [] = Inr (ops, 4 + length (enc_block ops))"
    using log_ops_enc [of 4 ?bs ops "[]" "[]"] assms l by (simp add: bs loggable_def)
  with r0 n show ?thesis by (simp add: log_decode_def bs)
qed

section \<open>The contract of the log file\<close>

definition holds_records :: "'f externals \<Rightarrow> bytes \<Rightarrow> bytes list \<Rightarrow> bool" where
  "holds_records X bs recs \<longleftrightarrow> wal_iter X bs = Inr (map Inr recs)"

definition wal_laws :: "'f externals \<Rightarrow> bool" where
  "wal_laws X \<longleftrightarrow> wal_open_syncs X
     \<and> (\<exists>bs. wal_open X None = Inr bs \<and> holds_records X bs [])
     \<and> (\<forall>bs recs. holds_records X bs recs \<longrightarrow>
          (\<exists>bs'. wal_open X (Some bs) = Inr bs' \<and> holds_records X bs' recs)
          \<and> (\<forall>r. holds_records X (wal_append X bs r) (recs @ [r]))
          \<and> (\<forall>r m. holds_records X (wal_torn X bs r m) recs \<or> holds_records X (wal_torn X bs r m) (recs @ [r])))"

text \<open>\<^verbatim>\<open>logs X d groups\<close>: the log on the disk holds these groups of writes, in this order.\<close>

definition logs :: "'f externals \<Rightarrow> fs \<Rightarrow> entry list list \<Rightarrow> bool" where
  "logs X d groups \<longleftrightarrow> (\<exists>f. fs_lookup d WAL_FILE = Some f \<and> holds_records X (fdata f) (map log_encode groups))"

lemma replay_records_groups:
  "\<forall>g \<in> set groups. loggable g \<Longrightarrow>
     replay_records (map Inr (map log_encode groups)) mem = Inr (apply_all (concat groups) mem)"
  by (induction groups arbitrary: mem) (simp_all add: log_roundtrip apply_all_def)

lemma wal_append_file:
  assumes w: "wal_laws X" and l: "logs X d groups"
  shows "wal_append_and_sync X WAL_FILE (log_encode ops) d = (Inr x, d') \<Longrightarrow> logs X d' (groups @ [ops])"
    and "wal_append_and_sync X WAL_FILE (log_encode ops) d = (Inl e, d') \<Longrightarrow>
           logs X d' groups \<or> logs X d' (groups @ [ops])"
proof -
  obtain f where f: "fs_lookup d WAL_FILE = Some f" and h: "holds_records X (fdata f) (map log_encode groups)"
    using l by (auto simp: logs_def)
  have law: "\<forall>r. holds_records X (wal_append X (fdata f) r) (map log_encode groups @ [r])"
    "\<forall>r m. holds_records X (wal_torn X (fdata f) r m) (map log_encode groups)
       \<or> holds_records X (wal_torn X (fdata f) r m) (map log_encode groups @ [r])"
    using w h unfolding wal_laws_def by blast+
  show "logs X d' (groups @ [ops])"
    if "wal_append_and_sync X WAL_FILE (log_encode ops) d = (Inr x, d')"
    using that f law(1) by (auto simp: wal_append_and_sync_def Let_def logs_def split: option.splits)
  show "logs X d' groups \<or> logs X d' (groups @ [ops])"
    if "wal_append_and_sync X WAL_FILE (log_encode ops) d = (Inl e, d')"
    using that f law(2) by (fastforce simp: wal_append_and_sync_def Let_def logs_def split: option.splits)
qed

text \<open>The handle is in order: open when the feature is on, and on the log file.\<close>

definition wal_ready :: "'f externals \<Rightarrow> durability \<Rightarrow> bool" where
  "wal_ready X du \<longleftrightarrow> wal_path du = WAL_FILE \<and> (durability_on X \<longrightarrow> wal_is_open du)"

lemma log_batch_ok:
  assumes "wal_laws X" and "durability_on X" and "logs X d groups" and "wal_path du = WAL_FILE"
  shows "log_batch X du ops d = (Inr x, d') \<Longrightarrow> logs X d' (groups @ [ops])"
    and "log_batch X du ops d = (Inl e, d') \<Longrightarrow> logs X d' groups \<or> logs X d' (groups @ [ops])"
  using wal_append_file [OF assms(1,3), of ops] assms(2-4)
  by (auto simp: log_batch_def log_append_def wal_handle_def act_then_def act_map_err_def
      split: if_splits prod.splits sum.splits)

lemma log_one_batch: "log_one X du k r = log_batch X du [(k, r)]"
  by (simp add: log_one_def log_batch_def)

lemma wal_append_keeps: "act_keeps (touches (\<lambda>n. n = p)) (wal_append_and_sync X p bs)"
  by (simp add: act_keeps_def wal_append_and_sync_def Let_def touches_def split: option.splits)

lemma log_batch_keeps:
  "wal_path du = WAL_FILE \<Longrightarrow> act_keeps (touches (\<lambda>n. n = WAL_FILE)) (log_batch X du ops)"
  using wal_append_keeps [of WAL_FILE X]
  by (simp add: log_batch_def log_append_def wal_handle_def act_keeps_def act_then_def)

lemma wal_open_keeps: "act_keeps (touches (\<lambda>n. n = p)) (wal_open_file X p)"
  by (simp add: act_keeps_def wal_open_file_def touches_def split: option.splits sum.splits)

lemma durability_open_keeps: "act_keeps (touches (\<lambda>n. n = WAL_FILE)) (durability_open X)"
  unfolding durability_open_def by (auto intro!: act_keeps_then act_keeps_map_err wal_open_keeps)

lemma wal_open_logs:
  assumes "wal_laws X" and "wal_open_file X WAL_FILE d = (Inr x, d')"
  shows "fs_lookup d WAL_FILE = None \<Longrightarrow> logs X d' []" and "logs X d groups \<Longrightarrow> logs X d' groups"
proof -
  show "logs X d' []" if "fs_lookup d WAL_FILE = None"
    using assms that unfolding wal_laws_def
    by (auto simp: wal_open_file_def logs_def split: option.splits sum.splits)
  show "logs X d' groups" if "logs X d groups"
  proof -
    from that obtain f where f: "fs_lookup d WAL_FILE = Some f" "holds_records X (fdata f) (map log_encode groups)"
      by (auto simp: logs_def)
    then obtain bs where "wal_open X (Some (fdata f)) = Inr bs" "holds_records X bs (map log_encode groups)"
      using assms(1) unfolding wal_laws_def by blast
    with f(1) assms(2) show ?thesis by (auto simp: wal_open_file_def logs_def split: option.splits)
  qed
qed

text \<open>Rotation empties the log; the only other outcome is that the log is still complete.\<close>

lemma rotate_log_ok:
  assumes w: "wal_laws X" and on: "durability_on X" and p: "wal_path du = WAL_FILE" and l: "logs X d groups"
    and r: "rotate_log X du d = (Inr x, du', d')"
  shows "(logs X d' [] \<or> logs X d' groups) \<and> wal_ready X du'"
proof -
  obtain r1 d1 where rm: "fs_remove_file WAL_FILE d = (r1, d1)" by fastforce
  with r on p have r1: "r1 = Inr () \<or> r1 = Inl NotFound"
    and op: "\<exists>y. wal_open_file X WAL_FILE d1 = (Inr y, d')" and du': "du' = du\<lparr>wal_is_open := True\<rparr>"
    by (auto simp: rotate_log_def Let_def split: if_splits sum.splits prod.splits)
  have "fs_lookup d1 WAL_FILE = None \<or> logs X d1 groups"
    using rm l by (auto simp: fs_remove_file_def logs_def split: option.splits)
  with wal_open_logs [OF w] op du' p show ?thesis by (auto simp: wal_ready_def)
qed

lemma rotate_log_touches:
  assumes "wal_path du = WAL_FILE" and "rotate_log X du d = (r, du', d')"
  shows "touches (\<lambda>n. n = WAL_FILE) d d' \<and> wal_path du' = WAL_FILE"
proof -
  obtain r1 d1 where rm: "fs_remove_file WAL_FILE d = (r1, d1)" by fastforce
  obtain r2 d2 where op: "wal_open_file X WAL_FILE d1 = (r2, d2)" by fastforce
  have "touches (\<lambda>n. n = WAL_FILE) d d1" "touches (\<lambda>n. n = WAL_FILE) d1 d2"
    using act_keepsD [OF fs_remove_file_keeps rm] act_keepsD [OF wal_open_keeps op] .
  with assms rm op touches_trans show ?thesis
    by (auto simp: rotate_log_def Let_def split: if_splits sum.splits)
qed

lemma replay_log_ok:
  assumes on: "durability_on X" and l: "logs X d groups" and g: "\<forall>g \<in> set groups. loggable g"
    and p: "wal_path du = WAL_FILE" and r: "replay_log X du mem d = (Inr mem', d')"
  shows "mem' = apply_all (concat groups) mem"
proof -
  obtain f where f: "fs_lookup d WAL_FILE = Some f" and h: "wal_iter X (fdata f) = Inr (map Inr (map log_encode groups))"
    using l by (auto simp: logs_def holds_records_def)
  with on p r replay_records_groups [OF g, of mem] show ?thesis
    by (auto elim!: act_then_InrE simp: replay_log_def wal_handle_def act_map_err_Inr_iff wal_iter_file_def
        split: if_splits option.splits)
qed

lemma wal_iter_keeps: "act_keeps (touches (\<lambda>n. False)) (wal_iter_file X p)"
  by (simp add: act_keeps_def wal_iter_file_def touches_def split: option.splits)

lemma replay_log_keeps: "act_keeps (touches (\<lambda>n. False)) (replay_log X du mem)"
  unfolding replay_log_def
  by (auto intro!: act_keeps_then act_keeps_map_err wal_iter_keeps)

section \<open>Properties\<close>

text \<open>
  C33: A log record reads back: decoding the encoding of a group of writes returns the
  group, in order, when every length is within the limit the reader enforces.
\<close>

theorem log_record_roundtrip:
  assumes "\<forall>(k, r) \<in> set ops. length k \<le> unat MAX_LEN \<and> value_len r \<le> unat MAX_LEN"
    and "length ops < 2 ^ 32" and "length (log_encode ops) < usize_limit"
  shows "log_decode (log_encode ops) = Inr ops"
proof -
  have "unat MAX_LEN = 2 ^ 30" by (simp add: log_tags(3) MAX_RECORD_LEN_def)
  with assms have "loggable ops" by (auto simp: loggable_def fits_def log_encode_enc)
  then show ?thesis by (rule log_roundtrip)
qed

theorem log_record_roundtrip_witness:
  "log_decode (log_encode [([1], Value [2]), ([], Tombstone)]) = Inr [([1], Value [2]), ([], Tombstone)]"
  by (rule log_record_roundtrip) (simp_all add: log_encode_enc length_enc_entry log_tags MAX_RECORD_LEN_def)

end
