(* ===== verification/Batch_Config.thy ===== *)
theory Batch_Config
  imports Errors
begin

text \<open>
  Three small public types: the grouped write (src/batch.rs), the tuning parameters
  (src/config.rs) and the materialised range iterator (src/scan.rs).
\<close>

section \<open>Grouped writes\<close>

datatype op = Put bytes | Delete

record batch =
  ops :: "(bytes \<times> op) list"

definition batch_new :: batch where
  "batch_new = \<lparr>ops = []\<rparr>"

definition batch_put :: "batch \<Rightarrow> bytes \<Rightarrow> bytes \<Rightarrow> batch" where
  "batch_put b key val = b\<lparr>ops := ops b @ [(key, Put val)]\<rparr>"

definition batch_delete :: "batch \<Rightarrow> bytes \<Rightarrow> batch" where
  "batch_delete b key = b\<lparr>ops := ops b @ [(key, Delete)]\<rparr>"

definition batch_len :: "batch \<Rightarrow> nat" where
  "batch_len b = length (ops b)"

definition batch_is_empty :: "batch \<Rightarrow> bool" where
  "batch_is_empty b = (ops b = [])"

definition into_ops :: "batch \<Rightarrow> (bytes \<times> op) list" where
  "into_ops b = ops b"

text \<open>\<^verbatim>\<open>Engine::write\<close> turns every queued operation into the record it stores.\<close>

fun record_of_op :: "op \<Rightarrow> record_v" where
  "record_of_op (Put val) = Value val"
| "record_of_op Delete = Tombstone"

definition batch_records :: "batch \<Rightarrow> entry list" where
  "batch_records b = map (\<lambda>(key, op). (key, record_of_op op)) (into_ops b)"

lemma batch_records_simps [simp]:
  "batch_records batch_new = []"
  "batch_records (batch_put b k v) = batch_records b @ [(k, Value v)]"
  "batch_records (batch_delete b k) = batch_records b @ [(k, Tombstone)]"
  by (simp_all add: batch_records_def into_ops_def batch_new_def batch_put_def batch_delete_def)

lemma batch_len_records: "batch_len b = length (batch_records b)"
  by (simp add: batch_len_def batch_records_def into_ops_def)

section \<open>Configuration\<close>

definition DEFAULT_MEMTABLE_CAPACITY :: usize where
  "DEFAULT_MEMTABLE_CAPACITY = 4 * 1024 * 1024"

definition DEFAULT_COMPACTION_TRIGGER :: usize where
  "DEFAULT_COMPACTION_TRIGGER = 4"

definition DEFAULT_BLOCK_CACHE_CAPACITY :: usize where
  "DEFAULT_BLOCK_CACHE_CAPACITY = 8 * 1024 * 1024"

record lsm_config =
  cfg_memtable_capacity :: usize
  cfg_compaction_trigger :: usize
  cfg_block_cache_capacity :: usize

definition config_default :: lsm_config where
  "config_default =
     \<lparr>cfg_memtable_capacity = DEFAULT_MEMTABLE_CAPACITY,
      cfg_compaction_trigger = DEFAULT_COMPACTION_TRIGGER,
      cfg_block_cache_capacity = DEFAULT_BLOCK_CACHE_CAPACITY\<rparr>"

definition config_new :: lsm_config where
  "config_new = config_default"

definition memtable_capacity :: "lsm_config \<Rightarrow> usize \<Rightarrow> lsm_config" where
  "memtable_capacity c n = c\<lparr>cfg_memtable_capacity := n\<rparr>"

definition memtable_capacity_bytes :: "lsm_config \<Rightarrow> usize" where
  "memtable_capacity_bytes c = cfg_memtable_capacity c"

definition compaction_trigger :: "lsm_config \<Rightarrow> usize \<Rightarrow> lsm_config" where
  "compaction_trigger c runs = c\<lparr>cfg_compaction_trigger := max runs 2\<rparr>"

definition compaction_trigger_runs :: "lsm_config \<Rightarrow> usize" where
  "compaction_trigger_runs c = cfg_compaction_trigger c"

definition block_cache_capacity :: "lsm_config \<Rightarrow> usize \<Rightarrow> lsm_config" where
  "block_cache_capacity c n = c\<lparr>cfg_block_cache_capacity := n\<rparr>"

definition block_cache_capacity_bytes :: "lsm_config \<Rightarrow> usize" where
  "block_cache_capacity_bytes c = cfg_block_cache_capacity c"

text \<open>
  The fields are private, so every configuration a caller can hold is built from the
  default by the three setters; the trigger it carries is never below two.
\<close>

inductive built_config :: "lsm_config \<Rightarrow> bool" where
  default: "built_config config_default"
| set_memtable: "built_config c \<Longrightarrow> built_config (memtable_capacity c n)"
| set_trigger: "built_config c \<Longrightarrow> built_config (compaction_trigger c n)"
| set_cache: "built_config c \<Longrightarrow> built_config (block_cache_capacity c n)"

lemma built_config_trigger: "built_config c \<Longrightarrow> 2 \<le> compaction_trigger_runs c"
  by (induction rule: built_config.induct)
    (auto simp: compaction_trigger_runs_def config_default_def DEFAULT_COMPACTION_TRIGGER_def
      memtable_capacity_def compaction_trigger_def block_cache_capacity_def)

section \<open>The range iterator\<close>

text \<open>
  \<^verbatim>\<open>Scan\<close> owns the materialised pairs and hands them out from either end, as
  \<^verbatim>\<open>vec::IntoIter\<close> does.
\<close>

record scan_iter =
  inner :: "(bytes \<times> bytes) list"

definition scan_new :: "(bytes \<times> bytes) list \<Rightarrow> scan_iter" where
  "scan_new es = \<lparr>inner = es\<rparr>"

definition scan_next :: "scan_iter \<Rightarrow> (bytes \<times> bytes) option \<times> scan_iter" where
  "scan_next s = (case inner s of [] \<Rightarrow> (None, s) | x # xs \<Rightarrow> (Some x, s\<lparr>inner := xs\<rparr>))"

definition scan_next_back :: "scan_iter \<Rightarrow> (bytes \<times> bytes) option \<times> scan_iter" where
  "scan_next_back s =
     (if inner s = [] then (None, s)
      else (Some (last (inner s)), s\<lparr>inner := butlast (inner s)\<rparr>))"

definition scan_size_hint :: "scan_iter \<Rightarrow> nat \<times> nat option" where
  "scan_size_hint s = (length (inner s), Some (length (inner s)))"

definition scan_len :: "scan_iter \<Rightarrow> nat" where
  "scan_len s = length (inner s)"

text \<open>A caller draws from the front (\<^verbatim>\<open>True\<close>) or the back (\<^verbatim>\<open>False\<close>) in any order.\<close>

fun scan_draw :: "bool list \<Rightarrow> scan_iter \<Rightarrow> (bytes \<times> bytes) list \<times> (bytes \<times> bytes) list \<times> scan_iter"
where
  "scan_draw [] s = ([], [], s)"
| "scan_draw (True # ds) s =
     (case scan_next s of
        (None, s') \<Rightarrow> scan_draw ds s'
      | (Some x, s') \<Rightarrow> (case scan_draw ds s' of (xs1, xs2, t) \<Rightarrow> (x # xs1, xs2, t)))"
| "scan_draw (False # ds) s =
     (case scan_next_back s of
        (None, s') \<Rightarrow> scan_draw ds s'
      | (Some x, s') \<Rightarrow> (case scan_draw ds s' of (xs1, xs2, t) \<Rightarrow> (xs1, x # xs2, t)))"

lemma scan_draw_partition:
  "scan_draw ds s = (xs1, xs2, t) \<Longrightarrow> inner s = xs1 @ inner t @ rev xs2"
proof (induction ds arbitrary: s xs1 xs2 t)
  case Nil
  then show ?case by simp
next
  case (Cons d ds)
  show ?case
  proof (cases "inner s = []")
    case True
    with Cons show ?thesis by (cases d) (auto simp: scan_next_def scan_next_back_def)
  next
    case False
    let ?rest = "if d then s\<lparr>inner := tl (inner s)\<rparr> else s\<lparr>inner := butlast (inner s)\<rparr>"
    obtain f b u where u: "scan_draw ds ?rest = (f, b, u)" by (cases "scan_draw ds ?rest")
    then have "inner ?rest = f @ inner u @ rev b" by (rule Cons.IH)
    moreover have "(xs1, xs2, t) = (if d then (hd (inner s) # f, b, u) else (f, last (inner s) # b, u))"
      using Cons.prems False u
      by (cases d) (auto simp: scan_next_def scan_next_back_def split: list.splits)
    moreover have "inner s = (if d then hd (inner s) # inner ?rest else inner ?rest @ [last (inner s)])"
      using False by simp
    ultimately show ?thesis by (cases d) auto
  qed
qed

text \<open>
  Every draw hands out a pair as long as one is left, from the end it asks for.
\<close>

lemma scan_draw_count:
  "scan_draw ds s = (xs1, xs2, t) \<Longrightarrow> length xs1 + length xs2 = min (length ds) (scan_len s)
     \<and> (length ds \<le> scan_len s \<longrightarrow> length xs1 = count_list ds True)"
proof (induction ds arbitrary: s xs1 xs2 t)
  case (Cons d ds)
  show ?case
  proof (cases "inner s = []")
    case True
    with Cons show ?thesis by (cases d) (force simp: scan_next_def scan_next_back_def scan_len_def)+
  next
    case False
    let ?rest = "if d then s\<lparr>inner := tl (inner s)\<rparr> else s\<lparr>inner := butlast (inner s)\<rparr>"
    obtain f b u where u: "scan_draw ds ?rest = (f, b, u)" by (cases "scan_draw ds ?rest")
    note ih = Cons.IH [OF u]
    have "(xs1, xs2, t) = (if d then (hd (inner s) # f, b, u) else (f, last (inner s) # b, u))"
      using Cons.prems False u
      by (cases d) (auto simp: scan_next_def scan_next_back_def split: list.splits)
    moreover have "scan_len s = Suc (scan_len ?rest)" using False by (simp add: scan_len_def)
    ultimately show ?thesis using ih by (cases d) auto
  qed
qed simp

section \<open>Properties\<close>

text \<open>
  C37: However a configuration is built from the default with the setters, the number of
  runs that triggers a compaction is at least two, so a triggered compaction has work.
\<close>

theorem compaction_trigger_at_least_two:
  assumes "built_config c"
  shows "2 \<le> unat (compaction_trigger_runs c)"
  using built_config_trigger [OF assms] by (simp add: word_le_nat_alt)

theorem compaction_trigger_at_least_two_witness:
  "2 \<le> unat (compaction_trigger_runs (compaction_trigger (memtable_capacity config_default 64) 0))"
  by (intro compaction_trigger_at_least_two built_config.intros)

end
