(* ===== verification/Engine.thy ===== *)
theory Engine
  imports Merge Manifest Durability Batch_Config
begin

text \<open>
  The storage engine (src/db.rs). The state behind the locks is one record: the buffer,
  the live runs newest first, the log handle, the counters, the compaction flags, the
  block cache, and the directory. Every method is an action on it, with each early return
  as a branch that leaves the state as it stands at that point.

  A shared handle on a run is identified by the run's id, which is unique per open file;
  \<^verbatim>\<open>Arc::ptr_eq\<close> compares these. The background thread and the snapshots readers hold are
  treated in the theory of the compactor; here a compaction runs to its end, so the
  last handle on a replaced run is the one it drops.
\<close>

section \<open>State\<close>

record compaction_state =
  pending :: bool
  running :: bool
  shutdown :: bool
  generation :: u64

definition compaction_default :: compaction_state where
  "compaction_default = \<lparr>pending = False, running = False, shutdown = False, generation = 0\<rparr>"

record 'f engine =
  eng_config :: lsm_config
  mem :: memtable
  runs :: "'f sstable list"
  dur :: durability
  next_seq :: u64
  compacting :: bool
  compaction :: compaction_state
  last_error :: "error option"
  cache :: block_cache
  disk :: fs
  next_run_id :: u64

type_synonym ('f, 'a) engact = "('f engine, error, 'a) act"

section \<open>Ranges\<close>

datatype bound = Included bytes | Excluded bytes | Unbounded

record range =
  start_bound :: bound
  end_bound :: bound

datatype pos = Below | In | Above

definition position :: "range \<Rightarrow> bytes \<Rightarrow> pos" where
  "position rng key =
     (let below = (case start_bound rng of
                     Included s \<Rightarrow> key < s | Excluded s \<Rightarrow> key \<le> s | Unbounded \<Rightarrow> False) in
      if below then Below
      else let above = (case end_bound rng of
                          Included e \<Rightarrow> e < key | Excluded e \<Rightarrow> e \<le> key | Unbounded \<Rightarrow> False) in
           if above then Above else In)"

section \<open>Flushing\<close>

definition signal_compaction :: "'f engine \<Rightarrow> 'f engine" where
  "signal_compaction e = e\<lparr>compaction := (compaction e)\<lparr>pending := True\<rparr>\<rparr>"

text \<open>
  The tail that \<^verbatim>\<open>flush_locked\<close> and \<^verbatim>\<open>compact_inner\<close> share: finish the file, rename it
  into place, write the sidecar, open the run and attach its filter and the cache.
\<close>

definition seal_run ::
    "'f externals \<Rightarrow> string \<Rightarrow> string \<Rightarrow> string \<Rightarrow> u64 \<Rightarrow> writer \<times> 'f option \<Rightarrow> (error, 'f sstable) fsact" where
  "seal_run X context tmp final_path rid = (\<lambda>(w, fo).
     act_then (writer_finish X w) (\<lambda>_.
     act_then (act_map_err (io context) (fs_rename tmp final_path)) (\<lambda>_.
     let filter = filter_finish fo in
     act_then (case filter of None \<Rightarrow> act_ok () | Some f \<Rightarrow> write_sidecar X f final_path) (\<lambda>_.
     act_then (sstable_open X rid final_path) (\<lambda>table.
     act_ok (attach_cache (attach_filter table filter)))))))"

definition flush_run :: "'f externals \<Rightarrow> string \<Rightarrow> u64 \<Rightarrow> entry list \<Rightarrow> (error, 'f sstable) fsact" where
  "flush_run X name rid es =
     (let tmp = name @ ''.tmp'' in
      act_then (writer_create tmp) (\<lambda>w.
      act_then (push_entries X (w, builder X (length es)) es)
        (seal_run X ''install flushed run'' tmp name rid)))"

definition flush_locked :: "'f externals \<Rightarrow> ('f, unit) engact" where
  "flush_locked X e =
     (case memtable_take (mem e) of (es, m) \<Rightarrow>
      let seq = next_seq e;
          e = e\<lparr>mem := m, next_seq := seq + 1\<rparr> in
      case flush_run X (run_filename seq) (next_run_id e) es (disk e) of
        (Inl err, d) \<Rightarrow> (Inl err, e\<lparr>disk := d\<rparr>)
      | (Inr table, d) \<Rightarrow>
          let new_runs = table # runs e;
              names = map file_name new_runs;
              e = e\<lparr>next_run_id := next_run_id e + 1\<rparr> in
          (case manifest_store (next_seq e) names d of
             (Inl err, d) \<Rightarrow> (Inl err, e\<lparr>disk := d\<rparr>)
           | (Inr _, d) \<Rightarrow>
               let e = e\<lparr>runs := new_runs\<rparr> in
               (case rotate_log X (dur e) d of
                  (Inl err, du, d) \<Rightarrow> (Inl err, e\<lparr>dur := du, disk := d\<rparr>)
                | (Inr _, du, d) \<Rightarrow>
                    let e = e\<lparr>dur := du, disk := d\<rparr> in
                    (Inr (), if unat (compaction_trigger_runs (eng_config e)) \<le> length (runs e)
                             then signal_compaction e else e))))"

definition maybe_flush :: "'f externals \<Rightarrow> ('f, unit) engact" where
  "maybe_flush X e =
     (if \<not> memtable_is_empty (mem e)
         \<and> memtable_capacity_bytes (eng_config e) \<le> memtable_approx_size (mem e)
      then flush_locked X e else (Inr (), e))"

definition engine_flush :: "'f externals \<Rightarrow> ('f, unit) engact" where
  "engine_flush X e = (if memtable_is_empty (mem e) then (Inr (), e) else flush_locked X e)"

section \<open>Writes\<close>

definition engine_put :: "'f externals \<Rightarrow> bytes \<Rightarrow> bytes \<Rightarrow> ('f, unit) engact" where
  "engine_put X key val e =
     (let record = Value val in
      case log_one X (dur e) key record (disk e) of
        (Inl err, d) \<Rightarrow> (Inl err, e\<lparr>disk := d\<rparr>)
      | (Inr _, d) \<Rightarrow> maybe_flush X (e\<lparr>disk := d, mem := memtable_apply (mem e) key record\<rparr>))"

definition engine_delete :: "'f externals \<Rightarrow> bytes \<Rightarrow> ('f, unit) engact" where
  "engine_delete X key e =
     (let record = Tombstone in
      case log_one X (dur e) key record (disk e) of
        (Inl err, d) \<Rightarrow> (Inl err, e\<lparr>disk := d\<rparr>)
      | (Inr _, d) \<Rightarrow> maybe_flush X (e\<lparr>disk := d, mem := memtable_apply (mem e) key record\<rparr>))"

definition engine_write :: "'f externals \<Rightarrow> batch \<Rightarrow> ('f, unit) engact" where
  "engine_write X b e =
     (let ops = batch_records b in
      case log_batch X (dur e) ops (disk e) of
        (Inl err, d) \<Rightarrow> (Inl err, e\<lparr>disk := d\<rparr>)
      | (Inr _, d) \<Rightarrow> maybe_flush X (e\<lparr>disk := d, mem := apply_all ops (mem e)\<rparr>))"

section \<open>Reads\<close>

fun get_runs ::
    "'f externals \<Rightarrow> bytes \<Rightarrow> 'f sstable list \<Rightarrow> block_cache \<Rightarrow> bytes option res \<times> block_cache" where
  "get_runs X key [] c = (Inr None, c)"
| "get_runs X key (run # rest) c =
     (if \<not> might_contain X run key then get_runs X key rest c
      else case sstable_lookup X run key c of
             (Inl err, c) \<Rightarrow> (Inl err, c)
           | (Inr (Some (Value val)), c) \<Rightarrow> (Inr (Some val), c)
           | (Inr (Some Tombstone), c) \<Rightarrow> (Inr None, c)
           | (Inr None, c) \<Rightarrow> get_runs X key rest c)"

definition engine_get :: "'f externals \<Rightarrow> bytes \<Rightarrow> ('f, bytes option) engact" where
  "engine_get X key e =
     (case memtable_get (mem e) key of
        Some (Value val) \<Rightarrow> (Inr (Some val), e)
      | Some Tombstone \<Rightarrow> (Inr None, e)
      | None \<Rightarrow> (case get_runs X key (runs e) (cache e) of (r, c) \<Rightarrow> (r, e\<lparr>cache := c\<rparr>)))"

function scan_loop ::
    "'f externals \<Rightarrow> range \<Rightarrow> 'f source list \<Rightarrow> (bytes \<times> bytes) list \<Rightarrow> (bytes \<times> bytes) list res" where
  "scan_loop X rng sources out =
     (case merge_next X sources of
        (None, sources) \<Rightarrow> Inr out
      | (Some (Inl err), sources) \<Rightarrow> Inl err
      | (Some (Inr kv), sources) \<Rightarrow>
          (case position rng (fst kv) of
             Below \<Rightarrow> scan_loop X rng sources out
           | In \<Rightarrow> scan_loop X rng sources (out @ [kv])
           | Above \<Rightarrow> Inr out))"
  by pat_completeness auto
termination
  by (relation "measure (\<lambda>(X, rng, sources, out). src.weight X sources)")
    (auto dest: merge_next_weight [OF sym])

declare scan_loop.simps [simp del]

definition engine_scan :: "'f externals \<Rightarrow> range \<Rightarrow> 'f engine \<Rightarrow> scan_iter res" where
  "engine_scan X rng e =
     (let m = filter (\<lambda>e. position rng (fst e) = In) (memtable_iter (mem e));
          cursors = map cursor_new (runs e) in
      and_then (scan_loop X rng (merge_new m cursors) []) (\<lambda>out. Inr (scan_new out)))"

section \<open>Compaction\<close>

text \<open>The merge loop of \<^verbatim>\<open>compact_inner\<close>: push every live entry, adding its key to the filter.\<close>

function compact_loop ::
    "'f externals \<Rightarrow> 'f source list \<Rightarrow> writer \<times> 'f option \<Rightarrow> (error, writer \<times> 'f option) fsact" where
  "compact_loop X sources wfo d =
     (case merge_next X sources of
        (None, sources) \<Rightarrow> (Inr wfo, d)
      | (Some (Inl err), sources) \<Rightarrow> (Inl err, d)
      | (Some (Inr kv), sources) \<Rightarrow>
          (case writer_push X (fst wfo) (fst kv) (Value (snd kv)) d of
             (Inl err, d) \<Rightarrow> (Inl err, d)
           | (Inr w, d) \<Rightarrow> compact_loop X sources (w, filter_add X (snd wfo) (fst kv)) d))"
  by pat_completeness auto
termination
  by (relation "measure (\<lambda>(X, sources, wfo, d). src.weight X sources)")
    (auto dest: merge_next_weight [OF sym])

declare compact_loop.simps [simp del]

definition saturating_add :: "nat \<Rightarrow> nat \<Rightarrow> nat" where
  "saturating_add a b = min (a + b) (usize_limit - 1)"

definition compact_capacity :: "'f sstable list \<Rightarrow> nat" where
  "compact_capacity inputs = fold (\<lambda>r acc. saturating_add acc (unat (entry_count r))) inputs 0"

definition compact_run :: "'f externals \<Rightarrow> string \<Rightarrow> u64 \<Rightarrow> 'f sstable list \<Rightarrow> (error, 'f sstable) fsact" where
  "compact_run X name rid inputs =
     (let tmp = name @ ''.tmp'' in
      act_then (writer_create tmp) (\<lambda>w.
      act_then (compact_loop X (merge_new [] (map cursor_new inputs)) (w, builder X (compact_capacity inputs)))
        (seal_run X ''install compacted run'' tmp name rid)))"

text \<open>
  The phases of \<^verbatim>\<open>compact_inner\<close>, as the locks separate them: the snapshot under the
  read lock, the merge with no lock held, the swap under the write lock.
\<close>

definition compact_snapshot :: "'f engine \<Rightarrow> 'f sstable list option" where
  "compact_snapshot e = (if length (runs e) < 2 then None else Some (runs e))"

definition compact_merge :: "'f externals \<Rightarrow> 'f sstable list \<Rightarrow> ('f, 'f sstable) engact" where
  "compact_merge X inputs e =
     (let seq = next_seq e;
          e = e\<lparr>next_seq := seq + 1\<rparr> in
      case compact_run X (run_filename seq) (next_run_id e) inputs (disk e) of
        (Inl err, d) \<Rightarrow> (Inl err, e\<lparr>disk := d\<rparr>)
      | (Inr output, d) \<Rightarrow> (Inr output, e\<lparr>disk := d, next_run_id := next_run_id e + 1\<rparr>))"

definition ptr_eq :: "'f sstable \<Rightarrow> 'f sstable \<Rightarrow> bool" where
  "ptr_eq a b \<longleftrightarrow> run_id a = run_id b"

definition compact_swap :: "'f externals \<Rightarrow> 'f sstable list \<Rightarrow> 'f sstable \<Rightarrow> ('f, unit) engact" where
  "compact_swap X inputs output e =
     (let new_runs = filter (\<lambda>r. \<not> (\<exists>i \<in> set inputs. ptr_eq i r)) (runs e) @ [output];
          names = map file_name new_runs in
      case manifest_store (next_seq e) names (disk e) of
        (Inl err, d) \<Rightarrow> (Inl err, e\<lparr>disk := d\<rparr>)
      | (Inr _, d) \<Rightarrow> (Inr (), e\<lparr>disk := d, runs := new_runs\<rparr>))"

text \<open>Dropping the last handles: every input was marked obsolete by the swap.\<close>

definition drop_inputs :: "'f sstable list \<Rightarrow> 'f engine \<Rightarrow> 'f engine" where
  "drop_inputs inputs e = e\<lparr>disk := fold (\<lambda>t d. sstable_drop (mark_obsolete t) d) inputs (disk e)\<rparr>"

definition compact_inner :: "'f externals \<Rightarrow> ('f, unit) engact" where
  "compact_inner X e =
     (case compact_snapshot e of
        None \<Rightarrow> (Inr (), e)
      | Some inputs \<Rightarrow>
          (case compact_merge X inputs e of
             (Inl err, e) \<Rightarrow> (Inl err, e)
           | (Inr output, e) \<Rightarrow>
               (case compact_swap X inputs output e of
                  (Inl err, e) \<Rightarrow> (Inl err, e)
                | (Inr _, e) \<Rightarrow> (Inr (), drop_inputs inputs e))))"

definition compact_once :: "'f externals \<Rightarrow> ('f, unit) engact" where
  "compact_once X e =
     (if compacting e then (Inr (), e)
      else case compact_inner X (e\<lparr>compacting := True\<rparr>) of
             (r, e) \<Rightarrow> (r, e\<lparr>compacting := False\<rparr>))"

section \<open>Opening\<close>

fun open_runs ::
    "'f externals \<Rightarrow> string list \<Rightarrow> u64 \<Rightarrow> 'f sstable list \<Rightarrow> (error, 'f sstable list \<times> u64) fsact" where
  "open_runs X [] rid acc = act_ok (acc, rid)"
| "open_runs X (name # names) rid acc =
     act_then (fs_exists name) (\<lambda>found.
     if \<not> found then act_err (corruption ''manifest references a missing run'')
     else act_then (sstable_open X rid name) (\<lambda>table.
          act_then (filter_load X name) (\<lambda>fo.
          open_runs X names (rid + 1) (acc @ [attach_cache (attach_filter table fo)]))))"

definition ends_with :: "string \<Rightarrow> string \<Rightarrow> bool" where
  "ends_with suffix s \<longleftrightarrow> strip_suffix suffix s \<noteq> None"

definition reclaim_entry :: "string list \<Rightarrow> string \<Rightarrow> u64 \<Rightarrow> (error, u64) fsact" where
  "reclaim_entry live name seq =
     act_then (act_map_err (io ''read directory entry'') (fs_call (Inr ()))) (\<lambda>_.
     if ends_with ''.tmp'' name then
       act_then (act_map_err (io ''remove temporary file'') (fs_remove_file name)) (\<lambda>_. act_ok seq)
     else case strip_suffix ''.bloom'' name of
       Some run \<Rightarrow>
         if run \<notin> set live
         then act_then (act_map_err (io ''remove orphan bloom sidecar'') (fs_remove_file name)) (\<lambda>_. act_ok seq)
         else act_ok seq
     | None \<Rightarrow>
         (case seq_of name of
            None \<Rightarrow> act_ok seq
          | Some s \<Rightarrow>
              let seq = max seq (s + 1) in
              if name \<notin> set live
              then act_then (act_map_err (io ''remove orphan run'') (fs_remove_file name)) (\<lambda>_. act_ok seq)
              else act_ok seq))"

fun reclaim :: "string list \<Rightarrow> string list \<Rightarrow> u64 \<Rightarrow> (error, u64) fsact" where
  "reclaim live [] seq = act_ok seq"
| "reclaim live (name # names) seq = act_then (reclaim_entry live name seq) (\<lambda>seq. reclaim live names seq)"

text \<open>
  \<^verbatim>\<open>open_with\<close> on the directory \<^verbatim>\<open>d\<close>; \<^verbatim>\<open>rid\<close> is the process-wide run id counter.
  The engine is built and the recovered writes are checkpointed before the compactor
  thread is started.
\<close>

definition open_files ::
    "'f externals \<Rightarrow> lsm_config \<Rightarrow> u64 \<Rightarrow> (error, 'f engine) fsact" where
  "open_files X config rid d =
     act_then (act_map_err (io ''create database directory'') (fs_call (Inr ()))) (\<lambda>_.
     act_then manifest_load (\<lambda>manifest.
     let run_names = (case manifest of Some m \<Rightarrow> m_runs m | None \<Rightarrow> []);
         manifest_seq = (case manifest of Some m \<Rightarrow> m_next_seq m | None \<Rightarrow> 0) in
     act_then (open_runs X run_names rid []) (\<lambda>(tables, rid).
     act_then (act_map_err (io ''scan database directory'') fs_read_dir) (\<lambda>names.
     act_then (reclaim run_names names manifest_seq) (\<lambda>seq.
     act_then (durability_open X) (\<lambda>du.
     act_then (replay_log X du memtable_new) (\<lambda>m.
     (\<lambda>d. (Inr \<lparr>eng_config = config, mem = m, runs = tables, dur = du, next_seq = seq, compacting = False,
                compaction = compaction_default, last_error = None,
                cache = cache_new (block_cache_capacity_bytes config), disk = d, next_run_id = rid\<rparr>, d)))))))))
     d"

definition open_with ::
    "'f externals \<Rightarrow> lsm_config \<Rightarrow> u64 \<Rightarrow> fs \<Rightarrow> 'f engine res \<times> fs" where
  "open_with X config rid d =
     (case open_files X config rid d of
        (Inl err, d) \<Rightarrow> (Inl err, d)
      | (Inr e, d) \<Rightarrow>
          (case engine_flush X e of
             (Inl err, e) \<Rightarrow> (Inl err, disk e)
           | (Inr _, e) \<Rightarrow>
               (case fs_call (Inr ()) (disk e) of
                  (Inl err, d) \<Rightarrow> (Inl (io ''spawn compaction thread'' err), d)
                | (Inr _, d) \<Rightarrow> (Inr (e\<lparr>disk := d\<rparr>), d))))"

definition lsm_open :: "'f externals \<Rightarrow> u64 \<Rightarrow> fs \<Rightarrow> 'f engine res \<times> fs" where
  "lsm_open X rid d = open_with X config_default rid d"

text \<open>The methods of the handle, which hand on to the engine it shares with the compactor.\<close>

definition lsm_put :: "'f externals \<Rightarrow> bytes \<Rightarrow> bytes \<Rightarrow> ('f, unit) engact" where
  "lsm_put X key value = engine_put X key value"

definition lsm_delete :: "'f externals \<Rightarrow> bytes \<Rightarrow> ('f, unit) engact" where
  "lsm_delete X key = engine_delete X key"

definition lsm_write :: "'f externals \<Rightarrow> batch \<Rightarrow> ('f, unit) engact" where
  "lsm_write X b = engine_write X b"

definition lsm_get :: "'f externals \<Rightarrow> bytes \<Rightarrow> ('f, bytes option) engact" where
  "lsm_get X key = engine_get X key"

definition lsm_scan :: "'f externals \<Rightarrow> range \<Rightarrow> 'f engine \<Rightarrow> scan_iter res" where
  "lsm_scan X rng e = engine_scan X rng e"

definition lsm_flush :: "'f externals \<Rightarrow> ('f, unit) engact" where
  "lsm_flush X = engine_flush X"

text \<open>\<^verbatim>\<open>Drop for Lsm\<close>: shut the compactor down; the buffer is not flushed.\<close>

definition lsm_drop :: "'f engine \<Rightarrow> fs" where
  "lsm_drop e = disk (e\<lparr>compaction := (compaction e)\<lparr>shutdown := True\<rparr>\<rparr>)"

end
