(* ===== verification/Engine_Read.thy ===== *)
theory Engine_Read
  imports Engine
begin

text \<open>
  What reads return. The abstract state of the store is \<^verbatim>\<open>view\<close>, a map from keys to
  values: the newest record over the buffer and the runs, newest first, with tombstones
  read as absence. \<^verbatim>\<open>get\<close> is lookup in that map and \<^verbatim>\<open>scan\<close> is its graph on the range
  in ascending key order; neither changes it.
\<close>

definition run_entries :: "'f externals \<Rightarrow> 'f sstable \<Rightarrow> entry list" where
  "run_entries X t = fst (blocks_view X t 0)"

definition view :: "'f externals \<Rightarrow> 'f engine \<Rightarrow> bytes \<Rightarrow> bytes option" where
  "view X e = resolve (memtable_iter (mem e) # map (run_entries X) (runs e))"

text \<open>
  A good run: its file decodes as written and its filter, if any, admits all its keys.
  The block count bound is where the 32-bit block number of the cache key is exact.
\<close>

definition good_run :: "'f externals \<Rightarrow> 'f sstable \<Rightarrow> bool" where
  "good_run X t \<longleftrightarrow> (\<exists>bss. table_of X t bss \<and> length bss \<le> 2 ^ 32
     \<and> covers X (tbl_filter t) (fst ` set (concat bss)))"

definition reads_inv :: "'f externals \<Rightarrow> 'f engine \<Rightarrow> bool" where
  "reads_inv X e \<longleftrightarrow> memtable_inv (mem e) \<and> (\<forall>t \<in> set (runs e). good_run X t)
     \<and> ids_unique (set (runs e)) (next_run_id e)
     \<and> cache_coherent X (set (runs e)) (next_run_id e) (cache e)"

lemma table_entries: "table_of X t bss \<Longrightarrow> run_entries X t = concat bss"
  using blocks_view_table [of X t bss 0] by (simp add: run_entries_def)

lemma good_run_asc: "good_run X t \<Longrightarrow> asc_keys (run_entries X t)"
  by (auto simp: good_run_def table_entries) (auto simp: table_of_def readable_def)

lemma resolve_Cons:
  "resolve (es # ess) k = (case map_of es k of None \<Rightarrow> resolve ess k | Some r \<Rightarrow> visible r)"
  by (simp add: resolve_def split: option.splits)

section \<open>get\<close>

lemma might_contain_keys:
  assumes "good_run X t" and "\<not> might_contain X t k"
  shows "map_of (run_entries X t) k = None"
proof -
  from assms(1) obtain bss where t: "table_of X t bss"
    and c: "covers X (tbl_filter t) (fst ` set (concat bss))" by (auto simp: good_run_def)
  from assms(2) obtain f where "tbl_filter t = Some f" "\<not> bf_contains X f k"
    by (auto simp: might_contain_def filter_might_contain_def split: option.splits if_splits)
  with c have "k \<notin> fst ` set (concat bss)" by (auto simp: covers_def)
  then show ?thesis by (simp add: table_entries [OF t] map_of_eq_None_iff)
qed

lemma lookup_good:
  assumes "good_run X t" and "cache_coherent X T n c" and "t \<in> T" "ids_unique T n"
  shows "fst (sstable_lookup X t k c) = Inr (map_of (run_entries X t) k)
     \<and> cache_coherent X T n (snd (sstable_lookup X t k c))"
proof -
  from assms(1) obtain bss where t: "table_of X t bss" and "length bss \<le> 2 ^ 32"
    by (auto simp: good_run_def)
  with sstable_lookup_correct [OF t assms(2-4)] show ?thesis by (simp add: table_entries [OF t])
qed

lemma get_runs_correct:
  assumes "\<forall>t \<in> set rs. good_run X t" and "set rs \<subseteq> T" and "ids_unique T n" and "cache_coherent X T n c"
  shows "fst (get_runs X k rs c) = Inr (resolve (map (run_entries X) rs) k)
     \<and> cache_coherent X T n (snd (get_runs X k rs c))"
  using assms
proof (induction rs arbitrary: c)
  case Nil
  then show ?case by (simp add: resolve_def)
next
  case (Cons t rs)
  have t: "good_run X t" "t \<in> T" using Cons.prems by simp_all
  show ?case
  proof (cases "might_contain X t k")
    case False
    with Cons might_contain_keys [OF t(1) False] show ?thesis by (simp add: resolve_Cons)
  next
    case True
    obtain r c1 where lk: "sstable_lookup X t k c = (r, c1)" by fastforce
    with lookup_good [OF t(1) Cons.prems(4) t(2) Cons.prems(3), of k]
    have r: "r = Inr (map_of (run_entries X t) k)" and c1: "cache_coherent X T n c1" by simp_all
    show ?thesis
    proof (cases "map_of (run_entries X t) k")
      case None
      with True lk r c1 Cons show ?thesis by (simp add: resolve_Cons)
    next
      case (Some rec)
      with True lk r c1 show ?thesis by (cases rec) (simp_all add: resolve_Cons)
    qed
  qed
qed

lemma get_correct:
  assumes "reads_inv X e"
  shows "fst (engine_get X k e) = Inr (view X e k)"
    and "reads_inv X (snd (engine_get X k e)) \<and> view X (snd (engine_get X k e)) = view X e"
proof -
  have mg: "memtable_get (mem e) k = map_of (memtable_iter (mem e)) k"
    by (simp add: memtable_get_def memtable_iter_def btree_get_def)
  have gr: "fst (get_runs X k (runs e) (cache e)) = Inr (resolve (map (run_entries X) (runs e)) k)"
    "cache_coherent X (set (runs e)) (next_run_id e) (snd (get_runs X k (runs e) (cache e)))"
    using get_runs_correct [of "runs e" X "set (runs e)"] assms by (auto simp: reads_inv_def)
  show "fst (engine_get X k e) = Inr (view X e k)"
    using gr(1) mg by (auto simp: engine_get_def view_def resolve_Cons split: option.splits record_v.splits prod.splits)
  have "snd (engine_get X k e) = e \<or> snd (engine_get X k e) = e\<lparr>cache := snd (get_runs X k (runs e) (cache e))\<rparr>"
    by (simp add: engine_get_def split: option.splits record_v.splits prod.splits)
  with gr(2) assms show "reads_inv X (snd (engine_get X k e)) \<and> view X (snd (engine_get X k e)) = view X e"
    by (auto simp: reads_inv_def view_def)
qed

section \<open>scan\<close>

text \<open>The loop of \<^verbatim>\<open>scan\<close> over the drained merge.\<close>

fun scan_items ::
    "range \<Rightarrow> (bytes \<times> bytes) list \<Rightarrow> error option \<Rightarrow> (bytes \<times> bytes) list \<Rightarrow> (bytes \<times> bytes) list res" where
  "scan_items rng [] err out = (case err of None \<Rightarrow> Inr out | Some e \<Rightarrow> Inl e)"
| "scan_items rng (kv # es) err out =
     (case position rng (fst kv) of
        Below \<Rightarrow> scan_items rng es err out
      | In \<Rightarrow> scan_items rng es err (out @ [kv])
      | Above \<Rightarrow> Inr out)"

lemma scan_loop_items:
  "scan_loop X rng sources out = scan_items rng (fst (merge_items X sources)) (snd (merge_items X sources)) out"
proof (induction X rng sources out rule: scan_loop.induct)
  case (1 X rng sources out)
  note step = scan_loop.simps [of X rng sources out] and items = merge_items.simps [of X sources]
  obtain r s' where nx: "merge_next X sources = (r, s')" by fastforce
  consider "r = None" | e where "r = Some (Inl e)" | kv where "r = Some (Inr kv)"
    by (metis option.exhaust sum.exhaust)
  then show ?case
  proof cases
    case (3 kv)
    with "1.IH" nx show ?thesis by (cases "position rng (fst kv)") (simp_all add: step items)
  qed (use nx in \<open>simp_all add: step items\<close>)
qed

text \<open>A key is in a range if it satisfies both bounds.\<close>

definition in_range :: "range \<Rightarrow> bytes \<Rightarrow> bool" where
  "in_range rng k \<longleftrightarrow>
     (case start_bound rng of Included s \<Rightarrow> s \<le> k | Excluded s \<Rightarrow> s < k | Unbounded \<Rightarrow> True)
     \<and> (case end_bound rng of Included e \<Rightarrow> k \<le> e | Excluded e \<Rightarrow> k < e | Unbounded \<Rightarrow> True)"

lemma position_In: "position rng k = In \<longleftrightarrow> in_range rng k"
  by (auto simp: position_def in_range_def Let_def not_le not_less split: bound.splits)

text \<open>Above the range nothing further qualifies: stopping there loses nothing.\<close>

lemma position_above: "position rng k = Above \<Longrightarrow> k < k' \<Longrightarrow> position rng k' = Above"
  by (cases "start_bound rng"; cases "end_bound rng")
    (auto simp: position_def Let_def not_less not_le split: if_splits intro: less_trans less_le_trans le_less_trans less_imp_le)

lemma scan_items_asc:
  "asc_keys es \<Longrightarrow> scan_items rng es None out = Inr (out @ filter (\<lambda>kv. position rng (fst kv) = In) es)"
proof (induction es arbitrary: out)
  case (Cons kv es)
  show ?case
  proof (cases "position rng (fst kv)")
    case Above
    with Cons.prems position_above [OF Above] have "\<forall>x \<in> set es. position rng (fst x) \<noteq> In" by auto
    with Above show ?thesis by (simp add: filter_empty_conv)
  qed (use Cons in simp_all)
qed simp

lemma scan_items_unbounded: "end_bound rng = Unbounded \<Longrightarrow> scan_items rng es (Some err) out = Inl err"
proof (induction es arbitrary: out)
  case (Cons kv es)
  then show ?case by (simp add: position_def split: bound.splits pos.splits)
qed simp

lemma views_merge_new:
  "views X (merge_new m (map cursor_new rs)) = m # map (\<lambda>t. cursor_view X (cursor_new t)) rs"
  by (simp add: views_def merge_new_def)

lemma cursor_new_entries: "cursor_view X (cursor_new t) = run_entries X t"
  by (simp add: cursor_view_def cursor_new_def run_entries_def)

lemma merge_new_ready:
  assumes "asc_keys m" and "\<forall>t \<in> set rs. good_run X t"
  shows "src.ready X (merge_new m (map cursor_new rs))"
    and "\<forall>s \<in> set (merge_new m (map cursor_new rs)). source_fault X s = None"
    and "views X (merge_new m (map cursor_new rs)) = m # map (run_entries X) rs"
proof -
  show "src.ready X (merge_new m (map cursor_new rs))"
    using assms good_run_asc
    by (auto simp: src.ready_def merge_new_def cursor_inv_new cursor_new_entries)
  show "\<forall>s \<in> set (merge_new m (map cursor_new rs)). source_fault X s = None"
    using assms(2) cursor_view_table(2) by (fastforce simp: merge_new_def good_run_def)
  show "views X (merge_new m (map cursor_new rs)) = m # map (run_entries X) rs"
    by (simp add: views_merge_new cursor_new_entries)
qed

lemma map_of_filter_keys: "map_of (filter (\<lambda>e. P (fst e)) es) k = (if P k then map_of es k else None)"
  by (induction es) auto

lemma scan_correct:
  assumes "reads_inv X e"
  shows "\<exists>out. engine_scan X rng e = Inr (scan_new out) \<and> asc_keys out
     \<and> map_of out = (\<lambda>k. if position rng k = In then view X e k else None)"
proof -
  let ?m = "filter (\<lambda>e. position rng (fst e) = In) (memtable_iter (mem e))"
  let ?s = "merge_new ?m (map cursor_new (runs e))"
  let ?items = "fst (merge_items X ?s)"
  let ?out = "filter (\<lambda>kv. position rng (fst kv) = In) ?items"
  have "asc_keys ?m"
    using assms by (intro asc_keys_filter) (simp add: reads_inv_def memtable_inv_def memtable_iter_def)
  then have rd: "src.ready X ?s" "\<forall>s \<in> set ?s. source_fault X s = None"
    "views X ?s = ?m # map (run_entries X) (runs e)"
    using merge_new_ready [of ?m "runs e" X] assms by (simp_all add: reads_inv_def)
  note ok = merge_items_ok [OF rd(1,2)]
  have "engine_scan X rng e = Inr (scan_new ?out)"
    using scan_items_asc [OF ok(2), of rng "[]"] ok(1) by (simp add: engine_scan_def Let_def scan_loop_items)
  moreover have "asc_keys ?out" using ok(2) by (rule asc_keys_filter)
  moreover have "map_of ?out k = (if position rng k = In then view X e k else None)" for k
    using map_of_filter_keys [of "\<lambda>k. position rng k = In" ?items k]
      map_of_filter_keys [of "\<lambda>k. position rng k = In" "memtable_iter (mem e)" k]
    by (simp add: ok(3) rd(3) view_def resolve_Cons)
  ultimately show ?thesis by blast
qed

end
