(* ===== verification/Run_Files.thy ===== *)
theory Run_Files
  imports Engine_Read
begin

text \<open>
  Building a run file, as both the flush and the compaction do it: what is on the disk
  afterwards, what may have changed on the way, and that the opened run is good. The
  names of one run's files, its temporaries and its sidecar are kept apart from those of
  every other run, the manifest and the log.
\<close>

section \<open>Names\<close>

definition run_names :: "string \<Rightarrow> string \<Rightarrow> bool" where
  "run_names p n \<longleftrightarrow> n = p \<or> n = p @ ''.tmp'' \<or> n = p @ ''.bloom'' \<or> n = p @ ''.bloom.tmp''"

lemma run_names_rev:
  "run_names p n \<longleftrightarrow> rev n = rev p \<or> rev n = rev ''.tmp'' @ rev p \<or> rev n = rev ''.bloom'' @ rev p
     \<or> rev n = rev ''.bloom.tmp'' @ rev p"
  unfolding run_names_def rev_append [symmetric] rev_is_rev_conv by (rule refl)

lemma run_filename_stem: "\<exists>q. run_filename s = ''run-'' @ q @ ''.sst''"
  by (auto simp: run_filename_def)

lemma run_names_disjoint:
  assumes "run_names (run_filename a) n" and "run_names (run_filename b) n"
  shows "a = b"
proof -
  obtain p q where pq: "run_filename a = p @ ''.sst''" "run_filename b = q @ ''.sst''"
    using run_filename_stem by (metis append_assoc)
  then have "rev (run_filename a) = rev ''.sst'' @ rev p" "rev (run_filename b) = rev ''.sst'' @ rev q" by simp_all
  with assms have "rev p = rev q" by (simp add: run_names_rev) (elim disjE; simp)
  with pq have "run_filename a = run_filename b" by simp
  then show ?thesis by (simp add: run_filename_inj)
qed

lemma run_names_fixed:
  "\<not> run_names (run_filename s) MANIFEST" "\<not> run_names (run_filename s) MANIFEST_TMP"
  "\<not> run_names (run_filename s) WAL_FILE"
  by (simp_all add: run_names_def run_filename_def MANIFEST_def MANIFEST_TMP_def WAL_FILE_def)

lemma sidecar_run_names:
  "run_names p (sidecar_path p)" "run_names p p" "run_names p (p @ ''.tmp'')"
  "run_names p (sidecar_path p @ ''.tmp'')"
  by (simp_all add: run_names_def sidecar_path_def)

lemma own_names_differ: "p \<noteq> p @ ''.tmp''" "p \<noteq> sidecar_path p" "p \<noteq> sidecar_path p @ ''.tmp''"
  by (simp_all add: sidecar_path_def)

section \<open>Sizes\<close>

text \<open>
  Entries within the reader's limits, in a run of less than \<^verbatim>\<open>2 ^ 44\<close> encoded bytes: then
  the file has fewer than \<^verbatim>\<open>2 ^ 64\<close> bytes and at most \<^verbatim>\<open>2 ^ 32\<close> blocks.
\<close>

definition sized :: "entry list \<Rightarrow> bool" where
  "sized es \<longleftrightarrow> (\<forall>e \<in> set es. fits e) \<and> length (enc_block es) < 2 ^ 44"

lemma full_blocks_length:
  "\<forall>b \<in> set bss. full_block b \<Longrightarrow> length bss * TARGET_BLOCK_SIZE \<le> length (data_bytes bss)"
  by (induction bss) (auto simp: full_block_def)

lemma run_blocks_count:
  assumes "run_blocks bss" and "length (data_bytes bss) < 2 ^ 44"
  shows "length bss \<le> 2 ^ 32"
proof (cases bss rule: rev_cases)
  case (snoc init b)
  then have "length init * 4096 \<le> length (data_bytes init)"
    using full_blocks_length [of init] assms(1) by (simp add: run_blocks_def TARGET_BLOCK_SIZE_def)
  moreover have "length (data_bytes init) < 2 ^ 44" using assms(2) snoc by simp
  ultimately have "length init * 4096 < 2 ^ 44" by linarith
  then show ?thesis using snoc by simp
qed simp

lemma index_length:
  "\<forall>b \<in> set bss. b \<noteq> [] \<Longrightarrow> length (enc_index (handles X off bss)) \<le> 20 * length bss + length (data_bytes bss)"
proof (induction bss arbitrary: off)
  case (Cons b bss)
  have "length (fst (last b)) \<le> length (enc_block b)"
  proof -
    have "b = butlast b @ [last b]" using Cons.prems by simp
    then have "length (enc_block b) \<ge> length (enc_entry (last b))"
      by (metis enc_block_simps(1-3) append.right_neutral length_append le_add2)
    then show ?thesis using length_enc_entry [of "fst (last b)" "snd (last b)"] by simp
  qed
  with Cons.IH [of "off + length (enc_block b)"] Cons.prems show ?case
    by (simp add: length_enc_handle)
qed simp

lemma run_image_small:
  assumes "run_blocks bss" and "length (data_bytes bss) < 2 ^ 44"
  shows "length (run_image X bss) < usize_limit"
proof -
  have "length (enc_index (handles X 8 bss)) \<le> 20 * length bss + length (data_bytes bss)"
    using assms(1) by (intro index_length) (simp add: run_blocks_def)
  with run_blocks_count [OF assms] assms(2) show ?thesis
    by (simp add: run_image_def Let_def footer_fields)
qed

section \<open>Sealing a run\<close>

text \<open>\<^verbatim>\<open>committed X d t\<close>: the run \<^verbatim>\<open>t\<close> is whole on the disk, forced to stable storage, and opens as \<^verbatim>\<open>t\<close>.\<close>

definition committed_at :: "'f externals \<Rightarrow> fs \<Rightarrow> 'f sstable \<Rightarrow> entry list list \<Rightarrow> bool" where
  "committed_at X d t bss \<longleftrightarrow> readable bss \<and> length bss \<le> 2 ^ 32 \<and> length (run_image X bss) < usize_limit
     \<and> file_bytes t = run_image X bss \<and> tbl_index t = handles X 8 bss
     \<and> fs_lookup d (tbl_path t) = Some (File (run_image X bss) True)
     \<and> covers X (tbl_filter t) (fst ` set (concat bss))
     \<and> (\<forall>f. fs_lookup d (sidecar_path (tbl_path t)) = Some f \<longrightarrow>
            covers X (sidecar_decode X (fdata f)) (fst ` set (concat bss)))"

definition committed :: "'f externals \<Rightarrow> fs \<Rightarrow> 'f sstable \<Rightarrow> bool" where
  "committed X d t \<longleftrightarrow> (\<exists>bss. committed_at X d t bss)"

lemma committed_good: "committed X d t \<Longrightarrow> good_run X t"
proof -
  assume "committed X d t"
  then obtain bss where bss: "readable bss" "length bss \<le> 2 ^ 32" "length (run_image X bss) < usize_limit"
    "file_bytes t = run_image X bss" "tbl_index t = handles X 8 bss" "covers X (tbl_filter t) (fst ` set (concat bss))"
    by (auto simp: committed_def committed_at_def)
  have "table_of X t bss"
    using table_of_opened [OF bss(1,3)] table_of_cong [of t "opened X 0 [] bss" X bss] bss(4,5)
    by (simp add: opened_def)
  with bss show ?thesis by (auto simp: good_run_def)
qed

lemma committed_frame:
  assumes "committed X d t" and "touches P d d'" and "\<not> P (tbl_path t)" and "\<not> P (sidecar_path (tbl_path t))"
  shows "committed X d' t"
  using assms touchesD [OF assms(2)] by (simp add: committed_def committed_at_def)

lemma seal_run_touches:
  assumes "w_path w = tmp"
  shows "act_keeps (touches (\<lambda>n. n = tmp \<or> n = p \<or> sidecar_names p n)) (seal_run X ctx tmp p rid (w, fo))"
proof -
  let ?P = "touches (\<lambda>n. n = tmp \<or> n = p \<or> sidecar_names p n)"
  have "act_keeps ?P (writer_finish X w)"
    by (rule act_keeps_touches_mono [OF writer_finish_keeps]) (simp add: assms)
  moreover have "act_keeps ?P (fs_rename tmp p)"
    by (rule act_keeps_touches_mono [OF fs_rename_keeps]) auto
  moreover have "act_keeps ?P (write_sidecar X f p)" for f
    by (rule act_keeps_touches_mono [OF write_sidecar_keeps]) auto
  moreover have "act_keeps ?P (sstable_open X rid p)"
    by (rule keeps_quiet [OF sstable_open_keeps])
  ultimately show ?thesis
    unfolding seal_run_def Let_def filter_finish_def
    by (auto intro!: act_keeps_intros split: option.splits)
qed

lemma write_sidecar_covers:
  assumes X: "bloom_laws X" and "covers X (Some f) ks" and "write_sidecar X f p d = (Inr x, d')"
    and "bloom_on X" and "fs_lookup d' (sidecar_path p) = Some g"
  shows "covers X (sidecar_decode X (fdata g)) ks"
proof -
  from assms(3,4) obtain payload where pc: "pc_to_bytes X f = Some payload"
    by (auto simp: write_sidecar_def Let_def split: option.splits)
  let ?tmp = "sidecar_path p @ ''.tmp''"
  from assms(3,4) pc obtain d1 where
    w: "fs_write ?tmp (sidecar_bytes X payload) d = (Inr (), d1)" and r: "fs_rename ?tmp (sidecar_path p) d1 = (Inr (), d')"
    by (auto simp: write_sidecar_def Let_def act_map_err_Inr_iff elim!: act_then_InrE)
  from w have "fs_lookup d1 ?tmp = Some (File (sidecar_bytes X payload) False)"
    unfolding fs_write_def by (auto elim!: act_then_InrE dest!: fs_create_ok fs_write_all_ok)
  from fs_rename_ok [OF r this] assms(5) have "fdata g = sidecar_bytes X payload" by auto
  with sidecar_roundtrip [OF X pc] assms(2) show ?thesis by simp
qed

text \<open>The sidecar step leaves the run alone, and a sidecar it leaves admits the run's keys.\<close>

lemma sidecar_step:
  assumes X: "bloom_laws X" and cov: "covers X fo ks" and none: "fs_lookup d (sidecar_path p) = None"
    and st: "(case fo of None \<Rightarrow> act_ok () | Some f \<Rightarrow> write_sidecar X f p) d = (Inr x, d')"
  shows "fs_lookup d' p = fs_lookup d p"
    and "\<And>g. fs_lookup d' (sidecar_path p) = Some g \<Longrightarrow> covers X (sidecar_decode X (fdata g)) ks"
proof -
  show "fs_lookup d' p = fs_lookup d p"
  proof (cases fo)
    case (Some f)
    with st have "touches (sidecar_names p) d d'" by (auto dest: act_keepsD [OF write_sidecar_keeps])
    then show ?thesis by (rule touchesD) (simp add: sidecar_path_def)
  qed (use st in simp)
  fix g assume g: "fs_lookup d' (sidecar_path p) = Some g"
  show "covers X (sidecar_decode X (fdata g)) ks"
  proof (cases fo)
    case None
    with st g none show ?thesis by simp
  next
    case (Some f)
    have "bloom_on X" using Some st g none by (auto simp: write_sidecar_def split: if_splits)
    with write_sidecar_covers [OF X _ _ this g] Some st cov show ?thesis by simp
  qed
qed

lemma finished_file:
  assumes "writing X w d bss pend" and "writer_finish X w d = (Inr x, d1)"
    and "fs_rename (w_path w) p d1 = (Inr y, d2)" and es: "es = concat bss @ pend"
    and "asc_keys es" and "sized es"
  shows "\<exists>bss'. concat bss' = es \<and> readable bss' \<and> length bss' \<le> 2 ^ 32
     \<and> length (run_image X bss') < usize_limit \<and> fs_lookup d2 p = Some (File (run_image X bss') True)"
proof -
  obtain bss' where b: "concat bss' = es" "run_blocks bss'"
    "fs_lookup d1 (w_path w) = Some (File (run_image X bss') True)"
    using writer_finish_ok [OF assms(1), of d1] assms(2) es by auto
  have len: "length (data_bytes bss') < 2 ^ 44" using assms(6) b(1) by (simp add: sized_def)
  have "readable bss'" using assms(5,6) b by (intro run_blocks_readable) (auto simp: sized_def)
  moreover note run_blocks_count [OF b(2) len] run_image_small [OF b(2) len, of X]
  moreover have "fs_lookup d2 p = Some (File (run_image X bss') True)"
    using fs_rename_ok [OF assms(3) b(3)] by simp
  ultimately show ?thesis using b(1) by blast
qed

lemma rename_lookup:
  "fs_rename a b d = (r, d') \<Longrightarrow> n \<noteq> a \<Longrightarrow> n \<noteq> b \<Longrightarrow> fs_lookup d' n = fs_lookup d n"
  using act_keepsD [OF fs_rename_keeps] touchesD by fastforce

lemma seal_run_ok:
  assumes X: "bloom_laws X" and w: "writing X w d bss pend" and tmp: "w_path w = p @ ''.tmp''"
    and es: "es = concat bss @ pend" "asc_keys es" "sized es"
    and cov: "covers X fo (fst ` set es)" and none: "fs_lookup d (sidecar_path p) = None"
    and seal: "seal_run X ctx (p @ ''.tmp'') p rid (w, fo) d = (Inr t, d')"
  shows "committed X d' t \<and> tbl_path t = p \<and> run_id t = rid \<and> run_entries X t = es"
proof -
  from seal obtain x1 d1 x2 d2 x3 d3 t0 where fin: "writer_finish X w d = (Inr x1, d1)"
    and ren: "fs_rename (w_path w) p d1 = (Inr x2, d2)"
    and sc: "(case fo of None \<Rightarrow> act_ok () | Some f \<Rightarrow> write_sidecar X f p) d2 = (Inr x3, d3)"
    and op: "sstable_open X rid p d3 = (Inr t0, d')" and t: "t = attach_cache (attach_filter t0 fo)"
    unfolding seal_run_def filter_finish_def
    by (auto elim!: act_then_InrE simp: Let_def act_map_err_Inr_iff tmp)
  from finished_file [OF w fin ren es] obtain bss' where b: "concat bss' = es" "readable bss'"
    "length bss' \<le> 2 ^ 32" "length (run_image X bss') < usize_limit"
    "fs_lookup d2 p = Some (File (run_image X bss') True)" by blast
  have "fs_lookup d1 (sidecar_path p) = None"
    using touchesD [OF act_keepsD [OF writer_finish_keeps fin], of "sidecar_path p"] none
    by (simp add: tmp sidecar_path_def)
  then have none2: "fs_lookup d2 (sidecar_path p) = None"
    using rename_lookup [OF ren, of "sidecar_path p"] own_names_differ by (simp add: tmp sidecar_path_def)
  note ss = sidecar_step [OF X cov none2 sc]
  have same: "fs_lookup d' n = fs_lookup d3 n" for n
    using touchesD [OF act_keepsD [OF sstable_open_keeps op]] by simp
  have p3: "fs_lookup d3 p = Some (File (run_image X bss') True)" using ss(1) b(5) by simp
  have t0: "t0 = opened X rid p bss'" using sstable_open_image [OF p3 _ readable_indexable [OF b(2)] b(4) op] by simp
  have "committed X d' t"
    unfolding committed_def committed_at_def
  proof (intro exI [of _ bss'] conjI)
    show "covers X (tbl_filter t) (fst ` set (concat bss'))"
      using cov b(1) by (simp add: t attach_cache_def attach_filter_def)
    show "fs_lookup d' (tbl_path t) = Some (File (run_image X bss') True)"
      using p3 same by (simp add: t t0 opened_def attach_cache_def attach_filter_def)
    show "\<forall>f. fs_lookup d' (sidecar_path (tbl_path t)) = Some f \<longrightarrow>
        covers X (sidecar_decode X (fdata f)) (fst ` set (concat bss'))"
      using ss(2) b(1) same by (simp add: t t0 opened_def attach_cache_def attach_filter_def)
  qed (use b in \<open>simp_all add: t t0 opened_def attach_cache_def attach_filter_def\<close>)
  moreover have "run_entries X t = es"
    using table_entries [of X t bss'] table_of_opened [OF b(2,4)] b(1) by (simp add: t t0)
  ultimately show ?thesis by (simp add: t t0 opened_def attach_cache_def attach_filter_def)
qed

section \<open>Flushing a run\<close>

text \<open>Both callers create the writer, fill it with a loop and seal it; only the run's own names change.\<close>

lemma build_touches:
  assumes loop: "\<And>w d r d'. loop w d = (r, d') \<Longrightarrow> touches (only (w_path w)) d d'
      \<and> (\<forall>w' fo. r = Inr (w', fo) \<longrightarrow> w_path w' = w_path w)"
    and f: "act_then (writer_create (p @ ''.tmp'')) (\<lambda>w. act_then (loop w)
      (seal_run X ctx (p @ ''.tmp'') p rid)) d = (r, d')"
  shows "touches (run_names p) d d'"
proof -
  let ?tmp = "p @ ''.tmp''"
  obtain r1 d1 where c: "writer_create ?tmp d = (r1, d1)" by fastforce
  have t1: "touches (run_names p) d d1"
    using act_keepsD [OF writer_create_keeps c] by (rule touches_mono) (simp add: run_names_def)
  show ?thesis
  proof (cases r1)
    case (Inl err)
    with f c t1 show ?thesis by (simp add: act_then_def)
  next
    case (Inr w)
    have wp: "w_path w = ?tmp" using c Inr by (simp add: writer_create_path)
    obtain r2 d2 where lp: "loop w d1 = (r2, d2)" by fastforce
    note lp' = loop [OF lp]
    have "touches (run_names p) d1 d2"
      using conjunct1 [OF lp'] by (rule touches_mono) (simp add: wp run_names_def)
    with t1 have t2: "touches (run_names p) d d2" by (rule touches_trans)
    show ?thesis
    proof (cases r2)
      case (Inl err)
      with f c Inr lp t2 show ?thesis by (simp add: act_then_def)
    next
      case R2: (Inr wfo)
      obtain w' fo where wfo: "wfo = (w', fo)" by fastforce
      have sl: "seal_run X ctx ?tmp p rid (w', fo) d2 = (r, d')"
        using f c Inr lp R2 wfo by (simp add: act_then_def)
      have "w_path w' = ?tmp" using lp' R2 wfo wp by simp
      from act_keepsD [OF seal_run_touches [OF this] sl] have "touches (run_names p) d2 d'"
        by (rule touches_mono) (auto simp: run_names_def sidecar_path_def)
      with t2 show ?thesis by (rule touches_trans)
    qed
  qed
qed

lemma flush_run_touches:
  assumes "flush_run X p rid es d = (r, d')"
  shows "touches (run_names p) d d'"
proof (rule build_touches)
  show "act_then (writer_create (p @ ''.tmp'')) (\<lambda>w. act_then (push_entries X (w, builder X (length es)) es)
      (seal_run X ''install flushed run'' (p @ ''.tmp'') p rid)) d = (r, d')"
    using assms by (simp add: flush_run_def Let_def)
qed (auto dest: push_entries_touches push_entries_path)

lemma builder_covers: "covers X (fold (\<lambda>k fo. filter_add X fo k) (map fst es) (builder X n)) (fst ` set es)"
  if "bloom_laws X"
  using covers_fold_add [OF that, of "builder X n" "{}" "map fst es"] by simp

lemma flush_run_ok:
  assumes X: "bloom_laws X" and es: "asc_keys es" "sized es"
    and none: "fs_lookup d (sidecar_path p) = None"
    and f: "flush_run X p rid es d = (Inr t, d')"
  shows "committed X d' t \<and> tbl_path t = p \<and> run_id t = rid \<and> run_entries X t = es"
proof -
  let ?tmp = "p @ ''.tmp''"
  from f obtain w d1 w' fo d2 where c: "writer_create ?tmp d = (Inr w, d1)"
    and pe: "push_entries X (w, builder X (length es)) es d1 = (Inr (w', fo), d2)"
    and sl: "seal_run X ''install flushed run'' ?tmp p rid (w', fo) d2 = (Inr t, d')"
    unfolding flush_run_def Let_def by (auto elim!: act_then_InrE)
  note wc = writer_create_ok [OF c, of X]
  from push_entries_ok [OF _ pe, of "[]" "[]"] wc obtain bss pend where
    w': "writing X w' d2 bss pend" "concat bss @ pend = es" "w_path w' = ?tmp"
    and fo: "fo = fold (\<lambda>k fo. filter_add X fo k) (map fst es) (builder X (length es))" by auto
  have "fs_lookup d1 (sidecar_path p) = None"
    using touchesD [OF act_keepsD [OF writer_create_keeps c], of "sidecar_path p"] none
    by (simp add: sidecar_path_def)
  then have "fs_lookup d2 (sidecar_path p) = None"
    using touchesD [OF push_entries_touches [OF pe], of "sidecar_path p"] wc by (simp add: sidecar_path_def)
  moreover have "covers X fo (fst ` set es)" unfolding fo by (rule builder_covers [OF X])
  ultimately show ?thesis by (intro seal_run_ok [OF X w'(1,3) w'(2) [symmetric] es _ _ sl])
qed

section \<open>Compacting runs\<close>

text \<open>The merge loop is the push loop over the drained merge, then the merge's error if it has one.\<close>

definition live_entries :: "(bytes \<times> bytes) list \<Rightarrow> entry list" where
  "live_entries kvs = map (\<lambda>(k, v). (k, Value v)) kvs"

lemma compact_loop_items:
  "compact_loop X sources wfo d =
     act_then (push_entries X wfo (live_entries (fst (merge_items X sources))))
       (\<lambda>wfo. case snd (merge_items X sources) of None \<Rightarrow> act_ok wfo | Some err \<Rightarrow> act_err err) d"
proof (induction X sources wfo d rule: compact_loop.induct)
  case (1 X sources wfo d)
  note items = merge_items.simps [of X sources]
  obtain w fo where wfo: "wfo = (w, fo)" by fastforce
  note step = compact_loop.simps [of X sources wfo d, unfolded wfo]
  obtain r s' where nx: "merge_next X sources = (r, s')" by fastforce
  consider "r = None" | e where "r = Some (Inl e)" | k v where "r = Some (Inr (k, v))"
    by (metis option.exhaust sum.exhaust prod.exhaust)
  then show ?case
  proof cases
    case (3 k v)
    with "1.IH" nx wfo show ?thesis
      by (auto simp: step items live_entries_def act_then_def split: prod.splits sum.splits)
  qed (use nx wfo in \<open>simp_all add: step items live_entries_def act_then_def\<close>)
qed

lemma compact_loop_touches:
  "compact_loop X sources (w, fo) d = (r, d') \<Longrightarrow> touches (only (w_path w)) d d'"
proof -
  assume cl: "compact_loop X sources (w, fo) d = (r, d')"
  let ?es = "live_entries (fst (merge_items X sources))"
  obtain r1 d1 where pe: "push_entries X (w, fo) ?es d = (r1, d1)" by fastforce
  with cl have "d' = d1" unfolding compact_loop_items
    by (cases r1) (auto simp: act_then_def split: option.splits)
  with push_entries_touches [OF pe] show ?thesis by simp
qed

lemma compact_loop_Inr:
  assumes "compact_loop X sources (w, fo) d = (Inr (w', fo'), d')"
  shows "push_entries X (w, fo) (live_entries (fst (merge_items X sources))) d = (Inr (w', fo'), d')"
    "snd (merge_items X sources) = None"
  using assms unfolding compact_loop_items by (auto elim!: act_then_InrE split: option.splits)

lemma compact_run_touches:
  assumes "compact_run X p rid inputs d = (r, d')"
  shows "touches (run_names p) d d'"
proof (rule build_touches)
  show "act_then (writer_create (p @ ''.tmp'')) (\<lambda>w. act_then
      (compact_loop X (merge_new [] (map cursor_new inputs)) (w, builder X (compact_capacity inputs)))
      (seal_run X ''install compacted run'' (p @ ''.tmp'') p rid)) d = (r, d')"
    using assms by (simp add: compact_run_def Let_def)
qed (auto dest: compact_loop_touches compact_loop_Inr(1) push_entries_path)

text \<open>
  The output holds exactly the visible entries of the inputs: same lookups after
  tombstones are dropped, in ascending order.
\<close>

lemma live_entries_facts:
  "fst ` set (live_entries kvs) = fst ` set kvs" "asc_keys (live_entries kvs) = asc_keys kvs"
  "map_of (live_entries kvs) k = map_option Value (map_of kvs k)"
proof -
  show "fst ` set (live_entries kvs) = fst ` set kvs" by (force simp: live_entries_def)
  have "map fst (live_entries kvs) = map fst kvs" by (simp add: live_entries_def case_prod_beta comp_def)
  then show "asc_keys (live_entries kvs) = asc_keys kvs" by simp
  show "map_of (live_entries kvs) k = map_option Value (map_of kvs k)"
    by (induction kvs) (auto simp: live_entries_def)
qed

lemma compact_run_ok:
  assumes X: "bloom_laws X" and inputs: "\<forall>t \<in> set inputs. good_run X t"
    and small: "\<And>es. asc_keys es \<Longrightarrow> (\<And>k. map_of es k = map_option Value (resolve (map (run_entries X) inputs) k)) \<Longrightarrow> sized es"
    and none: "fs_lookup d (sidecar_path p) = None"
    and f: "compact_run X p rid inputs d = (Inr t, d')"
  shows "committed X d' t \<and> tbl_path t = p \<and> run_id t = rid \<and> asc_keys (run_entries X t)
     \<and> (\<forall>k. map_of (run_entries X t) k = map_option Value (resolve (map (run_entries X) inputs) k))"
proof -
  let ?tmp = "p @ ''.tmp''" and ?s = "merge_new [] (map cursor_new inputs)"
  define es where "es = live_entries (fst (merge_items X ?s))"
  let ?fo = "builder X (compact_capacity inputs)"
  have "asc_keys ([] :: entry list)" by simp
  note rd = merge_new_ready [OF this inputs]
  note ok = merge_items_ok [OF rd(1,2)]
  have asc: "asc_keys es" using ok(2) by (simp add: es_def live_entries_facts)
  have lk: "map_of es k = map_option Value (resolve (map (run_entries X) inputs) k)" for k
    by (simp add: es_def live_entries_facts ok(3) rd(3) resolve_Cons)
  have sz: "sized es" using asc lk by (rule small)
  from f obtain w d1 w' fo d2 where c: "writer_create ?tmp d = (Inr w, d1)"
    and cl: "compact_loop X ?s (w, ?fo) d1 = (Inr (w', fo), d2)"
    and sl: "seal_run X ''install compacted run'' ?tmp p rid (w', fo) d2 = (Inr t, d')"
    unfolding compact_run_def Let_def by (auto elim!: act_then_InrE)
  have pe: "push_entries X (w, ?fo) es d1 = (Inr (w', fo), d2)"
    using compact_loop_Inr(1) [OF cl] by (simp add: es_def)
  note wc = writer_create_ok [OF c, of X]
  from push_entries_ok [OF _ pe, of "[]" "[]"] wc obtain bss pend where
    w': "writing X w' d2 bss pend" "concat bss @ pend = es" "w_path w' = ?tmp"
    and fo: "fo = fold (\<lambda>k fo. filter_add X fo k) (map fst es) ?fo" by auto
  have "fs_lookup d1 (sidecar_path p) = None"
    using touchesD [OF act_keepsD [OF writer_create_keeps c], of "sidecar_path p"] none
    by (simp add: sidecar_path_def)
  then have n2: "fs_lookup d2 (sidecar_path p) = None"
    using touchesD [OF push_entries_touches [OF pe], of "sidecar_path p"] wc by (simp add: sidecar_path_def)
  have cov: "covers X fo (fst ` set es)" unfolding fo by (rule builder_covers [OF X])
  from seal_run_ok [OF X w'(1,3) w'(2) [symmetric] asc sz cov n2 sl] asc lk show ?thesis by simp
qed

end
