(* ===== verification/Engine_Write.thy ===== *)
theory Engine_Write
  imports Run_Files
begin

text \<open>
  Writes, flushes and compactions. \<^verbatim>\<open>disk_ok\<close> says that the directory is consistent with
  the live run list: every run is whole and on stable storage, the manifest names
  exactly these runs in this order, and no file occupies a name a future run will use.
  \<^verbatim>\<open>engine_inv\<close> adds the state in memory. Every operation keeps both, whether it succeeds
  or fails at any I/O step; a successful write updates \<^verbatim>\<open>view\<close> as a map update, and a
  successful flush and every compaction leave \<^verbatim>\<open>view\<close> unchanged.
\<close>

section \<open>The directory\<close>

definition runs_ok :: "'f externals \<Rightarrow> fs \<Rightarrow> u64 \<Rightarrow> 'f sstable list \<Rightarrow> bool" where
  "runs_ok X d n rs \<longleftrightarrow> (\<forall>t \<in> set rs. committed X d t \<and> (\<exists>s < n. tbl_path t = run_filename s))"

definition fresh :: "fs \<Rightarrow> u64 \<Rightarrow> bool" where
  "fresh d n \<longleftrightarrow> (\<forall>s \<ge> n. \<forall>name. run_names (run_filename s) name \<longrightarrow> fs_lookup d name = None)"

definition manifest_ok :: "fs \<Rightarrow> u64 \<Rightarrow> string list \<Rightarrow> bool" where
  "manifest_ok d n names \<longleftrightarrow> (\<exists>seq \<le> n. fs_lookup d MANIFEST = Some (manifest_file seq names))
     \<or> names = [] \<and> fs_lookup d MANIFEST = None"

definition disk_ok :: "'f externals \<Rightarrow> fs \<Rightarrow> u64 \<Rightarrow> 'f sstable list \<Rightarrow> bool" where
  "disk_ok X d n rs \<longleftrightarrow> fs_inv d \<and> runs_ok X d n rs \<and> distinct (map tbl_path rs) \<and> fresh d n
     \<and> manifest_ok d n (map tbl_path rs)"

lemma runs_ok_frame:
  assumes "runs_ok X d n rs" and "touches P d d'" and "n \<le> n'"
    and "\<And>s name. s < n \<Longrightarrow> run_names (run_filename s) name \<Longrightarrow> \<not> P name"
  shows "runs_ok X d' n' rs"
  unfolding runs_ok_def
proof
  fix t assume "t \<in> set rs"
  then obtain s where t: "committed X d t" "s < n" "tbl_path t = run_filename s"
    using assms(1) by (auto simp: runs_ok_def)
  have "\<not> P (tbl_path t)" "\<not> P (sidecar_path (tbl_path t))"
    using assms(4) [OF t(2)] sidecar_run_names by (simp_all add: t(3))
  with committed_frame [OF t(1) assms(2)] t assms(3) show "committed X d' t \<and> (\<exists>s<n'. tbl_path t = run_filename s)"
    by (meson order.strict_trans2)
qed

lemma disk_ok_other:
  assumes "disk_ok X d n rs" and "touches P d d'"
    and "\<And>s name. run_names (run_filename s) name \<Longrightarrow> \<not> P name" and "\<not> P MANIFEST"
  shows "disk_ok X d' n rs"
  using assms runs_ok_frame [OF _ assms(2) order_refl, of X n rs] touchesD [OF assms(2)] touches_inv [OF assms(2)]
  by (auto simp: disk_ok_def fresh_def manifest_ok_def)

lemma disk_ok_wal:
  assumes "disk_ok X d n rs" and "touches (\<lambda>n. n = WAL_FILE) d d'"
  shows "disk_ok X d' n rs"
proof (rule disk_ok_other [OF assms])
  show "name \<noteq> WAL_FILE" if "run_names (run_filename s) name" for s name
    using that run_names_fixed(3) by blast
qed (simp add: WAL_FILE_def MANIFEST_def)

text \<open>Building the next run disturbs nothing that is live, and uses up its name.\<close>

lemma disk_ok_build:
  assumes ok: "disk_ok X d n rs" and t: "touches (run_names (run_filename n)) d d'" and n: "n + 1 \<noteq> 0"
  shows "disk_ok X d' (n + 1) rs"
proof -
  have lt: "n < n + 1" using n by (rule less_succ_u64)
  have "\<not> run_names (run_filename n) name" if "s < n" "run_names (run_filename s) name" for s name
    using that run_names_disjoint by (metis less_irrefl)
  with ok t lt have r: "runs_ok X d' (n + 1) rs"
    by (intro runs_ok_frame [OF _ t]) (auto simp: disk_ok_def)
  have "fresh d' (n + 1)"
    unfolding fresh_def
  proof (intro allI impI)
    fix s name assume s: "n + 1 \<le> s" and name: "run_names (run_filename s) name"
    with lt have "n < s" by (meson order.strict_trans2)
    then have "s \<noteq> n" "n \<le> s" by auto
    then have "\<not> run_names (run_filename n) name" using run_names_disjoint [OF name] by blast
    moreover have "fs_lookup d name = None"
      using ok name \<open>n \<le> s\<close> unfolding disk_ok_def fresh_def by blast
    ultimately show "fs_lookup d' name = None" using touchesD [OF t, of name] by simp
  qed
  moreover have "fs_lookup d' MANIFEST = fs_lookup d MANIFEST"
    using touchesD [OF t] run_names_fixed(1) by blast
  then have "manifest_ok d' (n + 1) (map tbl_path rs)"
    using ok lt unfolding disk_ok_def manifest_ok_def by (simp, meson order.strict_implies_order order.trans)
  ultimately show ?thesis
    using ok r touches_inv [OF t] by (simp add: disk_ok_def)
qed

lemma fresh_sidecar: "disk_ok X d n rs \<Longrightarrow> fs_lookup d (sidecar_path (run_filename n)) = None"
  using sidecar_run_names(1) by (auto simp: disk_ok_def fresh_def)

text \<open>The manifest rename is the commit point: before it the old list holds, after it the new one.\<close>

lemma disk_ok_store:
  assumes ok: "disk_ok X d n rs" and new: "runs_ok X d n rs'" "distinct (map tbl_path rs')"
    and st: "manifest_store n (map file_name rs') d = (r, d')"
  shows "case r of Inl _ \<Rightarrow> disk_ok X d' n rs | Inr _ \<Rightarrow> disk_ok X d' n rs'"
proof -
  have t: "touches manifest_names d d'" using act_keepsD [OF manifest_store_keeps st] .
  have other: "\<not> manifest_names name" if "run_names (run_filename s) name" for s name
    using that run_names_fixed by blast
  have r: "runs_ok X d' n rs" "runs_ok X d' n rs'"
    using ok new other by (auto intro: runs_ok_frame [OF _ t] simp: disk_ok_def)
  have f: "fresh d' n" using ok touchesD [OF t] other unfolding disk_ok_def fresh_def by metis
  have names: "map file_name rs' = map tbl_path rs'" by (simp add: file_name_def)
  show ?thesis
  proof (cases r)
    case (Inl e)
    with st manifest_store_err have "fs_lookup d' MANIFEST = fs_lookup d MANIFEST" by metis
    with Inl ok r f touches_inv [OF t] show ?thesis by (simp add: disk_ok_def manifest_ok_def)
  next
    case (Inr x)
    with st manifest_store_ok names have "fs_lookup d' MANIFEST = Some (manifest_file n (map tbl_path rs'))" by metis
    with Inr ok new r f touches_inv [OF t] show ?thesis by (auto simp: disk_ok_def manifest_ok_def)
  qed
qed

section \<open>The engine's invariant\<close>

definition handles_ok :: "'f externals \<Rightarrow> 'f sstable list \<Rightarrow> u64 \<Rightarrow> block_cache \<Rightarrow> bool" where
  "handles_ok X rs n c \<longleftrightarrow> distinct (map run_id rs) \<and> (\<forall>t \<in> set rs. run_id t < n)
     \<and> cache_coherent X (set rs) n c"

definition engine_inv :: "'f externals \<Rightarrow> 'f engine \<Rightarrow> bool" where
  "engine_inv X e \<longleftrightarrow> disk_ok X (disk e) (next_seq e) (runs e)
     \<and> handles_ok X (runs e) (next_run_id e) (cache e)
     \<and> memtable_inv (mem e) \<and> (\<forall>x \<in> set (entries (mem e)). fits x)"

lemma engine_inv_reads: "engine_inv X e \<Longrightarrow> reads_inv X e"
proof -
  assume i: "engine_inv X e"
  have "t = t'" if "t \<in> set (runs e)" "t' \<in> set (runs e)" "run_id t = run_id t'" for t t'
    using that i by (metis engine_inv_def handles_ok_def distinct_map inj_on_def)
  then have "ids_unique (set (runs e)) (next_run_id e)"
    using i by (auto simp: ids_unique_def engine_inv_def handles_ok_def)
  with i committed_good show ?thesis
    by (auto simp: reads_inv_def engine_inv_def handles_ok_def disk_ok_def runs_ok_def)
qed

lemma handles_ok_step: "handles_ok X rs n c \<Longrightarrow> n + 1 \<noteq> 0 \<Longrightarrow> handles_ok X rs (n + 1) c"
proof -
  assume h: "handles_ok X rs n c" and n: "n + 1 \<noteq> 0"
  have lt: "n < n + 1" using n by (rule less_succ_u64)
  have "cache_coherent X (set rs) (n + 1) c"
    using h lt unfolding handles_ok_def
    by (elim conjE, elim cache.coherent_mono) (auto simp: block_of_def intro: order.strict_trans)
  with h lt show ?thesis by (auto simp: handles_ok_def intro: order.strict_trans)
qed

lemma handles_ok_Cons:
  assumes "handles_ok X rs n c" and "run_id t = n" and "n + 1 \<noteq> 0"
  shows "handles_ok X (t # rs) (n + 1) c" and "handles_ok X (rs @ [t]) (n + 1) c"
proof -
  have "n < n + 1" using assms(3) by (rule less_succ_u64)
  moreover have "cache_coherent X (insert t (set rs)) (n + 1) c"
    using assms by (intro cache_coherent_add) (auto simp: handles_ok_def)
  moreover have "n \<notin> run_id ` set rs" using assms(1) by (auto simp: handles_ok_def)
  ultimately show "handles_ok X (t # rs) (n + 1) c" "handles_ok X (rs @ [t]) (n + 1) c"
    using assms(1,2) by (auto simp: handles_ok_def intro: order.strict_trans)
qed

lemma handles_ok_filter:
  "handles_ok X rs n c \<Longrightarrow> handles_ok X (filter P rs) n c"
  by (auto simp: handles_ok_def distinct_map_filter intro: cache_coherent_subset)

text \<open>Counters short of wrapping: the next run can be numbered.\<close>

definition headroom :: "'f engine \<Rightarrow> bool" where
  "headroom e \<longleftrightarrow> next_seq e + 1 \<noteq> 0 \<and> next_run_id e + 1 \<noteq> 0"

section \<open>Flush\<close>

text \<open>
  Every outcome of \<^verbatim>\<open>flush_locked\<close>: the buffer is empty afterwards; either the run list is
  unchanged (then the flush failed) or the buffer's entries are its new first run.
\<close>

definition flushed :: "'f externals \<Rightarrow> 'f engine \<Rightarrow> 'f engine \<Rightarrow> bool" where
  "flushed X e e' \<longleftrightarrow> (\<exists>t. runs e' = t # runs e \<and> run_entries X t = memtable_iter (mem e))"

definition flush_post :: "'f externals \<Rightarrow> 'f engine \<Rightarrow> unit res \<times> 'f engine \<Rightarrow> bool" where
  "flush_post X e out \<longleftrightarrow> engine_inv X (snd out) \<and> memtable_is_empty (mem (snd out))
     \<and> wal_path (dur (snd out)) = WAL_FILE \<and> eng_config (snd out) = eng_config e
     \<and> (if fst out = Inr () then flushed X e (snd out)
        else runs (snd out) = runs e \<or> flushed X e (snd out))"

lemma empty_buffer:
  "snd (memtable_take m) = \<lparr>entries = [], approx_size = 0\<rparr>" "fst (memtable_take m) = memtable_iter m"
  by (simp_all add: memtable_take_def memtable_iter_def)

lemma new_run_ok:
  assumes ok: "disk_ok X d n rs" and ok': "disk_ok X d' (n + 1) rs" and n: "n + 1 \<noteq> 0"
    and t: "committed X d' t" "tbl_path t = run_filename n"
  shows "runs_ok X d' (n + 1) (t # rs)" "distinct (map tbl_path (t # rs))"
proof -
  have "n < n + 1" using n by (rule less_succ_u64)
  with ok' t show "runs_ok X d' (n + 1) (t # rs)" by (auto simp: disk_ok_def runs_ok_def)
  have "run_filename n \<noteq> tbl_path u" if "u \<in> set rs" for u
    using that ok by (auto simp: disk_ok_def runs_ok_def run_filename_inj)
  with ok t(2) show "distinct (map tbl_path (t # rs))" by (auto simp: disk_ok_def)
qed

lemma flush_locked_post:
  assumes X: "bloom_laws X" and inv: "engine_inv X e" and hr: "headroom e"
    and sz: "sized (entries (mem e))" and wp: "wal_path (dur e) = WAL_FILE"
  shows "flush_post X e (flush_locked X e)"
proof -
  let ?n = "next_seq e" and ?i = "next_run_id e" and ?es = "memtable_iter (mem e)"
  have ok: "disk_ok X (disk e) ?n (runs e)" and h: "handles_ok X (runs e) ?i (cache e)"
    and m: "memtable_inv (mem e)" using inv by (simp_all add: engine_inv_def)
  have n1: "?n + 1 \<noteq> 0" and i1: "?i + 1 \<noteq> 0" using hr by (simp_all add: headroom_def)
  have es: "asc_keys ?es" "sized ?es" using m sz by (simp_all add: memtable_inv_def memtable_iter_def)
  obtain r1 d1 where fr: "flush_run X (run_filename ?n) ?i ?es (disk e) = (r1, d1)" by fastforce
  have ok1: "disk_ok X d1 (?n + 1) (runs e)"
    using disk_ok_build [OF ok flush_run_touches [OF fr] n1] .
  note defs = flush_locked_def Let_def flush_post_def engine_inv_def memtable_take_def memtable_iter_def
    memtable_is_empty_def memtable_inv_def
  show ?thesis
  proof (cases r1)
    case (Inl err)
    with fr ok1 h wp show ?thesis by (simp add: defs)
  next
    case (Inr t)
    have t: "committed X d1 t" "tbl_path t = run_filename ?n" "run_id t = ?i" "run_entries X t = ?es"
      using flush_run_ok [OF X es fresh_sidecar [OF ok] fr [unfolded Inr]] by simp_all
    note new = new_run_ok [OF ok ok1 n1 t(1,2)]
    obtain r2 d2 where ms: "manifest_store (?n + 1) (map file_name (t # runs e)) d1 = (r2, d2)" by fastforce
    note st = disk_ok_store [OF ok1 new ms]
    show ?thesis
    proof (cases r2)
      case (Inl err)
      with fr \<open>r1 = Inr t\<close> ms st handles_ok_step [OF h i1] wp show ?thesis by (simp add: defs)
    next
      case R2: (Inr x)
      obtain r3 du d3 where ro: "rotate_log X (dur e) d2 = (r3, du, d3)" by (metis prod_cases3)
      have t3: "touches (\<lambda>n. n = WAL_FILE) d2 d3" "wal_path du = WAL_FILE"
        using rotate_log_touches [OF wp ro] by simp_all
      have ok3: "disk_ok X d3 (?n + 1) (t # runs e)"
        using st R2 by (intro disk_ok_wal [OF _ t3(1)]) simp
      note h3 = handles_ok_Cons(1) [OF h t(3) i1]
      show ?thesis
        using fr \<open>r1 = Inr t\<close> ms R2 ro ok3 h3 t3(2) t(4)
        by (cases r3) (simp_all add: defs flushed_def signal_compaction_def)
    qed
  qed
qed

text \<open>Moving the buffer into a run changes no lookup.\<close>

lemma flushed_view:
  assumes "flushed X e e'" and "memtable_is_empty (mem e')"
  shows "view X e' = view X e"
proof
  fix k
  from assms obtain t where "runs e' = t # runs e" "run_entries X t = memtable_iter (mem e)"
    by (auto simp: flushed_def)
  moreover have "memtable_iter (mem e') = []" using assms(2) by (simp add: memtable_is_empty_def memtable_iter_def)
  ultimately show "view X e' k = view X e k" by (simp add: view_def resolve_Cons)
qed

section \<open>Compaction\<close>

lemma sum_set_le_list: "sum f (set xs) \<le> (\<Sum>x\<leftarrow>xs. f x :: nat)"
proof (induction xs)
  case (Cons x xs)
  then show ?case by (cases "x \<in> set xs") (simp_all add: insert_absorb trans_le_add2)
qed simp

lemma length_enc_block: "length (enc_block es) = (\<Sum>e\<leftarrow>es. length (enc_entry e))"
  by (induction es) simp_all

lemma newest_member: "newest ess k = Some r \<Longrightarrow> (k, r) \<in> set (concat ess)"
  by (induction ess) (auto split: option.splits dest: map_of_SomeD)

text \<open>The merged run is never larger than its inputs.\<close>

lemma merged_sized:
  assumes asc: "asc_keys es" and es: "\<And>k. map_of es k = map_option Value (resolve ess k)"
    and sz: "sized (concat ess)"
  shows "sized es"
proof -
  have sub: "set es \<subseteq> set (concat ess)"
  proof
    fix e assume "e \<in> set es"
    moreover obtain k r where e: "e = (k, r)" by fastforce
    ultimately have "map_of es k = Some r" using asc by (simp add: asc_keys_map_of_iff)
    with es have "\<exists>v. r = Value v \<and> resolve ess k = Some v" by auto
    then obtain v where "r = Value v" "newest ess k = Some r"
      by (auto simp: resolve_def bind_eq_Some_conv elim: visible.elims)
    with newest_member e show "e \<in> set (concat ess)" by blast
  qed
  have "distinct es" using asc_keys_distinct [OF asc] by (simp add: distinct_map)
  then have "length (enc_block es) = (\<Sum>e \<in> set es. length (enc_entry e))"
    by (simp add: length_enc_block sum_list_distinct_conv_sum_set)
  also have "\<dots> \<le> (\<Sum>e \<in> set (concat ess). length (enc_entry e))" using sub by (intro sum_mono2) auto
  also have "\<dots> \<le> length (enc_block (concat ess))" unfolding length_enc_block by (rule sum_set_le_list)
  finally show ?thesis using sz sub by (auto simp: sized_def)
qed

text \<open>Replacing the oldest runs by their merge, tombstones dropped, changes no lookup.\<close>

lemma resolve_append: "resolve (xs @ ys) k = (case newest xs k of None \<Rightarrow> resolve ys k | Some r \<Rightarrow> visible r)"
  by (simp add: resolve_def newest_append split: option.splits)

lemma resolve_merged:
  assumes "\<And>k. map_of es k = map_option Value (resolve old k)"
  shows "resolve (new @ [es]) k = resolve (new @ old) k"
  by (simp add: resolve_append resolve_Cons assms split: option.splits) (simp add: resolve_def)

definition merges :: "'f externals \<Rightarrow> 'f sstable list \<Rightarrow> 'f sstable \<Rightarrow> bool" where
  "merges X inputs output \<longleftrightarrow>
     (\<forall>k. map_of (run_entries X output) k = map_option Value (resolve (map (run_entries X) inputs) k))"

text \<open>
  The merge phase, with no lock held: it only adds the files of its own run, so the
  engine's invariant and view survive whatever it does.
\<close>

definition built_post :: "'f externals \<Rightarrow> 'f sstable list \<Rightarrow> 'f engine \<Rightarrow> 'f sstable res \<times> 'f engine \<Rightarrow> bool" where
  "built_post X inputs e out \<longleftrightarrow> engine_inv X (snd out) \<and> runs (snd out) = runs e \<and> mem (snd out) = mem e
     \<and> dur (snd out) = dur e
     \<and> (\<forall>t. fst out = Inr t \<longrightarrow> merges X inputs t \<and> runs_ok X (disk (snd out)) (next_seq (snd out)) (t # runs e)
          \<and> distinct (map tbl_path (t # runs e))
          \<and> handles_ok X (runs e @ [t]) (next_run_id (snd out)) (cache (snd out)))"

lemma compact_merge_post:
  assumes X: "bloom_laws X" and inv: "engine_inv X e" and hr: "headroom e"
    and inputs: "\<forall>t \<in> set inputs. good_run X t" and sz: "sized (concat (map (run_entries X) inputs))"
  shows "built_post X inputs e (compact_merge X inputs e)"
proof -
  let ?n = "next_seq e" and ?i = "next_run_id e"
  have ok: "disk_ok X (disk e) ?n (runs e)" and h: "handles_ok X (runs e) ?i (cache e)"
    using inv by (simp_all add: engine_inv_def)
  have n1: "?n + 1 \<noteq> 0" and i1: "?i + 1 \<noteq> 0" using hr by (simp_all add: headroom_def)
  obtain r1 d1 where cr: "compact_run X (run_filename ?n) ?i inputs (disk e) = (r1, d1)" by fastforce
  have ok1: "disk_ok X d1 (?n + 1) (runs e)"
    using disk_ok_build [OF ok compact_run_touches [OF cr] n1] .
  note defs = compact_merge_def Let_def built_post_def engine_inv_def
  show ?thesis
  proof (cases r1)
    case (Inl err)
    with cr ok1 h inv show ?thesis by (simp add: defs)
  next
    case (Inr t)
    have t: "committed X d1 t" "tbl_path t = run_filename ?n" "run_id t = ?i" "merges X inputs t"
      using compact_run_ok [OF X inputs _ fresh_sidecar [OF ok] cr [unfolded Inr]] merged_sized [OF _ _ sz]
      by (simp_all add: merges_def)
    note new = new_run_ok [OF ok ok1 n1 t(1,2)]
    note hs = handles_ok_step [OF h i1] handles_ok_Cons(2) [OF h t(3) i1]
    show ?thesis using cr Inr ok1 hs inv new t(4) by (simp add: defs)
  qed
qed

text \<open>The swap, under the write lock: runs flushed since the snapshot stay, newest first.\<close>

lemma swap_runs:
  assumes "handles_ok X (newer @ inputs) n c"
  shows "filter (\<lambda>r. \<not> (\<exists>i \<in> set inputs. ptr_eq i r)) (newer @ inputs) = newer"
proof -
  have "\<not> (\<exists>i \<in> set inputs. ptr_eq i r)" if "r \<in> set newer" for r
    using that assms by (force simp: ptr_eq_def handles_ok_def)
  then have "filter (\<lambda>r. \<not> (\<exists>i \<in> set inputs. ptr_eq i r)) newer = newer" by (simp add: filter_id_conv)
  moreover have "filter (\<lambda>r. \<not> (\<exists>i \<in> set inputs. ptr_eq i r)) inputs = []"
    by (auto simp: filter_empty_conv ptr_eq_def)
  ultimately show ?thesis by simp
qed

definition swap_post :: "'f externals \<Rightarrow> 'f sstable list \<Rightarrow> 'f sstable \<Rightarrow> 'f engine \<Rightarrow> unit res \<times> 'f engine \<Rightarrow> bool" where
  "swap_post X newer output e out \<longleftrightarrow> engine_inv X (snd out) \<and> view X (snd out) = view X e
     \<and> mem (snd out) = mem e \<and> dur (snd out) = dur e \<and> next_seq (snd out) = next_seq e
     \<and> runs (snd out) = (if fst out = Inr () then newer @ [output] else runs e)"

lemma compact_swap_post:
  assumes inv: "engine_inv X e" and rs: "runs e = newer @ inputs" and m: "merges X inputs output"
    and new: "runs_ok X (disk e) (next_seq e) (output # runs e)" "distinct (map tbl_path (output # runs e))"
    and h: "handles_ok X (runs e @ [output]) (next_run_id e) (cache e)"
  shows "swap_post X newer output e (compact_swap X inputs output e)"
proof -
  have ok: "disk_ok X (disk e) (next_seq e) (runs e)" using inv by (simp add: engine_inv_def)
  have fl: "filter (\<lambda>r. \<not> (\<exists>i \<in> set inputs. ptr_eq i r)) (runs e) = newer"
    using swap_runs [of X newer inputs] inv unfolding rs engine_inv_def by blast
  have r': "runs_ok X (disk e) (next_seq e) (newer @ [output])" "distinct (map tbl_path (newer @ [output]))"
    using new rs by (auto simp: runs_ok_def)
  obtain r d where ms: "manifest_store (next_seq e) (map file_name (newer @ [output])) (disk e) = (r, d)"
    by fastforce
  note st = disk_ok_store [OF ok r' ms]
  have eq: "compact_swap X inputs output e = (case r of Inl err \<Rightarrow> (Inl err, e\<lparr>disk := d\<rparr>)
      | Inr _ \<Rightarrow> (Inr (), e\<lparr>disk := d, runs := newer @ [output]\<rparr>))"
    unfolding compact_swap_def fl Let_def ms by (simp split: sum.splits)
  show ?thesis
  proof (cases r)
    case (Inl err)
    with eq st inv show ?thesis by (simp add: swap_post_def engine_inv_def view_def)
  next
    case (Inr x)
    have "handles_ok X (filter (\<lambda>t. t \<in> set (newer @ [output])) (runs e @ [output])) (next_run_id e) (cache e)"
      using h by (rule handles_ok_filter)
    moreover have "filter (\<lambda>t. t \<in> set (newer @ [output])) (runs e @ [output]) = newer @ [output]"
      using new(2) rs by (auto simp: filter_id_conv filter_empty_conv distinct_map)
    ultimately have h': "handles_ok X (newer @ [output]) (next_run_id e) (cache e)" by simp
    have "view X (e\<lparr>disk := d, runs := newer @ [output]\<rparr>) k = view X e k" for k
      using resolve_merged [of "run_entries X output" "map (run_entries X) inputs"
          "memtable_iter (mem e) # map (run_entries X) newer" k] m
      by (simp add: view_def rs merges_def)
    then have "view X (e\<lparr>disk := d, runs := newer @ [output]\<rparr>) = view X e" by blast
    with Inr eq st inv h' show ?thesis by (simp add: swap_post_def engine_inv_def)
  qed
qed

text \<open>Dropping the replaced runs removes their files and no other.\<close>

lemma sstable_drop_touches:
  "touches (\<lambda>n. n = tbl_path t \<or> n = sidecar_path (tbl_path t)) d (sstable_drop t d)"
proof -
  let ?P = "\<lambda>n. n = tbl_path t \<or> n = sidecar_path (tbl_path t)"
  have "touches ?P d (snd (fs_remove_file (tbl_path t) d))" for d
    using fs_remove_file_keeps [of "tbl_path t"] by (auto simp: act_keeps_def intro: touches_mono)
  moreover have "touches ?P d (snd (fs_remove_file (sidecar_path (tbl_path t)) d))" for d
    using fs_remove_file_keeps [of "sidecar_path (tbl_path t)"] by (auto simp: act_keeps_def intro: touches_mono)
  ultimately show ?thesis unfolding sstable_drop_def using touches_trans by (simp, blast)
qed

lemma sstable_drop_removes: "fs_lookup d n = None \<Longrightarrow> fs_lookup (sstable_drop t d) n = None"
proof -
  have "fs_lookup (snd (fs_remove_file p d)) n = None" if "fs_lookup d n = None" for p d
    using that by (simp add: fs_remove_file_def split: option.splits)
  then show "fs_lookup d n = None \<Longrightarrow> fs_lookup (sstable_drop t d) n = None" by (simp add: sstable_drop_def)
qed

lemma disk_ok_drop:
  assumes ok: "disk_ok X d n rs" and t: "tbl_path t = run_filename s" "\<forall>u \<in> set rs. tbl_path u \<noteq> tbl_path t"
  shows "disk_ok X (sstable_drop t d) n rs"
proof -
  let ?P = "\<lambda>n. n = tbl_path t \<or> n = sidecar_path (tbl_path t)" and ?d = "sstable_drop t d"
  have tc: "touches ?P d ?d" by (rule sstable_drop_touches)
  have "committed X ?d u \<and> (\<exists>s<n. tbl_path u = run_filename s)" if u: "u \<in> set rs" for u
  proof -
    from ok u obtain s' where s': "committed X d u" "tbl_path u = run_filename s'" "s' < n"
      by (auto simp: disk_ok_def runs_ok_def)
    have "\<not> ?P name" if "run_names (run_filename s') name" for name
    proof
      assume "?P name"
      then have "run_names (run_filename s) name" using t(1) sidecar_run_names by auto
      with that run_names_disjoint have "s = s'" by blast
      with t u s' show False by auto
    qed
    then have "\<not> ?P (tbl_path u)" "\<not> ?P (sidecar_path (tbl_path u))"
      using sidecar_run_names s'(2) by auto
    with committed_frame [OF s'(1) tc] s' show ?thesis by blast
  qed
  moreover have "fs_lookup ?d MANIFEST = fs_lookup d MANIFEST"
    using touchesD [OF tc, of MANIFEST] run_names_fixed(1) [of s] sidecar_run_names t(1) by metis
  moreover have "fresh ?d n" using ok sstable_drop_removes unfolding disk_ok_def fresh_def by blast
  ultimately show ?thesis
    using ok touches_inv [OF tc] by (simp add: disk_ok_def runs_ok_def manifest_ok_def)
qed

lemma drop_inputs_ok:
  assumes "disk_ok X d n rs" and "\<forall>t \<in> set inputs. (\<exists>s. tbl_path t = run_filename s) \<and> (\<forall>u \<in> set rs. tbl_path u \<noteq> tbl_path t)"
  shows "disk_ok X (fold (\<lambda>t d. sstable_drop (mark_obsolete t) d) inputs d) n rs"
  using assms
proof (induction inputs arbitrary: d)
  case (Cons t inputs)
  then obtain s where "tbl_path t = run_filename s" by auto
  then have "disk_ok X (sstable_drop (mark_obsolete t) d) n rs"
    using Cons.prems by (intro disk_ok_drop [of X d n rs _ s]) (simp_all add: mark_obsolete_def)
  with Cons show ?case by simp
qed simp

text \<open>
  A whole compaction, on every outcome: the invariant holds, no lookup changes, and a
  compaction that reports success leaves at most one run.
\<close>

lemma drop_inputs_post:
  assumes inv: "engine_inv X e"
    and t: "\<forall>t \<in> set ts. (\<exists>s. tbl_path t = run_filename s) \<and> (\<forall>u \<in> set (runs e). tbl_path u \<noteq> tbl_path t)"
  shows "engine_inv X (drop_inputs ts e) \<and> view X (drop_inputs ts e) = view X e"
  using inv drop_inputs_ok [of X "disk e" "next_seq e" "runs e" ts] t
  by (simp add: drop_inputs_def engine_inv_def view_def)

lemma compact_inner_post:
  assumes X: "bloom_laws X" and inv: "engine_inv X e" and hr: "headroom e"
    and sz: "sized (concat (map (run_entries X) (runs e)))"
    and ci: "compact_inner X e = (r, e')"
  shows "engine_inv X e' \<and> view X e' = view X e \<and> mem e' = mem e \<and> dur e' = dur e
     \<and> (r = Inr () \<longrightarrow> length (runs e') \<le> 1)"
proof (cases "length (runs e) < 2")
  case True
  with inv ci show ?thesis by (auto simp: compact_inner_def compact_snapshot_def)
next
  case False
  let ?in = "runs e"
  have good: "\<forall>t \<in> set ?in. good_run X t"
    using engine_inv_reads [OF inv] by (simp add: reads_inv_def)
  obtain r1 e1 where cm: "compact_merge X ?in e = (r1, e1)" by fastforce
  have bp: "built_post X ?in e (r1, e1)" using compact_merge_post [OF X inv hr good sz] cm by simp
  have v1: "view X e1 = view X e" using bp by (simp add: built_post_def view_def)
  show ?thesis
  proof (cases r1)
    case (Inl err)
    with False ci cm bp v1 show ?thesis
      by (auto simp: compact_inner_def compact_snapshot_def built_post_def)
  next
    case (Inr out)
    with bp have i1: "engine_inv X e1" and rs1: "runs e1 = [] @ ?in" and m: "merges X ?in out"
      and new: "runs_ok X (disk e1) (next_seq e1) (out # runs e1)" "distinct (map tbl_path (out # runs e1))"
      and h: "handles_ok X (runs e1 @ [out]) (next_run_id e1) (cache e1)"
      by (simp_all add: built_post_def)
    obtain r2 e2 where cs: "compact_swap X ?in out e1 = (r2, e2)" by fastforce
    have sp: "swap_post X [] out e1 (r2, e2)" using compact_swap_post [OF i1 rs1 m new h] cs by simp
    show ?thesis
    proof (cases r2)
      case (Inl err)
      with False ci cm Inr cs sp bp v1 show ?thesis
        by (auto simp: compact_inner_def compact_snapshot_def swap_post_def built_post_def)
    next
      case R2: (Inr x)
      have e': "e' = drop_inputs ?in e2" "r = Inr ()"
        using False ci cm Inr cs R2 by (simp_all add: compact_inner_def compact_snapshot_def)
      have i2: "engine_inv X e2" and rs2: "runs e2 = [out]" using sp R2 by (simp_all add: swap_post_def)
      have "\<forall>t \<in> set ?in. (\<exists>s. tbl_path t = run_filename s) \<and> (\<forall>u \<in> set (runs e2). tbl_path u \<noteq> tbl_path t)"
        using new rs1 rs2 by (auto simp: runs_ok_def)
      with drop_inputs_post [OF i2] show ?thesis
        using sp bp v1 R2 rs2 e' by (simp add: swap_post_def built_post_def drop_inputs_def)
    qed
  qed
qed

lemma engine_inv_compacting: "engine_inv X (e\<lparr>compacting := b\<rparr>) = engine_inv X e"
  "view X (e\<lparr>compacting := b\<rparr>) = view X e" "headroom (e\<lparr>compacting := b\<rparr>) = headroom e"
  by (simp_all add: engine_inv_def view_def headroom_def)

lemma compact_once_post:
  assumes X: "bloom_laws X" and inv: "engine_inv X e" and hr: "headroom e"
    and sz: "sized (concat (map (run_entries X) (runs e)))"
    and ci: "compact_once X e = (r, e')"
  shows "engine_inv X e' \<and> view X e' = view X e \<and> mem e' = mem e \<and> dur e' = dur e"
proof (cases "compacting e")
  case True
  with inv ci show ?thesis by (auto simp: compact_once_def)
next
  case False
  obtain r1 e1 where c: "compact_inner X (e\<lparr>compacting := True\<rparr>) = (r1, e1)" by fastforce
  have "engine_inv X e1 \<and> view X e1 = view X e \<and> mem e1 = mem e \<and> dur e1 = dur e"
    using compact_inner_post [OF X _ _ _ c] inv hr sz by (simp add: engine_inv_compacting)
  moreover have "e' = e1\<lparr>compacting := False\<rparr>" using False ci c by (simp add: compact_once_def)
  ultimately show ?thesis by (simp add: engine_inv_compacting)
qed

end
