(* ===== verification/Store.thy ===== *)
theory Store
  imports Engine_Write
begin

text \<open>
  The promise of the store as a map from keys to values. The locale \<^verbatim>\<open>store_contract\<close>
  states it for any implementation: an operation that is admitted keeps the invariant,
  and if it reports success the map changes as the operation says. Its consequences for
  sequences of operations are proved there once; the engine is interpreted as such a
  store.
\<close>

locale store_contract =
  fixes inv :: "'s \<Rightarrow> bool"
    and contents :: "'s \<Rightarrow> bytes \<Rightarrow> bytes option"
    and step :: "'op \<Rightarrow> 's \<Rightarrow> unit res \<times> 's"
    and effect :: "'op \<Rightarrow> (bytes \<Rightarrow> bytes option) \<Rightarrow> bytes \<Rightarrow> bytes option"
    and admits :: "'s \<Rightarrow> 'op \<Rightarrow> bool"
    and lookup :: "bytes \<Rightarrow> 's \<Rightarrow> bytes option res \<times> 's"
  assumes step_inv: "inv s \<Longrightarrow> admits s a \<Longrightarrow> inv (snd (step a s))"
    and step_contents: "inv s \<Longrightarrow> admits s a \<Longrightarrow> fst (step a s) = Inr () \<Longrightarrow>
          contents (snd (step a s)) = effect a (contents s)"
    and lookup_contents: "inv s \<Longrightarrow> fst (lookup k s) = Inr (contents s k)"
    and lookup_inv: "inv s \<Longrightarrow> inv (snd (lookup k s)) \<and> contents (snd (lookup k s)) = contents s"
begin

text \<open>Running operations one after another, all admitted and all successful.\<close>

inductive performs :: "'s \<Rightarrow> 'op list \<Rightarrow> 's \<Rightarrow> bool" where
  performs_Nil: "performs s [] s"
| performs_Cons: "admits s a \<Longrightarrow> fst (step a s) = Inr () \<Longrightarrow> performs (snd (step a s)) as s' \<Longrightarrow> performs s (a # as) s'"

lemma performs_contents:
  "performs s as s' \<Longrightarrow> inv s \<Longrightarrow> inv s' \<and> contents s' = fold effect as (contents s)"
  by (induction rule: performs.induct) (simp_all add: step_inv step_contents)

lemma performs_lookup:
  "performs s as s' \<Longrightarrow> inv s \<Longrightarrow> fst (lookup k s') = Inr (fold effect as (contents s) k)"
  using performs_contents lookup_contents by simp

end

section \<open>Writes\<close>

text \<open>\<^verbatim>\<open>put\<close>, \<^verbatim>\<open>delete\<close> and \<^verbatim>\<open>write\<close> are one operation on a list of records.\<close>

definition write_ops :: "'f externals \<Rightarrow> entry list \<Rightarrow> ('f, unit) engact" where
  "write_ops X ws e =
     (case log_batch X (dur e) ws (disk e) of
        (Inl err, d) \<Rightarrow> (Inl err, e\<lparr>disk := d\<rparr>)
      | (Inr _, d) \<Rightarrow> maybe_flush X (e\<lparr>disk := d, mem := apply_all ws (mem e)\<rparr>))"

lemma writes_are_write_ops:
  "engine_put X k v = write_ops X [(k, Value v)]"
  "engine_delete X k = write_ops X [(k, Tombstone)]"
  "engine_write X b = write_ops X (batch_records b)"
  by (simp_all add: fun_eq_iff engine_put_def engine_delete_def engine_write_def write_ops_def log_one_batch Let_def
      split: prod.splits sum.splits)

definition spec_apply :: "entry \<Rightarrow> (bytes \<Rightarrow> bytes option) \<Rightarrow> bytes \<Rightarrow> bytes option" where
  "spec_apply e m = m(fst e := visible (snd e))"

lemma resolve_apply:
  "resolve (memtable_iter (apply_all ws m) # ess) = fold spec_apply ws (resolve (memtable_iter m # ess))"
proof (induction ws arbitrary: m)
  case (Cons e ws)
  obtain k r where e: "e = (k, r)" by fastforce
  have "map_of (memtable_iter (memtable_apply m k r)) = (map_of (memtable_iter m))(k \<mapsto> r)"
    by (simp add: fun_eq_iff memtable_iter_def entries_memtable_apply map_of_btree_insert)
  then have "resolve (memtable_iter (memtable_apply m k r) # ess) = (resolve (memtable_iter m # ess))(k := visible r)"
    by (simp add: fun_eq_iff resolve_Cons)
  then have "resolve (memtable_iter (memtable_apply m k r) # ess) = spec_apply e (resolve (memtable_iter m # ess))"
    by (simp only: e spec_apply_def fst_conv snd_conv)
  with Cons.IH [of "memtable_apply m k r"] show ?case by (simp only: e apply_all_simps fold.simps comp_apply)
qed simp

text \<open>
  What a write needs of the state: counters short of wrapping, and a buffer that fits
  one run once the write is applied.
\<close>

definition admits_ops :: "'f engine \<Rightarrow> entry list \<Rightarrow> bool" where
  "admits_ops e ws \<longleftrightarrow> headroom e \<and> sized (entries (apply_all ws (mem e))) \<and> wal_path (dur e) = WAL_FILE"

lemma disk_ok_log:
  assumes "disk_ok X d n rs" and "wal_path du = WAL_FILE" and "log_batch X du ws d = (r, d')"
  shows "disk_ok X d' n rs"
  using assms(1) act_keepsD [OF log_batch_keeps [OF assms(2)] assms(3)] by (rule disk_ok_wal)

definition write_post :: "'f externals \<Rightarrow> entry list \<Rightarrow> 'f engine \<Rightarrow> unit res \<times> 'f engine \<Rightarrow> bool" where
  "write_post X ws e out \<longleftrightarrow> engine_inv X (snd out) \<and> wal_path (dur (snd out)) = WAL_FILE
     \<and> (fst out = Inr () \<longrightarrow> view X (snd out) = fold spec_apply ws (view X e))"

lemma write_ops_post:
  assumes X: "bloom_laws X" and inv: "engine_inv X e" and ad: "admits_ops e ws"
  shows "write_post X ws e (write_ops X ws e)"
proof -
  obtain r d where lb: "log_batch X (dur e) ws (disk e) = (r, d)" by fastforce
  have wp: "wal_path (dur e) = WAL_FILE" using ad by (simp add: admits_ops_def)
  have ok: "disk_ok X d (next_seq e) (runs e)"
    using inv disk_ok_log [OF _ wp lb] by (simp add: engine_inv_def)
  let ?e = "e\<lparr>disk := d, mem := apply_all ws (mem e)\<rparr>"
  have sz: "sized (entries (mem ?e))" and hr: "headroom ?e" using ad by (simp_all add: admits_ops_def headroom_def)
  have i1: "engine_inv X ?e"
    using inv ok sz apply_all_inv by (simp add: engine_inv_def sized_def)
  have v1: "view X ?e = fold spec_apply ws (view X e)" by (simp add: view_def resolve_apply)
  have fp: "flush_post X ?e (flush_locked X ?e)"
    using flush_locked_post [OF X i1 hr sz] wp by simp
  show ?thesis
  proof (cases r)
    case (Inl err)
    with lb inv ok wp show ?thesis by (simp add: write_ops_def write_post_def engine_inv_def)
  next
    case (Inr x)
    then have eq: "write_ops X ws e = maybe_flush X ?e" using lb by (simp add: write_ops_def)
    show ?thesis
    proof (cases "\<not> memtable_is_empty (mem ?e) \<and> memtable_capacity_bytes (eng_config ?e) \<le> memtable_approx_size (mem ?e)")
      case True
      then have "write_ops X ws e = flush_locked X ?e" unfolding eq maybe_flush_def by simp
      moreover have "fst (flush_locked X ?e) = Inr () \<Longrightarrow> view X (snd (flush_locked X ?e)) = view X ?e"
        using fp flushed_view by (auto simp: flush_post_def)
      ultimately show ?thesis using fp v1 by (simp add: write_post_def flush_post_def)
    next
      case False
      then have "write_ops X ws e = (Inr (), ?e)" unfolding eq maybe_flush_def by (simp only: if_False)
      with i1 v1 wp show ?thesis by (simp add: write_post_def)
    qed
  qed
qed

section \<open>The engine is a store\<close>

datatype store_op = PutOp bytes bytes | DeleteOp bytes | WriteOp batch | FlushOp | CompactOp

fun run_op :: "'f externals \<Rightarrow> store_op \<Rightarrow> ('f, unit) engact" where
  "run_op X (PutOp k v) = engine_put X k v"
| "run_op X (DeleteOp k) = engine_delete X k"
| "run_op X (WriteOp b) = engine_write X b"
| "run_op X FlushOp = engine_flush X"
| "run_op X CompactOp = compact_once X"

fun op_records :: "store_op \<Rightarrow> entry list" where
  "op_records (PutOp k v) = [(k, Value v)]"
| "op_records (DeleteOp k) = [(k, Tombstone)]"
| "op_records (WriteOp b) = batch_records b"
| "op_records FlushOp = []"
| "op_records CompactOp = []"

definition op_effect :: "store_op \<Rightarrow> (bytes \<Rightarrow> bytes option) \<Rightarrow> bytes \<Rightarrow> bytes option" where
  "op_effect a = fold spec_apply (op_records a)"

definition admits_op :: "'f externals \<Rightarrow> 'f engine \<Rightarrow> store_op \<Rightarrow> bool" where
  "admits_op X e a \<longleftrightarrow> admits_ops e (op_records a)
     \<and> (a = CompactOp \<longrightarrow> sized (concat (map (run_entries X) (runs e))))"

definition store_inv :: "'f externals \<Rightarrow> 'f engine \<Rightarrow> bool" where
  "store_inv X e \<longleftrightarrow> bloom_laws X \<and> engine_inv X e"

lemma run_op_correct:
  assumes "store_inv X e" and "admits_op X e a"
  shows "store_inv X (snd (run_op X a e))
     \<and> (fst (run_op X a e) = Inr () \<longrightarrow> view X (snd (run_op X a e)) = op_effect a (view X e))"
proof -
  have X: "bloom_laws X" and inv: "engine_inv X e" and ad: "admits_ops e (op_records a)"
    using assms by (simp_all add: store_inv_def admits_op_def)
  consider "run_op X a = write_ops X (op_records a)" | "a = FlushOp" | "a = CompactOp"
    by (cases a) (simp_all add: writes_are_write_ops)
  then show ?thesis
  proof cases
    case 1
    with write_ops_post [OF X inv ad] X show ?thesis
      by (simp add: write_post_def store_inv_def op_effect_def)
  next
    case 2
    have "flush_post X e (flush_locked X e)"
      using ad 2 by (intro flush_locked_post [OF X inv]) (simp_all add: admits_ops_def)
    then have "engine_inv X (snd (flush_locked X e))"
      "fst (flush_locked X e) = Inr () \<Longrightarrow> view X (snd (flush_locked X e)) = view X e"
      using flushed_view by (auto simp: flush_post_def)
    with 2 X inv show ?thesis by (simp add: engine_flush_def store_inv_def op_effect_def)
  next
    case 3
    obtain r e' where c: "compact_once X e = (r, e')" by fastforce
    have "engine_inv X e' \<and> view X e' = view X e"
      using compact_once_post [OF X inv _ _ c] assms(2) 3 by (simp add: admits_op_def admits_ops_def)
    with 3 X c show ?thesis by (simp add: store_inv_def op_effect_def)
  qed
qed

interpretation lsm: store_contract "store_inv X" "view X" "run_op X" op_effect "admits_op X" "engine_get X"
  for X :: "'f externals"
proof
  fix s :: "'f engine" and a k
  assume inv: "store_inv X s"
  show "store_inv X (snd (run_op X a s))" if "admits_op X s a"
    using run_op_correct [OF inv that] by simp
  show "view X (snd (run_op X a s)) = op_effect a (view X s)" if "admits_op X s a" "fst (run_op X a s) = Inr ()"
    using run_op_correct [OF inv that(1)] that(2) by simp
  have rd: "reads_inv X s" using inv by (simp add: store_inv_def engine_inv_reads)
  show "fst (engine_get X k s) = Inr (view X s k)" using get_correct(1) [OF rd] .
  have "cache_coherent X (set (runs s)) (next_run_id s) (cache (snd (engine_get X k s)))"
    "\<exists>c. snd (engine_get X k s) = s\<lparr>cache := c\<rparr> \<or> snd (engine_get X k s) = s"
    using get_correct(2) [OF rd, of k]
    by (auto simp: engine_get_def reads_inv_def split: option.splits record_v.splits prod.splits)
  then have "engine_inv X (snd (engine_get X k s))"
    using inv by (auto simp: store_inv_def engine_inv_def handles_ok_def)
  with get_correct(2) [OF rd, of k] inv
  show "store_inv X (snd (engine_get X k s)) \<and> view X (snd (engine_get X k s)) = view X s"
    by (simp add: store_inv_def)
qed

end
