(* ===== verification/Recovery.thy ===== *)
theory Recovery
  imports Store
begin

text \<open>
  Opening a directory. \<^verbatim>\<open>recoverable X d rs\<close> is all an open needs: the manifest names the
  runs \<^verbatim>\<open>rs\<close> and their files are whole. What else lies in the directory (temporaries, runs
  a crash orphaned, sidecars without a run) does not matter and is removed. The opened
  engine shows the runs of the manifest under the writes replayed from the log.
\<close>

definition recoverable :: "'f externals \<Rightarrow> fs \<Rightarrow> 'f sstable list \<Rightarrow> bool" where
  "recoverable X d rs \<longleftrightarrow> fs_inv d \<and> (\<forall>t \<in> set rs. committed X d t \<and> (\<exists>s. tbl_path t = run_filename s))
     \<and> distinct (map tbl_path rs)
     \<and> ((\<exists>seq. fs_lookup d MANIFEST = Some (manifest_file seq (map tbl_path rs)))
        \<or> rs = [] \<and> fs_lookup d MANIFEST = None)"

lemma disk_ok_recoverable: "disk_ok X d n rs \<Longrightarrow> recoverable X d rs"
  by (auto simp: disk_ok_def recoverable_def runs_ok_def manifest_ok_def)

text \<open>The run a successful open gives for a file: the same bytes and entries, under a new id.\<close>

definition reopened :: "'f externals \<Rightarrow> 'f sstable \<Rightarrow> 'f sstable \<Rightarrow> bool" where
  "reopened X t u \<longleftrightarrow> tbl_path u = tbl_path t \<and> run_entries X u = run_entries X t"

section \<open>Opening the runs\<close>

lemma exists_ok: "fs_exists name d = (Inr b, d') \<Longrightarrow> d' = tick d"
  by (auto simp: fs_exists_def split: option.splits)

lemma load_keeps_committed:
  assumes c: "committed_at X d t bss" and fl: "filter_load X p d = (r, d')"
    and o: "p = tbl_path t \<or> \<not> sidecar_names p (tbl_path t) \<and> \<not> sidecar_names p (sidecar_path (tbl_path t))"
  shows "committed_at X d' t bss"
proof -
  have tc: "touches (sidecar_names p) d d'" using act_keepsD [OF filter_load_keeps fl] .
  show ?thesis
  proof (cases "p = tbl_path t")
    case False
    with o c touchesD [OF tc] show ?thesis by (auto simp: committed_at_def)
  next
    case True
    have "fs_lookup d' (tbl_path t) = fs_lookup d (tbl_path t)"
      using touchesD [OF tc] True by (simp add: sidecar_path_def)
    moreover have "fs_lookup d' (sidecar_path p) = fs_lookup d (sidecar_path p) \<or> fs_lookup d' (sidecar_path p) = None"
      using fl by (auto simp: filter_load_def Let_def fs_read_def fs_remove_file_def
          split: if_splits prod.splits sum.splits option.splits)
    ultimately show ?thesis using c True by (auto simp: committed_at_def)
  qed
qed

lemma sidecar_names_run:
  assumes "sidecar_names (run_filename a) n" and "run_names (run_filename b) n"
  shows "a = b"
  using assms run_names_disjoint sidecar_run_names by blast

lemma open_one:
  assumes X: "bloom_laws X" and c: "committed X d t"
    and op: "sstable_open X rid (tbl_path t) d = (Inr u, d1)"
    and fl: "filter_load X (tbl_path t) d1 = (Inr fo, d2)"
  shows "reopened X t (attach_cache (attach_filter u fo)) \<and> committed X d2 (attach_cache (attach_filter u fo))
     \<and> run_id (attach_cache (attach_filter u fo)) = rid"
proof -
  from c obtain bss where c: "committed_at X d t bss" by (auto simp: committed_def)
  then have b: "readable bss" "length (run_image X bss) < usize_limit"
    "file_bytes t = run_image X bss" "tbl_index t = handles X 8 bss"
    "fs_lookup d (tbl_path t) = Some (File (run_image X bss) True)"
    "\<And>f. fs_lookup d (sidecar_path (tbl_path t)) = Some f \<Longrightarrow>
            covers X (sidecar_decode X (fdata f)) (fst ` set (concat bss))"
    by (simp_all add: committed_at_def)
  let ?v = "attach_cache (attach_filter u fo)"
  have u: "u = opened X rid (tbl_path t) bss" using sstable_open_image [OF b(5) _ readable_indexable [OF b(1)] b(2) op] by simp
  have same: "fs_lookup d1 n = fs_lookup d n" for n
    using touchesD [OF act_keepsD [OF sstable_open_keeps op]] by simp
  have "committed_at X d1 t bss" using c same by (simp add: committed_at_def)
  then have c2: "committed_at X d2 t bss" using load_keeps_committed [OF _ fl] by simp
  have cov: "covers X fo (fst ` set (concat bss))"
    by (rule filter_load_covers [OF fl]) (use b(6) same in simp)
  have T: "table_of X u bss" "table_of X t bss"
    using table_of_opened [OF b(1,2)] table_of_cong [of t "opened X 0 [] bss" X bss] b(3,4)
    by (simp_all add: u opened_def)
  have "run_entries X ?v = run_entries X t"
    using table_entries [of X ?v bss] table_entries [OF T(2)] T(1) by simp
  moreover have "committed_at X d2 ?v bss"
    using c2 cov b(3,4) by (simp add: committed_at_def u opened_def attach_cache_def attach_filter_def)
  then have "committed X d2 ?v" by (auto simp: committed_def)
  ultimately show ?thesis by (simp add: reopened_def u opened_def attach_cache_def attach_filter_def)
qed

definition opened_ok :: "'f externals \<Rightarrow> fs \<Rightarrow> u64 \<Rightarrow> 'f sstable list \<Rightarrow> bool" where
  "opened_ok X d rid us \<longleftrightarrow> (\<forall>u \<in> set us. committed X d u \<and> run_id u < rid) \<and> distinct (map run_id us)"

text \<open>Loading the filter of one run leaves the files of the others alone.\<close>

lemma open_step_keeps:
  assumes "committed X d u" and "tbl_path u = run_filename a" and "run_filename b \<noteq> tbl_path u"
    and "sstable_open X rid (run_filename b) d = (r1, d1)" and "filter_load X (run_filename b) d1 = (r2, d2)"
  shows "committed X d2 u"
proof -
  from assms(1) obtain bss where "committed_at X d u bss" by (auto simp: committed_def)
  then have "committed_at X d1 u bss"
    using touchesD [OF act_keepsD [OF sstable_open_keeps assms(4)]] by (simp add: committed_at_def)
  moreover have "\<not> sidecar_names (run_filename b) (tbl_path u) \<and> \<not> sidecar_names (run_filename b) (sidecar_path (tbl_path u))"
    using sidecar_names_run [where a = b] sidecar_run_names assms(2,3) by metis
  ultimately have "committed_at X d2 u bss" using load_keeps_committed [OF _ assms(5)] by blast
  then show ?thesis by (auto simp: committed_def)
qed

lemma open_runs_ok:
  assumes X: "bloom_laws X" and us: "opened_ok X d rid us"
    and rs: "\<forall>t \<in> set rs. committed X d t"
    and names: "\<forall>t \<in> set (us @ rs). \<exists>s. tbl_path t = run_filename s" "distinct (map tbl_path (us @ rs))"
    and ov: "unat rid + length rs < 2 ^ 64"
    and op: "open_runs X (map tbl_path rs) rid us d = (Inr (ts, rid'), d')"
  shows "\<exists>vs. ts = us @ vs \<and> list_all2 (reopened X) rs vs \<and> opened_ok X d' rid' ts
     \<and> unat rid' = unat rid + length rs"
  using us rs names ov op
proof (induction rs arbitrary: us rid d)
  case Nil
  then show ?case by auto
next
  case (Cons t rs)
  let ?v = "\<lambda>u fo. attach_cache (attach_filter u fo)"
  from Cons.prems(6) obtain d0 u d1 fo d2 where ex: "(fs_exists (tbl_path t) d :: bool res \<times> fs) = (Inr True, d0)"
    and op: "sstable_open X rid (tbl_path t) d0 = (Inr u, d1)"
    and fl: "filter_load X (tbl_path t) d1 = (Inr fo, d2)"
    and rest: "open_runs X (map tbl_path rs) (rid + 1) (us @ [?v u fo]) d2 = (Inr (ts, rid'), d')"
    by (auto elim!: act_then_InrE split: if_splits)
  have d0: "committed X d0 w = committed X d w" for w
    using exists_ok [OF ex] by (simp add: committed_def committed_at_def)
  obtain a where a: "tbl_path t = run_filename a" using Cons.prems(3) by auto
  have o1: "reopened X t (?v u fo)" "committed X d2 (?v u fo)" "run_id (?v u fo) = rid"
    using open_one [OF X _ op fl] Cons.prems(2) d0 by simp_all
  have r1: "rid + 1 \<noteq> 0" using Cons.prems(5) by (intro succ_nonzero_u64) simp
  have keep: "committed X d2 w" if "w \<in> set (us @ rs)" for w
  proof -
    from that Cons.prems(3) obtain s where s: "tbl_path w = run_filename s" by auto
    have "committed X d0 w" using that Cons.prems(1,2) d0 by (auto simp: opened_ok_def)
    moreover have "run_filename a \<noteq> tbl_path w" using that Cons.prems(4) a by (auto simp: image_iff)
    ultimately show ?thesis using open_step_keeps [OF _ s _ op [unfolded a] fl [unfolded a]] by blast
  qed
  have lt: "rid < rid + 1" using r1 by (rule less_succ_u64)
  have "opened_ok X d2 (rid + 1) (us @ [?v u fo])"
    using Cons.prems(1) keep o1 lt by (auto simp: opened_ok_def intro: order.strict_trans)
  moreover have "tbl_path (?v u fo) = tbl_path t" using o1(1) by (simp add: reopened_def)
  then have "\<forall>w \<in> set ((us @ [?v u fo]) @ rs). \<exists>s. tbl_path w = run_filename s"
    "distinct (map tbl_path ((us @ [?v u fo]) @ rs))"
    using Cons.prems(3,4) by auto
  moreover have "unat (rid + 1) + length rs < 2 ^ 64"
    using Cons.prems(5) unat_succ_u64 [OF r1] by simp
  ultimately obtain vs where "ts = (us @ [?v u fo]) @ vs" "list_all2 (reopened X) rs vs"
    "opened_ok X d' rid' ts" "unat rid' = unat (rid + 1) + length rs"
    using Cons.IH [OF _ _ _ _ _ rest] keep by auto
  with o1(1) unat_succ_u64 [OF r1] show ?case by (intro exI [of _ "?v u fo # vs"]) simp
qed

section \<open>Reclaiming orphans\<close>

definition reclaimable :: "string list \<Rightarrow> string \<Rightarrow> bool" where
  "reclaimable live n \<longleftrightarrow> ends_with ''.tmp'' n
     \<or> (case strip_suffix ''.bloom'' n of Some run \<Rightarrow> run \<notin> set live | None \<Rightarrow> seq_of n \<noteq> None \<and> n \<notin> set live)"

lemma strip_suffix_Some: "strip_suffix x s = Some r \<longleftrightarrow> s = r @ x"
proof
  assume "strip_suffix x s = Some r"
  then obtain q where "take (length x) (rev s) = rev x" "r = rev q" "q = drop (length x) (rev s)"
    by (auto simp: strip_suffix_def strip_prefix_def split: if_splits)
  then have "rev s = rev x @ rev r" by (metis append_take_drop_id rev_rev_ident)
  then show "s = r @ x" by (metis rev_append rev_rev_ident)
qed simp

lemma strip_suffix_other:
  assumes "length x = length y \<Longrightarrow> x \<noteq> y" and "last x \<noteq> last y" and "x \<noteq> []" "y \<noteq> []"
  shows "strip_suffix x (p @ y) = None"
proof (rule ccontr)
  assume "strip_suffix x (p @ y) \<noteq> None"
  then obtain r where "p @ y = r @ x" using strip_suffix_Some by fastforce
  then have "last y = last x" using assms(3,4) by (metis last_appendR)
  with assms(2) show False by simp
qed

lemma seq_of_stem:
  assumes "seq_of n = Some s"
  shows "\<exists>q. n = q @ ''.sst''" "strip_suffix ''.tmp'' n = None" "strip_suffix ''.bloom'' n = None"
proof -
  obtain rest q where rest: "strip_prefix ''run-'' n = Some rest" and "strip_suffix ''.sst'' rest = Some q"
    using assms by (auto simp: seq_of_def bind_eq_Some_conv)
  then have "rest = q @ ''.sst''" by (simp only: strip_suffix_Some)
  moreover have "n = ''run-'' @ rest"
    using rest append_take_drop_id [of "length ''run-''" n] by (auto simp only: strip_prefix_def option.inject split: if_splits)
  ultimately have q: "n = (''run-'' @ q) @ ''.sst''" by simp
  then show "\<exists>q. n = q @ ''.sst''" by blast
  show "strip_suffix ''.tmp'' n = None" "strip_suffix ''.bloom'' n = None"
    unfolding q by (rule strip_suffix_other; simp)+
qed

text \<open>What the sweep removes, in terms of names.\<close>

lemma reclaimable_iff:
  "reclaimable live n \<longleftrightarrow> (\<exists>p. n = p @ ''.tmp'') \<or> (\<exists>r. n = r @ ''.bloom'' \<and> r \<notin> set live)
     \<or> (\<exists>s. seq_of n = Some s) \<and> n \<notin> set live"
proof -
  have t: "ends_with ''.tmp'' n \<longleftrightarrow> (\<exists>p. n = p @ ''.tmp'')"
    unfolding ends_with_def using strip_suffix_Some [of "''.tmp''" n] by (metis not_None_eq)
  show ?thesis
  proof (cases "strip_suffix ''.bloom'' n")
    case None
    then have "\<nexists>r. n = r @ ''.bloom''" using strip_suffix_Some by fastforce
    with None t show ?thesis by (auto simp: reclaimable_def)
  next
    case (Some run)
    then have "n = run @ ''.bloom''" "seq_of n = None" using strip_suffix_Some seq_of_stem(3) by fastforce+
    with Some t show ?thesis by (auto simp: reclaimable_def)
  qed
qed

lemma reclaimable_names:
  "\<not> reclaimable live MANIFEST" "\<not> reclaimable live WAL_FILE"
  "reclaimable live (run_filename s) \<longleftrightarrow> run_filename s \<notin> set live"
  "reclaimable live (sidecar_path (run_filename s)) \<longleftrightarrow> run_filename s \<notin> set live"
  "reclaimable live (p @ ''.tmp'')" "reclaimable live (p @ ''.bloom.tmp'')"
proof -
  show "\<not> reclaimable live MANIFEST" "\<not> reclaimable live WAL_FILE"
    by (simp_all add: reclaimable_def ends_with_def strip_suffix_def strip_prefix_def seq_of_def
        MANIFEST_def WAL_FILE_def)
  obtain q where q: "run_filename s = q @ ''.sst''" using run_filename_stem by (metis append_assoc)
  have "strip_suffix ''.tmp'' (run_filename s) = None" "strip_suffix ''.bloom'' (run_filename s) = None"
    unfolding q by (rule strip_suffix_other; simp)+
  then show "reclaimable live (run_filename s) \<longleftrightarrow> run_filename s \<notin> set live"
    by (simp add: reclaimable_def ends_with_def seq_of_run_filename)
  have "strip_suffix ''.tmp'' (run_filename s @ ''.bloom'') = None" by (rule strip_suffix_other; simp)
  then show "reclaimable live (sidecar_path (run_filename s)) \<longleftrightarrow> run_filename s \<notin> set live"
    by (simp add: reclaimable_def ends_with_def sidecar_path_def)
  show "reclaimable live (p @ ''.tmp'')" by (simp add: reclaimable_def ends_with_def)
  have "p @ ''.bloom.tmp'' = (p @ ''.bloom'') @ ''.tmp''" by simp
  then show "reclaimable live (p @ ''.bloom.tmp'')"
    unfolding reclaimable_def ends_with_def by (metis option.distinct(1) strip_suffix_append)
qed

text \<open>One directory entry: removed exactly if reclaimable; a run's number is counted past.\<close>

lemma reclaim_entry_ok:
  assumes "reclaim_entry live name seq d = (Inr seq', d')"
  shows "fs_lookup d' n = (if n = name \<and> reclaimable live name then None else fs_lookup d n)"
    and "seq \<le> seq'" and "seq_of name = Some s \<Longrightarrow> s + 1 \<le> seq'" and "fs_inv d \<Longrightarrow> fs_inv d'"
    and "plan d' = plan d"
    and "N < 2 ^ 64 \<Longrightarrow> unat seq \<le> N \<Longrightarrow> (\<And>s. seq_of name = Some s \<Longrightarrow> unat s < N) \<Longrightarrow> unat seq' \<le> N"
proof -
  have rm: "fs_lookup u' n = (if n = name then None else fs_lookup u n) \<and> (fs_inv u \<longrightarrow> fs_inv u') \<and> plan u' = plan u"
    if "fs_remove_file name u = (Inr x, u')" for u u' x n
    using that by (auto simp: fs_remove_file_def split: option.splits)
  from assms obtain d0 where c: "fs_call (Inr ()) d = (Inr (), d0)"
    and body: "(if ends_with ''.tmp'' name then
       act_then (act_map_err (io ''remove temporary file'') (fs_remove_file name)) (\<lambda>_. act_ok seq)
     else case strip_suffix ''.bloom'' name of
       Some run \<Rightarrow>
         if run \<notin> set live
         then act_then (act_map_err (io ''remove orphan bloom sidecar'') (fs_remove_file name)) (\<lambda>_. act_ok seq)
         else act_ok seq
     | None \<Rightarrow>
         (case seq_of name of
            None \<Rightarrow> act_ok seq
          | Some s \<Rightarrow>
              let seq = max seq (s + 1) in
              if name \<notin> set live
              then act_then (act_map_err (io ''remove orphan run'') (fs_remove_file name)) (\<lambda>_. act_ok seq)
              else act_ok seq)) d0 = (Inr seq', d')"
    unfolding reclaim_entry_def by (auto elim!: act_then_InrE simp: act_map_err_Inr_iff)
  have d0: "fs_lookup d0 n = fs_lookup d n" "fs_inv d0 = fs_inv d" "plan d0 = plan d" for n
    using c by (auto simp: fs_call_def split: option.splits)
  show "fs_lookup d' n = (if n = name \<and> reclaimable live name then None else fs_lookup d n)"
    using body rm [of d0 _ d' n] d0(1) [of n] unfolding reclaimable_def
    by (auto elim!: act_then_InrE simp: act_map_err_Inr_iff Let_def split: if_splits option.splits)
  show "seq \<le> seq'"
    using body by (auto elim!: act_then_InrE simp: Let_def split: if_splits option.splits)
  show "fs_inv d \<Longrightarrow> fs_inv d'" "plan d' = plan d"
    using body rm [of d0 _ d'] d0
    by (auto elim!: act_then_InrE simp: act_map_err_Inr_iff Let_def split: if_splits option.splits)
  have small: "unat (max seq (s + 1)) \<le> N" if "N < 2 ^ 64" "unat seq \<le> N" "unat s < N" for s
    using that unat_succ_u64 [of s] succ_nonzero_u64 [of s] by (simp add: max_def)
  show "unat seq' \<le> N" if "N < 2 ^ 64" "unat seq \<le> N" "\<And>s. seq_of name = Some s \<Longrightarrow> unat s < N"
    using body that small by (auto elim!: act_then_InrE simp: Let_def split: if_splits option.splits)
  show "s + 1 \<le> seq'" if nm: "seq_of name = Some s"
    using body seq_of_stem(2,3) [OF nm] nm
    by (auto elim!: act_then_InrE simp: ends_with_def Let_def split: if_splits)
qed

lemma reclaim_ok:
  assumes "reclaim live names seq d = (Inr seq', d')"
  shows "(\<forall>n. fs_lookup d' n = (if n \<in> set names \<and> reclaimable live n then None else fs_lookup d n))
     \<and> seq \<le> seq' \<and> (\<forall>name s. name \<in> set names \<longrightarrow> seq_of name = Some s \<longrightarrow> s + 1 \<le> seq') \<and> (fs_inv d \<longrightarrow> fs_inv d') \<and> plan d' = plan d"
  using assms
proof (induction names arbitrary: seq d)
  case (Cons name names)
  from Cons.prems obtain seq1 d1 where e: "reclaim_entry live name seq d = (Inr seq1, d1)"
    and r: "reclaim live names seq1 d1 = (Inr seq', d')" by (auto elim: act_then_InrE)
  note re = reclaim_entry_ok [OF e] and ih = Cons.IH [OF r]
  have "fs_lookup d' n = (if n \<in> set (name # names) \<and> reclaimable live n then None else fs_lookup d n)" for n
    using ih re(1) [of n] by auto
  moreover have "s + 1 \<le> seq'" if "n \<in> set (name # names)" "seq_of n = Some s" for n s
    using that ih re(3) [of s] by (metis order_trans set_ConsD)
  ultimately show ?case using ih re(2,4,5) by auto
qed simp

lemma reclaim_bound:
  assumes "reclaim live names seq d = (Inr seq', d')" and "N < 2 ^ 64" "unat seq \<le> N"
    and "\<And>name s. name \<in> set names \<Longrightarrow> seq_of name = Some s \<Longrightarrow> unat s < N"
  shows "unat seq' \<le> N"
  using assms
proof (induction names arbitrary: seq d)
  case (Cons name names)
  from Cons.prems(1) obtain seq1 d1 where e: "reclaim_entry live name seq d = (Inr seq1, d1)"
    and r: "reclaim live names seq1 d1 = (Inr seq', d')" by (auto elim: act_then_InrE)
  have "unat seq1 \<le> N"
    by (rule reclaim_entry_ok(6) [OF e Cons.prems(2,3)]) (use Cons.prems(4) in auto)
  show ?case by (rule Cons.IH [OF r Cons.prems(2) \<open>unat seq1 \<le> N\<close>]) (use Cons.prems(4) in auto)
qed simp

section \<open>The opened engine\<close>

definition replayed :: "'f externals \<Rightarrow> entry list list \<Rightarrow> 'f sstable list \<Rightarrow> bytes \<Rightarrow> bytes option" where
  "replayed X groups rs = resolve (memtable_iter (apply_all (concat groups) memtable_new) # map (run_entries X) rs)"

lemma open_runs_keeps:
  assumes "\<And>p n. p \<in> set names \<Longrightarrow> sidecar_names p n \<Longrightarrow> P n"
  shows "act_keeps (touches P) (open_runs X names rid acc)"
  using assms
proof (induction names arbitrary: rid acc)
  case Nil
  then show ?case by (simp add: act_keeps_def)
next
  case (Cons p ps)
  have "act_keeps (touches P) (filter_load X p)"
    by (rule act_keeps_touches_mono [OF filter_load_keeps]) (use Cons.prems in auto)
  moreover have "act_keeps (touches P) (open_runs X ps rid acc)" for rid acc
    using Cons.prems by (intro Cons.IH) auto
  ultimately show ?case
    unfolding open_runs.simps
    by (intro act_keeps_then act_keeps_if act_keeps_basic keeps_quiet [OF fs_exists_keeps]
        keeps_quiet [OF sstable_open_keeps] touches_transp touches_refl)
qed

lemma open_runs_touches:
  assumes "open_runs X names rid acc d = (r, d')"
  shows "touches (\<lambda>n. \<exists>p \<in> set names. sidecar_names p n) d d'"
  by (rule act_keepsD [OF open_runs_keeps assms]) blast

lemma manifest_load_keeps: "act_keeps (touches (\<lambda>n. False)) manifest_load"
  unfolding manifest_load_def fs_read_to_string_def
  by (auto intro!: act_keeps_intros fs_exists_keeps fs_read_keeps)

text \<open>What \<^verbatim>\<open>load\<close> answers, when the existence check itself does not fail.\<close>

lemma manifest_load_runs:
  assumes ld: "manifest_load d = (Inr mo, d')" and pl: "plan d (clock d) = None" and rec: "recoverable X d rs"
  shows "(case mo of Some m \<Rightarrow> m_runs m | None \<Rightarrow> []) = map tbl_path rs
     \<and> (\<forall>m. mo = Some m \<longrightarrow> fs_lookup d MANIFEST = Some (manifest_file (m_next_seq m) (map tbl_path rs)))
     \<and> (mo = None \<longrightarrow> rs = [] \<and> fs_lookup d MANIFEST = None)"
proof -
  have plain: "\<forall>r \<in> set (map tbl_path rs). plain r \<and> r \<noteq> []"
    using rec plain_run_filename by (simp add: recoverable_def) metis
  have ex: "fs_exists MANIFEST d = ((Inr (fs_lookup d MANIFEST \<noteq> None), tick d) :: bool res \<times> fs)"
    using pl by (simp add: fs_exists_def)
  from rec consider seq where "fs_lookup d MANIFEST = Some (manifest_file seq (map tbl_path rs))"
    | "rs = []" "fs_lookup d MANIFEST = None" by (auto simp: recoverable_def)
  then show ?thesis
  proof cases
    case (1 seq)
    have "mo \<noteq> None" using ld 1 ex by (auto simp: manifest_load_def act_then_def split: prod.splits sum.splits)
    with manifest_load_file [OF 1 plain ld] 1 show ?thesis by auto
  next
    case 2
    with ld ex show ?thesis by (auto simp: manifest_load_def act_then_def)
  qed
qed

text \<open>After the reclaim no file is in the way of a future run, and every live run is counted.\<close>

lemma reclaim_disk_ok:
  assumes rc: "reclaim (map tbl_path vs) (map fst (dir d)) seq0 d = (Inr seq, d')"
    and vs: "\<forall>t \<in> set vs. committed X d t \<and> (\<exists>s. tbl_path t = run_filename s)" "distinct (map tbl_path vs)"
    and inv: "fs_inv d" and nomax: "\<And>s. fs_lookup d (run_filename s) \<noteq> None \<Longrightarrow> s + 1 \<noteq> 0"
    and m: "fs_lookup d MANIFEST = Some (manifest_file seq0 (map tbl_path vs)) \<or> vs = [] \<and> fs_lookup d MANIFEST = None"
  shows "disk_ok X d' seq vs"
proof -
  let ?live = "map tbl_path vs"
  note r = reclaim_ok [OF rc]
  have lk: "fs_lookup d' n = (if reclaimable ?live n then None else fs_lookup d n)" for n
    using r fs_lookup_dir [of d n] by (metis (no_types, lifting))
  have counted: "s < seq \<and> s + 1 \<le> seq" if "fs_lookup d (run_filename s) \<noteq> None" for s
  proof -
    have "s + 1 \<le> seq" using r that fs_lookup_dir [of d "run_filename s"] seq_of_run_filename by blast
    moreover have "s < s + 1" using nomax [OF that] by (rule less_succ_u64)
    ultimately show ?thesis by auto
  qed
  have "runs_ok X d' seq vs"
    unfolding runs_ok_def
  proof
    fix t assume t: "t \<in> set vs"
    then obtain s bss where s: "tbl_path t = run_filename s" and c: "committed_at X d t bss"
      using vs(1) by (auto simp: committed_def)
    have "run_filename s \<in> set ?live" using t s by force
    then have "committed_at X d' t bss" using c lk by (simp add: committed_at_def s reclaimable_names)
    moreover have "s < seq" using counted c by (simp add: committed_at_def s)
    ultimately show "committed X d' t \<and> (\<exists>s < seq. tbl_path t = run_filename s)"
      using s by (auto simp: committed_def)
  qed
  moreover have "fresh d' seq"
    unfolding fresh_def
  proof (intro allI impI)
    fix s name assume s: "seq \<le> s" and n: "run_names (run_filename s) name"
    have gone: "fs_lookup d (run_filename s) = None" using counted [of s] s leD by blast
    have "run_filename s \<notin> set ?live"
    proof
      assume "run_filename s \<in> set ?live"
      then obtain t where "t \<in> set vs" "tbl_path t = run_filename s" by auto
      with vs(1) gone show False by (auto simp: committed_def committed_at_def)
    qed
    with n gone lk show "fs_lookup d' name = None"
      using reclaimable_names(3,4) [of ?live s] reclaimable_names(5,6) [of ?live "run_filename s"]
      by (auto simp: run_names_def sidecar_path_def)
  qed
  moreover have "manifest_ok d' seq ?live"
    using m r lk [of MANIFEST] by (auto simp: manifest_ok_def reclaimable_names)
  ultimately show ?thesis using vs(2) inv r by (simp add: disk_ok_def)
qed

text \<open>The log as an open finds it: groups of writes, or no file yet.\<close>

definition log_found :: "'f externals \<Rightarrow> fs \<Rightarrow> entry list list \<Rightarrow> bool" where
  "log_found X d groups \<longleftrightarrow> (\<forall>g \<in> set groups. loggable g)
     \<and> (if durability_on X then logs X d groups \<or> groups = [] \<and> fs_lookup d WAL_FILE = None else groups = [])"

lemma durability_open_ok:
  assumes w: "wal_laws X" and l: "log_found X d groups" and op: "durability_open X d = (Inr du, d')"
  shows "wal_ready X du \<and> touches (\<lambda>n. n = WAL_FILE) d d' \<and> (durability_on X \<longrightarrow> logs X d' groups)"
proof (cases "durability_on X")
  case False
  with op show ?thesis by (auto simp: durability_open_def wal_ready_def)
next
  case True
  with op obtain x where wo: "wal_open_file X WAL_FILE d = (Inr x, d')" and du: "du = \<lparr>wal_is_open = True, wal_path = WAL_FILE\<rparr>"
    by (auto simp: durability_open_def act_map_err_Inr_iff elim!: act_then_InrE)
  have "logs X d' groups"
    using l True wal_open_logs [OF w wo] by (auto simp: log_found_def)
  with act_keepsD [OF wal_open_keeps wo] du show ?thesis by (simp add: wal_ready_def)
qed

lemma replay_found:
  assumes l: "log_found X d0 groups" and on: "durability_on X \<longrightarrow> logs X d groups" and du: "wal_ready X du"
    and rp: "replay_log X du memtable_new d = (Inr m, d')"
  shows "m = apply_all (concat groups) memtable_new"
proof (cases "durability_on X")
  case True
  with on du l replay_log_ok [OF True _ _ _ rp] show ?thesis by (simp add: log_found_def wal_ready_def)
next
  case False
  with l rp show ?thesis by (auto simp: log_found_def replay_log_def)
qed

lemma replayed_fits:
  assumes "\<forall>g \<in> set groups. loggable g"
  shows "\<forall>x \<in> set (entries (apply_all (concat groups) memtable_new)). fits x"
proof -
  have "set (entries (apply_all ws m)) \<subseteq> set ws \<union> set (entries m)" for ws m
  proof (induction ws arbitrary: m)
    case (Cons w ws)
    obtain k r where w: "w = (k, r)" by fastforce
    have "set (btree_insert k r es) \<subseteq> insert (k, r) (set es)" for es
      by (induction es) auto
    with Cons.IH [of "memtable_apply m k r"] show ?case
      by (fastforce simp: w entries_memtable_apply)
  qed simp
  from this [of "concat groups" memtable_new] assms show ?thesis
    by (fastforce simp: memtable_new_def loggable_def)
qed

lemma open_files_steps:
  assumes "open_files X cfg rid d = (Inr e, d')"
  obtains d0 mo d1 ts rid' d2 names d3 seq d4 du d5 m where
    "fs_call (Inr ()) d = (Inr (), d0)" "manifest_load d0 = (Inr mo, d1)"
    "open_runs X (case mo of Some m \<Rightarrow> m_runs m | None \<Rightarrow> []) rid [] d1 = (Inr (ts, rid'), d2)"
    "fs_read_dir d2 = (Inr names, d3)"
    "reclaim (case mo of Some m \<Rightarrow> m_runs m | None \<Rightarrow> []) names
       (case mo of Some m \<Rightarrow> m_next_seq m | None \<Rightarrow> 0) d3 = (Inr seq, d4)"
    "durability_open X d4 = (Inr du, d5)" "replay_log X du memtable_new d5 = (Inr m, d')"
    "e = \<lparr>eng_config = cfg, mem = m, runs = ts, dur = du, next_seq = seq, compacting = False,
          compaction = compaction_default, last_error = None,
          cache = cache_new (block_cache_capacity_bytes cfg), disk = d', next_run_id = rid'\<rparr>"
  using assms unfolding open_files_def Let_def act_map_err_Inr_iff
  by (auto elim!: act_then_InrE simp: act_map_err_Inr_iff intro: that)

text \<open>
  What an open assumes of the directory besides \<^verbatim>\<open>recoverable\<close>: the counters are short of
  wrapping, and the existence check of the manifest, the second system call, does not
  fail.
\<close>

definition numbered :: "fs \<Rightarrow> bool" where
  "numbered d \<longleftrightarrow> (\<forall>name s. fs_lookup d name \<noteq> None \<longrightarrow> seq_of name = Some s \<longrightarrow> unat s + 2 < 2 ^ 64)
     \<and> (\<forall>seq names. fs_lookup d MANIFEST = Some (manifest_file seq names) \<longrightarrow> unat seq + 1 < 2 ^ 64)"

definition openable :: "'f externals \<Rightarrow> u64 \<Rightarrow> fs \<Rightarrow> 'f sstable list \<Rightarrow> entry list list \<Rightarrow> bool" where
  "openable X rid d rs groups \<longleftrightarrow> recoverable X d rs \<and> log_found X d groups
     \<and> unat rid + length rs + 1 < 2 ^ 64 \<and> numbered d
     \<and> plan d (Suc (clock d)) = None"

lemma committed_lookups: "(\<And>n. fs_lookup d' n = fs_lookup d n) \<Longrightarrow> committed X d' t = committed X d t"
  by (simp add: committed_def committed_at_def)

lemma list_all2_reopened:
  "list_all2 (reopened X) rs vs \<Longrightarrow> map tbl_path vs = map tbl_path rs \<and> map (run_entries X) vs = map (run_entries X) rs"
  by (induction rule: list_all2_induct) (auto simp: reopened_def)

lemma sidecars_apart:
  "\<not> sidecar_names (run_filename s) MANIFEST" "\<not> sidecar_names (run_filename s) WAL_FILE"
  "\<not> sidecar_names (run_filename s) (run_filename s')"
proof -
  show "\<not> sidecar_names (run_filename s) MANIFEST" "\<not> sidecar_names (run_filename s) WAL_FILE"
    using run_names_fixed [of s] sidecar_run_names [of "run_filename s"] by metis+
  show "\<not> sidecar_names (run_filename s) (run_filename s')"
  proof
    assume n: "sidecar_names (run_filename s) (run_filename s')"
    have "s = s'" by (rule sidecar_names_run [OF n]) (rule sidecar_run_names)
    with n own_names_differ show False by metis
  qed
qed

lemma open_runs_outside:
  assumes "open_runs X (map tbl_path rs) rid [] d = (r, d')" and "\<forall>t \<in> set rs. \<exists>s. tbl_path t = run_filename s"
    and "\<And>s. \<not> sidecar_names (run_filename s) n"
  shows "fs_lookup d' n = fs_lookup d n"
proof (rule touchesD [OF open_runs_touches [OF assms(1)]])
  show "\<not> (\<exists>p \<in> set (map tbl_path rs). sidecar_names p n)"
  proof
    assume "\<exists>p \<in> set (map tbl_path rs). sidecar_names p n"
    then obtain t where t: "t \<in> set rs" "sidecar_names (tbl_path t) n" by auto
    with assms(2) obtain s where "tbl_path t = run_filename s" by blast
    with t(2) assms(3) [of s] show False by simp
  qed
qed

definition shrinks :: "fs \<Rightarrow> fs \<Rightarrow> bool" where
  "shrinks d d' \<longleftrightarrow> (\<forall>n. fs_lookup d n = None \<longrightarrow> fs_lookup d' n = None)"

lemma shrinks_order: "reflp shrinks" "transp shrinks"
  by (auto simp: shrinks_def reflp_def transp_def)

lemma quiet_shrinks: "act_keeps (touches (\<lambda>n. False)) m \<Longrightarrow> act_keeps shrinks m"
  by (simp add: act_keeps_def touches_def shrinks_def)

lemma filter_load_shrinks: "act_keeps shrinks (filter_load X p)"
  by (auto simp: act_keeps_def shrinks_def filter_load_def Let_def fs_read_def fs_remove_file_def
      split: prod.splits sum.splits option.splits)

lemma open_runs_shrinks: "act_keeps shrinks (open_runs X names rid acc)"
proof (induction names arbitrary: rid acc)
  case Nil
  then show ?case by (simp add: act_keeps_def shrinks_def)
next
  case (Cons p ps)
  then show ?case
    unfolding open_runs.simps
    by (intro act_keeps_then act_keeps_if act_keeps_basic quiet_shrinks [OF fs_exists_keeps]
        quiet_shrinks [OF sstable_open_keeps] filter_load_shrinks shrinks_order)
qed

text \<open>The files, from the loaded manifest to the end of the reclaim.\<close>

text \<open>No number in the directory reaches \<^verbatim>\<open>N\<close>; then the counter of the opened engine does not pass it.\<close>

definition below :: "nat \<Rightarrow> fs \<Rightarrow> bool" where
  "below N d \<longleftrightarrow> (\<forall>name s. fs_lookup d name \<noteq> None \<longrightarrow> seq_of name = Some s \<longrightarrow> unat s < N)
     \<and> (\<forall>seq names. fs_lookup d MANIFEST = Some (manifest_file seq names) \<longrightarrow> unat seq \<le> N)"

lemma numbered_below: "numbered d \<longleftrightarrow> below (2 ^ 64 - 2) d"
proof -
  have "unat s + 2 < 2 ^ 64 \<longleftrightarrow> unat s < 2 ^ 64 - 2" "unat s + 1 < 2 ^ 64 \<longleftrightarrow> unat s \<le> 2 ^ 64 - 2" for s :: u64
    by (simp; arith)+
  then show ?thesis by (simp only: numbered_def below_def)
qed

lemma below_numbered: "below N d \<Longrightarrow> N + 1 < 2 ^ 64 \<Longrightarrow> numbered d"
  by (fastforce simp: numbered_def below_def)

lemma below_log:
  assumes "below N d" and "touches (\<lambda>n. n = WAL_FILE) d d'"
  shows "below N d'"
proof -
  have "seq_of WAL_FILE = None" "MANIFEST \<noteq> WAL_FILE"
    by (simp_all add: seq_of_def strip_prefix_def WAL_FILE_def MANIFEST_def)
  with assms(1) touchesD [OF assms(2)] show ?thesis unfolding below_def by (metis option.distinct(1))
qed

lemma reclaim_counter:
  assumes nb: "below N d" "N < 2 ^ 64" "unat seq0 \<le> N"
    and op: "open_runs X paths rid [] d = (Inr (ts, rid'), d2)"
    and rd: "fs_read_dir d2 = (Inr names, d3)" and rc: "reclaim live names seq0 d3 = (Inr seq, d4)"
  shows "unat seq \<le> N"
proof -
  have sh: "shrinks d d2" by (rule act_keepsD [OF open_runs_shrinks op])
  have "unat s < N" if "name \<in> set names" "seq_of name = Some s" for name s
  proof -
    have "fs_lookup d2 name \<noteq> None"
      using that(1) fs_lookup_dir [of d2 name] rd by (auto simp: fs_read_dir_def split: option.splits)
    with sh have "fs_lookup d name \<noteq> None" by (auto simp: shrinks_def)
    with nb(1) that(2) show ?thesis unfolding below_def by blast
  qed
  then show ?thesis using reclaim_bound [OF rc nb(2,3)] by blast
qed

text \<open>The directory as the loops of \<^verbatim>\<open>open_with\<close> leave it.\<close>

lemma open_tables_disk:
  assumes rec: "recoverable X d rs" and nb: "numbered d"
    and mf: "fs_lookup d MANIFEST = Some (manifest_file seq0 (map tbl_path rs)) \<or> rs = [] \<and> fs_lookup d MANIFEST = None"
    and op: "open_runs X (map tbl_path rs) rid [] d = (Inr (ts, rid'), d2)"
    and la: "list_all2 (reopened X) rs ts" and oo: "opened_ok X d2 rid' ts"
    and rd: "fs_read_dir d2 = (Inr names, d3)" and rc: "reclaim (map tbl_path rs) names seq0 d3 = (Inr seq, d4)"
  shows "disk_ok X d4 seq ts" "fs_lookup d4 WAL_FILE = fs_lookup d WAL_FILE"
proof -
  have rs: "\<forall>t \<in> set rs. \<exists>s. tbl_path t = run_filename s" "distinct (map tbl_path rs)"
    using rec by (auto simp: recoverable_def)
  note same = list_all2_reopened [OF la] and out = open_runs_outside [OF op rs(1)]
  have d3: "d3 = tick d2" "names = map fst (dir d3)"
    using rd by (auto simp: fs_read_dir_def tick_def split: option.splits)
  show "disk_ok X d4 seq ts"
  proof (rule reclaim_disk_ok)
    show "reclaim (map tbl_path ts) (map fst (dir d3)) seq0 d3 = (Inr seq, d4)"
      using rc same d3(2) by simp
    have "\<exists>s. tbl_path t = run_filename s" if "t \<in> set ts" for t
      using that same rs(1) by (metis image_eqI image_iff list.set_map)
    moreover have "committed X d3 t" if "t \<in> set ts" for t
      using oo that committed_lookups [of d3 d2 X t] by (simp add: d3(1) opened_ok_def)
    ultimately show "\<forall>t \<in> set ts. committed X d3 t \<and> (\<exists>s. tbl_path t = run_filename s)" by blast
    show "distinct (map tbl_path ts)" using same rs(2) by simp
    show "fs_inv d3" using touches_inv [OF open_runs_touches [OF op]] rec d3 by (simp add: recoverable_def)
    show "s + 1 \<noteq> 0" if "fs_lookup d3 (run_filename s) \<noteq> None" for s
    proof -
      have "fs_lookup d (run_filename s) \<noteq> None" using that out [OF sidecars_apart(3), of s] d3 by simp
      with nb seq_of_run_filename have "unat s + 2 < 2 ^ 64" unfolding numbered_def by blast
      then show ?thesis by (intro succ_nonzero_u64) simp
    qed
    show "fs_lookup d3 MANIFEST = Some (manifest_file seq0 (map tbl_path ts)) \<or> ts = [] \<and> fs_lookup d3 MANIFEST = None"
      using mf same out [OF sidecars_apart(1)] la by (auto simp: d3)
  qed
  show "fs_lookup d4 WAL_FILE = fs_lookup d WAL_FILE"
    using reclaim_ok [OF rc] reclaimable_names(2) out [OF sidecars_apart(2)] d3(1) by simp
qed

lemma open_tables:
  assumes X: "bloom_laws X" and rec: "recoverable X d rs" and ov: "unat rid + length rs < 2 ^ 64"
    and nb: "numbered d" "unat seq0 + 1 < 2 ^ 64"
    and mf: "fs_lookup d MANIFEST = Some (manifest_file seq0 (map tbl_path rs)) \<or> rs = [] \<and> fs_lookup d MANIFEST = None"
    and op: "open_runs X (map tbl_path rs) rid [] d = (Inr (ts, rid'), d2)"
    and rd: "fs_read_dir d2 = (Inr names, d3)"
    and rc: "reclaim (map tbl_path rs) names seq0 d3 = (Inr seq, d4)"
  shows "disk_ok X d4 seq ts \<and> handles_ok X ts rid' (cache_new n)
     \<and> map (run_entries X) ts = map (run_entries X) rs \<and> fs_lookup d4 WAL_FILE = fs_lookup d WAL_FILE
     \<and> unat seq + 1 < 2 ^ 64 \<and> unat rid' = unat rid + length rs"
proof -
  have rs: "\<forall>t \<in> set rs. committed X d t" "\<forall>t \<in> set rs. \<exists>s. tbl_path t = run_filename s" "distinct (map tbl_path rs)"
    using rec by (auto simp: recoverable_def)
  have "opened_ok X d rid []" by (simp add: opened_ok_def)
  from open_runs_ok [OF X this rs(1) _ _ ov op] rs(2,3) have la: "list_all2 (reopened X) rs ts"
    and oo: "opened_ok X d2 rid' ts" and ri: "unat rid' = unat rid + length rs" by auto
  have "handles_ok X ts rid' (cache_new n)"
    using oo cache_new_coherent by (simp add: opened_ok_def handles_ok_def)
  then show ?thesis
    using open_tables_disk [OF rec nb(1) mf op la oo rd rc] list_all2_reopened [OF la] ri
      reclaim_counter [OF nb(1) [unfolded numbered_below] _ _ op rd rc] nb(2) by simp
qed

text \<open>The manifest that is loaded names the runs that can be recovered.\<close>

lemma open_manifest:
  assumes rec: "recoverable X d rs" and nb: "numbered d" and pl: "plan d (Suc (clock d)) = None"
    and st: "fs_call (Inr ()) d = (Inr (), d0)" "manifest_load d0 = (Inr mo, d1)"
  defines "seq0 \<equiv> case mo of Some m \<Rightarrow> m_next_seq m | None \<Rightarrow> 0"
  shows "\<And>n. fs_lookup d1 n = fs_lookup d n" "recoverable X d1 rs" "numbered d1"
    "(case mo of Some m \<Rightarrow> m_runs m | None \<Rightarrow> []) = map tbl_path rs" "unat seq0 + 1 < 2 ^ 64"
    "fs_lookup d1 MANIFEST = Some (manifest_file seq0 (map tbl_path rs)) \<or> rs = [] \<and> fs_lookup d1 MANIFEST = None"
    "\<And>N. below N d \<Longrightarrow> unat seq0 \<le> N"
proof -
  have d0: "d0 = tick d" using st(1) by (auto simp: fs_call_def split: option.splits)
  have t1: "touches (\<lambda>n. False) d0 d1" using act_keepsD [OF manifest_load_keeps st(2)] .
  then have l1: "fs_lookup d1 n = fs_lookup d n" "fs_inv d1 = fs_inv d" for n
    using touchesD [OF t1] rec touches_inv [OF t1] by (simp_all add: d0 recoverable_def)
  then show "\<And>n. fs_lookup d1 n = fs_lookup d n" "numbered d1" using nb by (simp_all add: numbered_def)
  have rec0: "recoverable X d0 rs" "recoverable X d1 rs"
    using rec committed_lookups [of d0 d X] committed_lookups [OF l1(1), of X] by (simp_all add: recoverable_def d0 l1)
  then show "recoverable X d1 rs" by simp
  have "plan d0 (clock d0) = None" using pl by (simp add: d0 tick_def)
  note ml = manifest_load_runs [OF st(2) this rec0(1)]
  show "(case mo of Some m \<Rightarrow> m_runs m | None \<Rightarrow> []) = map tbl_path rs" "unat seq0 + 1 < 2 ^ 64"
    using ml nb by (cases mo; auto simp: numbered_def d0 seq0_def)+
  show "fs_lookup d1 MANIFEST = Some (manifest_file seq0 (map tbl_path rs)) \<or> rs = [] \<and> fs_lookup d1 MANIFEST = None"
    using ml by (cases mo) (simp_all add: l1 d0 seq0_def)
  show "unat seq0 \<le> N" if "below N d" for N
    using ml that by (cases mo) (auto simp: below_def d0 seq0_def)
qed

lemma open_files_ok:
  assumes X: "bloom_laws X" and w: "wal_laws X" and oa: "openable X rid d rs groups"
    and op: "open_files X cfg rid d = (Inr e, d')"
  shows "engine_inv X e \<and> view X e = replayed X groups rs \<and> wal_ready X (dur e) \<and> disk e = d'
     \<and> (durability_on X \<longrightarrow> logs X d' groups) \<and> mem e = apply_all (concat groups) memtable_new
     \<and> map (run_entries X) (runs e) = map (run_entries X) rs \<and> headroom e"
proof -
  have rec: "recoverable X d rs" and lf: "log_found X d groups" and ov: "unat rid + length rs + 1 < 2 ^ 64"
    and nb: "numbered d" and pl: "plan d (Suc (clock d)) = None"
    using oa by (simp_all add: openable_def)
  obtain d0 mo d1 ts rid' d2 names d3 seq d4 du d5 m where st:
    "fs_call (Inr ()) d = (Inr (), d0)" "manifest_load d0 = (Inr mo, d1)"
    "open_runs X (case mo of Some m \<Rightarrow> m_runs m | None \<Rightarrow> []) rid [] d1 = (Inr (ts, rid'), d2)"
    "fs_read_dir d2 = (Inr names, d3)"
    "reclaim (case mo of Some m \<Rightarrow> m_runs m | None \<Rightarrow> []) names
       (case mo of Some m \<Rightarrow> m_next_seq m | None \<Rightarrow> 0) d3 = (Inr seq, d4)"
    "durability_open X d4 = (Inr du, d5)" "replay_log X du memtable_new d5 = (Inr m, d')"
    and e: "e = \<lparr>eng_config = cfg, mem = m, runs = ts, dur = du, next_seq = seq, compacting = False,
          compaction = compaction_default, last_error = None,
          cache = cache_new (block_cache_capacity_bytes cfg), disk = d', next_run_id = rid'\<rparr>"
    using open_files_steps [OF op] by metis
  note om = open_manifest [OF rec nb pl st(1,2)]
  note tb = open_tables [OF X om(2) _ om(3,5,6) _ st(4), of rid ts rid' seq d4 "block_cache_capacity_bytes cfg"]
  have tb: "disk_ok X d4 seq ts" "handles_ok X ts rid' (cache_new (block_cache_capacity_bytes cfg))"
    "map (run_entries X) ts = map (run_entries X) rs" "fs_lookup d4 WAL_FILE = fs_lookup d WAL_FILE"
    "unat seq + 1 < 2 ^ 64" "unat rid' = unat rid + length rs"
    using tb st(3,5) om(1,4) ov by simp_all
  have "log_found X d4 groups" using lf tb(4) by (auto simp: log_found_def logs_def split: if_splits)
  note du = durability_open_ok [OF w this st(6)]
  have m: "m = apply_all (concat groups) memtable_new"
    using replay_found [OF lf _ _ st(7)] du by simp
  have "touches (\<lambda>n. n = WAL_FILE) d5 d'"
    using act_keepsD [OF replay_log_keeps st(7)] by (rule touches_mono) simp
  with du have t6: "touches (\<lambda>n. n = WAL_FILE) d4 d'" by (blast intro: touches_trans)
  have "disk_ok X d' seq ts" using tb(1) t6 by (rule disk_ok_wal)
  with tb(2) m apply_all_inv [OF memtable_new_inv] replayed_fits [of groups] lf have "engine_inv X e"
    by (simp add: e engine_inv_def log_found_def)
  moreover have "durability_on X \<longrightarrow> logs X d' groups"
    using du touchesD [OF act_keepsD [OF replay_log_keeps st(7)]] by (simp add: logs_def)
  moreover have "headroom e"
    using tb(5,6) ov succ_nonzero_u64 [of seq] succ_nonzero_u64 [of rid'] by (simp add: e headroom_def)
  ultimately show ?thesis
    using du m tb(3) by (simp add: e view_def replayed_def)
qed

text \<open>The counters and flags an open starts with.\<close>

lemma open_files_counters:
  assumes X: "bloom_laws X" and oa: "openable X rid d rs groups" and N: "below N d" "N < 2 ^ 64"
    and op: "open_files X cfg rid d = (Inr e, d')"
  shows "unat (next_seq e) \<le> N" "unat (next_run_id e) = unat rid + length rs" "length (runs e) = length rs"
    "eng_config e = cfg" "below N (disk e)"
proof -
  have rec: "recoverable X d rs" and ov: "unat rid + length rs + 1 < 2 ^ 64"
    and nb: "numbered d" and pl: "plan d (Suc (clock d)) = None"
    using oa by (simp_all add: openable_def)
  obtain d0 mo d1 ts rid' d2 names d3 seq d4 du d5 m where st:
    "fs_call (Inr ()) d = (Inr (), d0)" "manifest_load d0 = (Inr mo, d1)"
    "open_runs X (case mo of Some m \<Rightarrow> m_runs m | None \<Rightarrow> []) rid [] d1 = (Inr (ts, rid'), d2)"
    "fs_read_dir d2 = (Inr names, d3)"
    "reclaim (case mo of Some m \<Rightarrow> m_runs m | None \<Rightarrow> []) names
       (case mo of Some m \<Rightarrow> m_next_seq m | None \<Rightarrow> 0) d3 = (Inr seq, d4)"
    "durability_open X d4 = (Inr du, d5)" "replay_log X du memtable_new d5 = (Inr m, d')"
    and e: "e = \<lparr>eng_config = cfg, mem = m, runs = ts, dur = du, next_seq = seq, compacting = False,
          compaction = compaction_default, last_error = None,
          cache = cache_new (block_cache_capacity_bytes cfg), disk = d', next_run_id = rid'\<rparr>"
    using open_files_steps [OF op] by metis
  note om = open_manifest [OF rec nb pl st(1,2)]
  have "below N d1" using N(1) om(1) by (simp add: below_def)
  from reclaim_counter [OF this N(2) om(7) [OF N(1)] st(3-5)] show "unat (next_seq e) \<le> N" by (simp add: e)
  note tb = open_tables [OF X om(2) _ om(3,5,6) _ st(4), of rid ts rid' seq d4 0]
  have "unat rid' = unat rid + length rs" "map (run_entries X) ts = map (run_entries X) rs"
    using tb st(3,5) om(4) ov by simp_all
  then show "unat (next_run_id e) = unat rid + length rs" "length (runs e) = length rs"
    by (simp_all add: e) (metis length_map)
  show "eng_config e = cfg" by (simp add: e)
  have d3: "fs_lookup d3 n = fs_lookup d2 n" for n using st(4) by (auto simp: fs_read_dir_def split: option.splits)
  have "\<forall>t \<in> set rs. \<exists>s. tbl_path t = run_filename s" using rec by (simp add: recoverable_def)
  from open_runs_outside [OF st(3) [unfolded om(4)] this sidecars_apart(1)]
  have m4: "fs_lookup d4 MANIFEST = fs_lookup d1 MANIFEST"
    using reclaim_ok [OF st(5)] reclaimable_names(1) d3 by simp
  have "shrinks d1 d2" by (rule act_keepsD [OF open_runs_shrinks st(3)])
  then have "fs_lookup d1 n \<noteq> None" if "fs_lookup d4 n \<noteq> None" for n
    using reclaim_ok [OF st(5)] d3 that unfolding shrinks_def by (metis (no_types, lifting))
  with m4 \<open>below N d1\<close> have b4: "below N d4" unfolding below_def by metis
  have "touches (\<lambda>n. n = WAL_FILE) d4 d5" "touches (\<lambda>n. n = WAL_FILE) d5 d'"
    using act_keepsD [OF durability_open_keeps st(6)] act_keepsD [OF replay_log_keeps st(7)] by (auto elim: touches_mono)
  then have "touches (\<lambda>n. n = WAL_FILE) d4 d'" by (rule touches_trans)
  from below_log [OF b4 this] show "below N (disk e)" by (simp add: e)
qed

text \<open>The whole open: the recovered writes are checkpointed as a run, which changes no lookup.\<close>

lemma open_with_ok:
  assumes X: "bloom_laws X" and w: "wal_laws X" and oa: "openable X rid d rs groups"
    and sz: "sized (entries (apply_all (concat groups) memtable_new))"
    and op: "open_with X cfg rid d = (Inr e, d')"
  shows "engine_inv X e \<and> view X e = replayed X groups rs \<and> memtable_is_empty (mem e) \<and> disk e = d'"
proof -
  from op obtain e0 d0 e1 where o1: "open_files X cfg rid d = (Inr e0, d0)"
    and fl: "engine_flush X e0 = (Inr (), e1)" and e: "e = e1\<lparr>disk := tick (disk e1)\<rparr>" "d' = tick (disk e1)"
    by (auto simp: open_with_def fs_call_def split: prod.splits sum.splits option.splits)
  note of = open_files_ok [OF X w oa o1]
  have "engine_inv X e1 \<and> view X e1 = view X e0 \<and> memtable_is_empty (mem e1)"
  proof (cases "memtable_is_empty (mem e0)")
    case True
    with fl of show ?thesis by (auto simp: engine_flush_def)
  next
    case False
    with fl have "flush_locked X e0 = (Inr (), e1)" by (simp add: engine_flush_def)
    with flush_locked_post [OF X, of e0] of sz have "flush_post X e0 (Inr (), e1)" by (simp add: wal_ready_def)
    then show ?thesis using flushed_view by (auto simp: flush_post_def)
  qed
  moreover have "disk_ok X (tick d) n rs = disk_ok X d n rs" for d n rs
    using committed_lookups [of "tick d" d X] by (simp add: disk_ok_def runs_ok_def fresh_def manifest_ok_def)
  ultimately show ?thesis using of e by (simp add: engine_inv_def view_def replayed_def)
qed

section \<open>Crashes\<close>

text \<open>
  What a power failure may do to the directory: a file forced to stable storage is kept,
  any other may be lost or hold anything, and no file appears. A torn sidecar is one its
  checksum rejects.
\<close>

definition crashes :: "'f externals \<Rightarrow> fs \<Rightarrow> fs \<Rightarrow> bool" where
  "crashes X d d' \<longleftrightarrow> fs_inv d'
     \<and> (\<forall>n f. fs_lookup d n = Some f \<longrightarrow> fsynced f \<longrightarrow> fs_lookup d' n = Some f)
     \<and> (\<forall>n. fs_lookup d n = None \<longrightarrow> fs_lookup d' n = None)
     \<and> (\<forall>p g. fs_lookup d' (sidecar_path p) = Some g \<longrightarrow>
          sidecar_decode X (fdata g) = None \<or> (\<exists>f. fs_lookup d (sidecar_path p) = Some f \<and> fdata g = fdata f))"

text \<open>Whatever the manifest names survives a crash.\<close>

lemma crash_recoverable:
  assumes cr: "crashes X d d'" and rec: "recoverable X d rs"
  shows "recoverable X d' rs"
proof -
  have "committed X d' t" if t: "t \<in> set rs" for t
  proof -
    from rec t obtain bss where c: "committed_at X d t bss" by (auto simp: recoverable_def committed_def)
    then have "fs_lookup d' (tbl_path t) = Some (File (run_image X bss) True)"
      using cr by (simp add: committed_at_def crashes_def)
    moreover have "covers X (sidecar_decode X (fdata g)) (fst ` set (concat bss))"
      if g: "fs_lookup d' (sidecar_path (tbl_path t)) = Some g" for g
    proof -
      from cr g have "sidecar_decode X (fdata g) = None
          \<or> (\<exists>f. fs_lookup d (sidecar_path (tbl_path t)) = Some f \<and> fdata g = fdata f)"
        unfolding crashes_def by blast
      with c show ?thesis by (auto simp: committed_at_def)
    qed
    ultimately have "committed_at X d' t bss" using c by (simp add: committed_at_def)
    then show ?thesis by (auto simp: committed_def)
  qed
  moreover have "fs_lookup d' MANIFEST = fs_lookup d MANIFEST"
  proof (cases "fs_lookup d MANIFEST")
    case (Some f)
    with rec have "fsynced f" by (auto simp: recoverable_def manifest_file_def)
    with Some cr show ?thesis by (simp add: crashes_def)
  qed (use cr in \<open>simp add: crashes_def\<close>)
  ultimately show ?thesis using rec cr by (auto simp: recoverable_def crashes_def)
qed

section \<open>No acknowledged write is lost\<close>

text \<open>
  \<^verbatim>\<open>recovers X e m\<close>: reopening the engine's directory would show the map \<^verbatim>\<open>m\<close>. When this
  is the engine's own view, a write keeps it so: whatever fails on the way, a reopen shows
  the map before the write or after it, and after a success it shows the map after.
\<close>

definition recovers :: "'f externals \<Rightarrow> 'f engine \<Rightarrow> (bytes \<Rightarrow> bytes option) \<Rightarrow> bool" where
  "recovers X e m \<longleftrightarrow> (\<exists>groups. log_found X (disk e) groups \<and> replayed X groups (runs e) = m)"

lemma replayed_snoc: "replayed X (groups @ [ws]) rs = fold spec_apply ws (replayed X groups rs)"
proof -
  have "apply_all (concat groups @ ws) memtable_new = apply_all ws (apply_all (concat groups) memtable_new)"
    by (simp add: apply_all_def)
  then show ?thesis by (simp add: replayed_def resolve_apply)
qed

text \<open>Replaying a log whose writes are already in the newest run changes nothing.\<close>

lemma replayed_flushed:
  assumes "flushed X e e'" and "replayed X groups (runs e) = view X e"
  shows "replayed X groups (runs e') = view X e" and "replayed X [] (runs e') = view X e"
proof -
  from assms(1) obtain t where t: "runs e' = t # runs e" "run_entries X t = memtable_iter (mem e)"
    by (auto simp: flushed_def)
  have v: "resolve (memtable_iter (mem e) # map (run_entries X) (runs e)) = view X e" by (simp add: view_def)
  show "replayed X [] (runs e') = view X e"
    by (simp add: replayed_def t view_def fun_eq_iff resolve_Cons memtable_new_def memtable_iter_def)
  let ?A = "memtable_iter (apply_all (concat groups) memtable_new)"
  have "replayed X groups (runs e') k = view X e k" for k
    using fun_cong [OF assms(2), of k] fun_cong [OF v, of k]
    by (simp add: replayed_def t resolve_Cons split: option.splits)
  then show "replayed X groups (runs e') = view X e" by blast
qed

lemma rotate_log_found:
  assumes w: "wal_laws X" and on: "durability_on X" and p: "wal_path du = WAL_FILE" and l: "log_found X d groups"
    and r: "rotate_log X du d = (r, du', d')"
  shows "log_found X d' groups \<or> log_found X d' []"
proof -
  obtain r1 d1 where rm: "fs_remove_file WAL_FILE d = (r1, d1)" by fastforce
  have d1: "fs_lookup d1 WAL_FILE = None \<or> fs_lookup d1 WAL_FILE = fs_lookup d WAL_FILE"
    using rm by (auto simp: fs_remove_file_def split: option.splits)
  then have l1: "log_found X d1 groups \<or> log_found X d1 [] \<and> fs_lookup d1 WAL_FILE = None"
    using l by (auto simp: log_found_def logs_def split: if_splits)
  show ?thesis
  proof (cases "\<exists>x. wal_open_file X WAL_FILE d1 = (Inr x, d')")
    case True
    then obtain x where wo: "wal_open_file X WAL_FILE d1 = (Inr x, d')" by blast
    with l1 wal_open_logs [OF w wo] on show ?thesis by (auto simp: log_found_def split: if_splits)
  next
    case False
    have "fs_lookup d' WAL_FILE = fs_lookup d1 WAL_FILE"
      using r rm on p False by (auto simp: rotate_log_def Let_def wal_open_file_def split: if_splits sum.splits option.splits)
    with l1 show ?thesis by (auto simp: log_found_def logs_def split: if_splits)
  qed
qed

lemma log_found_cong: "fs_lookup d' WAL_FILE = fs_lookup d WAL_FILE \<Longrightarrow> log_found X d' groups = log_found X d groups"
  by (simp add: log_found_def logs_def)

text \<open>The log after a flush: untouched until the manifest is committed, then empty or still complete.\<close>

lemma flush_locked_log:
  assumes w: "wal_laws X" and on: "durability_on X" and wp: "wal_path (dur e) = WAL_FILE"
    and l: "log_found X (disk e) groups" and fl: "flush_locked X e = (r, e')"
  shows "log_found X (disk e') groups \<or> runs e' \<noteq> runs e \<and> log_found X (disk e') []"
proof -
  let ?n = "next_seq e" and ?es = "memtable_iter (mem e)"
  obtain r1 d1 where fr: "flush_run X (run_filename ?n) (next_run_id e) ?es (disk e) = (r1, d1)" by fastforce
  have l1: "log_found X d1 groups"
    using l log_found_cong [OF touchesD [OF flush_run_touches [OF fr]]] run_names_fixed(3) by blast
  note defs = flush_locked_def Let_def memtable_take_def memtable_iter_def
  show ?thesis
  proof (cases r1)
    case (Inl err)
    with fl fr l1 show ?thesis by (auto simp: defs)
  next
    case (Inr t)
    obtain r2 d2 where ms: "manifest_store (?n + 1) (map file_name (t # runs e)) d1 = (r2, d2)" by fastforce
    have l2: "log_found X d2 groups"
      using l1 log_found_cong [OF touchesD [OF act_keepsD [OF manifest_store_keeps ms]], of X]
      by (simp add: WAL_FILE_def MANIFEST_def MANIFEST_TMP_def)
    show ?thesis
    proof (cases r2)
      case (Inl err)
      with fl fr Inr ms l2 show ?thesis by (auto simp: defs)
    next
      case R2: (Inr x)
      obtain r3 du d3 where ro: "rotate_log X (dur e) d2 = (r3, du, d3)" by (metis prod_cases3)
      have "disk e' = d3 \<and> runs e' = t # runs e"
        using fl fr Inr ms R2 ro by (cases r3) (auto simp: defs signal_compaction_def)
      with rotate_log_found [OF w on wp l2 ro] show ?thesis by auto
    qed
  qed
qed

lemma recovers_flush:
  assumes X: "bloom_laws X" and w: "wal_laws X" and on: "durability_on X" and inv: "engine_inv X e"
    and hr: "headroom e" and sz: "sized (entries (mem e))" and wp: "wal_path (dur e) = WAL_FILE"
    and rc: "recovers X e (view X e)" and fl: "flush_locked X e = (r, e')"
  shows "recovers X e' (view X e)"
proof -
  from rc obtain groups where g: "log_found X (disk e) groups" "replayed X groups (runs e) = view X e"
    by (auto simp: recovers_def)
  have fp: "flush_post X e (r, e')" using flush_locked_post [OF X inv hr sz wp] fl by simp
  consider "flushed X e e'" | "runs e' = runs e" using fp by (auto simp: flush_post_def split: if_splits)
  then show ?thesis
  proof cases
    case 1
    with flush_locked_log [OF w on wp g(1) fl] replayed_flushed [OF 1 g(2)] show ?thesis
      by (auto simp: recovers_def)
  next
    case 2
    with flush_locked_log [OF w on wp g(1) fl] g(2) show ?thesis by (auto simp: recovers_def)
  qed
qed

lemma write_ops_recovers:
  assumes X: "bloom_laws X" and w: "wal_laws X" and on: "durability_on X" and inv: "engine_inv X e"
    and ad: "admits_ops e ws" and lg: "loggable ws" and lo: "logs X (disk e) groups" "\<forall>g \<in> set groups. loggable g"
    and sync: "replayed X groups (runs e) = view X e" and wr: "write_ops X ws e = (r, e')"
  shows "recovers X e' (fold spec_apply ws (view X e)) \<or> r \<noteq> Inr () \<and> recovers X e' (view X e)"
proof -
  have wp: "wal_path (dur e) = WAL_FILE" using ad by (simp add: admits_ops_def)
  obtain r1 d1 where lb: "log_batch X (dur e) ws (disk e) = (r1, d1)" by fastforce
  note lbo = log_batch_ok [OF w on lo(1) wp, of ws]
  have new: "replayed X (groups @ [ws]) (runs e) = fold spec_apply ws (view X e)"
    by (simp add: replayed_snoc sync)
  have found: "log_found X d gs" if "logs X d gs" "gs = groups \<or> gs = groups @ [ws]" for d gs
    using that lo(2) lg on by (auto simp: log_found_def)
  show ?thesis
  proof (cases r1)
    case (Inl err)
    then have "logs X d1 groups \<or> logs X d1 (groups @ [ws])" using lbo(2) lb by simp
    moreover have "r = Inl err" "e' = e\<lparr>disk := d1\<rparr>" using wr lb Inl by (simp_all add: write_ops_def)
    ultimately show ?thesis using found [of d1] new sync unfolding recovers_def by fastforce
  next
    case (Inr x)
    let ?e = "e\<lparr>disk := d1, mem := apply_all ws (mem e)\<rparr>"
    have l1: "logs X d1 (groups @ [ws])" using lbo(1) lb Inr by simp
    have v1: "view X ?e = fold spec_apply ws (view X e)" by (simp add: view_def resolve_apply)
    have rc: "recovers X ?e (view X ?e)" using found [OF l1] new v1 unfolding recovers_def by auto
    have eq: "maybe_flush X ?e = (r, e')" using wr lb Inr by (simp add: write_ops_def)
    have ok: "disk_ok X d1 (next_seq e) (runs e)" using inv disk_ok_log [OF _ wp lb] by (simp add: engine_inv_def)
    have sz: "sized (entries (mem ?e))" and hr: "headroom ?e" using ad by (simp_all add: admits_ops_def headroom_def)
    have i1: "engine_inv X ?e" using inv ok sz apply_all_inv by (simp add: engine_inv_def sized_def)
    consider "flush_locked X ?e = (r, e')" | "e' = ?e" using eq unfolding maybe_flush_def by (metis prod.inject)
    then show ?thesis
    proof cases
      case 1
      with recovers_flush [OF X w on i1 hr sz _ rc 1] wp v1 show ?thesis by simp
    next
      case 2
      with rc v1 show ?thesis by simp
    qed
  qed
qed

end
