(* ===== verification/Progress.thy ===== *)
theory Progress
  imports Recovery
begin

text \<open>
  Progress: on a disk where no call fails, every operation the store admits succeeds.
  Together with the partial correctness of the other theories this gives total
  correctness of writes, flushes and compactions, and of opening a directory.
\<close>

lemma if_eq_or: "(if b then x else y) = x \<or> (if b then x else y) = y"
  by simp

section \<open>Files\<close>

definition pc_total :: "'f externals \<Rightarrow> bool" where
  "pc_total X \<longleftrightarrow> (\<forall>f. pc_to_bytes X f \<noteq> None)"

lemma fs_rename_total:
  "fault_free d \<Longrightarrow> fs_lookup d a = Some f \<Longrightarrow> \<exists>d'. fs_rename a b d = (Inr (), d')"
  by (simp add: fs_rename_def fault_free_def)

lemma write_sidecar_total:
  assumes "fault_free d" and "pc_total X"
  shows "\<exists>d'. write_sidecar X f p d = (Inr (), d')"
proof -
  obtain payload where "pc_to_bytes X f = Some payload" using assms(2) by (auto simp: pc_total_def)
  with assms(1) show ?thesis
    by (simp add: write_sidecar_def Let_def act_then_def act_map_err_def fs_write_def fs_create_def
        fs_write_all_def fs_rename_def fault_free_def)
qed

lemma sidecar_step_total:
  assumes "fault_free d" and "pc_total X"
  shows "\<exists>d'. (case fo of None \<Rightarrow> act_ok () | Some f \<Rightarrow> write_sidecar X f p) d = (Inr (), d')"
  using write_sidecar_total [OF assms] by (cases fo) auto

lemma seal_run_opens:
  assumes ff: "fault_free d" and pc: "pc_total X" and w: "writing X w d bss pend" and tmp: "w_path w = p @ ''.tmp''"
    and ix: "\<And>bss'. concat bss' = concat bss @ pend \<Longrightarrow> run_blocks bss' \<Longrightarrow> indexable bss' \<and> length (run_image X bss') < usize_limit"
  shows "\<exists>bss' d'. concat bss' = concat bss @ pend \<and> run_blocks bss'
     \<and> seal_run X ctx (p @ ''.tmp'') p rid (w, fo) d = (Inr (attach_cache (attach_filter (opened X rid p bss') fo)), d')"
proof -
  obtain d1 where fin: "writer_finish X w d = (Inr (), d1)" and f1: "fault_free d1"
    using writer_finish_total [OF ff w] by blast
  obtain bss' where b: "concat bss' = concat bss @ pend" "run_blocks bss'" "fs_lookup d1 (w_path w) = Some (File (run_image X bss') True)"
    using writer_finish_ok [OF w fin] by blast
  from fs_rename_total [OF f1 b(3)] obtain d2 where ren: "fs_rename (w_path w) p d1 = (Inr (), d2)" by blast
  have f2: "fault_free d2" using fault_free_keeps [OF fs_rename_keeps ren f1] .
  obtain d3 where sc: "(case fo of None \<Rightarrow> act_ok () | Some f \<Rightarrow> write_sidecar X f p) d2 = (Inr (), d3)"
    using sidecar_step_total [OF f2 pc] by blast
  have t3: "touches (sidecar_names p) d2 d3"
    using sc by (cases fo) (auto dest: act_keepsD [OF write_sidecar_keeps])
  have p3: "fs_lookup d3 p = Some (File (run_image X bss') True)"
    using touchesD [OF t3, of p] fs_rename_ok [OF ren b(3)] own_names_differ by simp
  have "fault_free d3" using fault_free_touches [OF t3] f2 by simp
  from sstable_open_total [OF this p3, of X bss' rid] ix [OF b(1,2)]
  obtain d4 where "sstable_open X rid p d3 = (Inr (opened X rid p bss'), d4)" by auto
  with fin ren sc tmp b show ?thesis
    by (auto simp: seal_run_def filter_finish_def Let_def act_then_def act_map_err_def)
qed

lemma seal_run_total:
  assumes ff: "fault_free d" and pc: "pc_total X" and w: "writing X w d bss pend" and tmp: "w_path w = p @ ''.tmp''"
    and es: "es = concat bss @ pend" "asc_keys es" "sized es"
  shows "\<exists>t d'. seal_run X ctx (p @ ''.tmp'') p rid (w, fo) d = (Inr t, d')"
proof -
  have "indexable bss' \<and> length (run_image X bss') < usize_limit" if "concat bss' = concat bss @ pend" "run_blocks bss'" for bss'
  proof
    have c: "concat bss' = es" using that(1) es(1) by simp
    have "readable bss'" using es(2,3) c that(2) by (intro run_blocks_readable) (auto simp: sized_def)
    then show "indexable bss'" by (rule readable_indexable)
    have "length (data_bytes bss') < 2 ^ 44" using es(3) c by (simp add: sized_def)
    with that(2) show "length (run_image X bss') < usize_limit" by (rule run_image_small)
  qed
  from seal_run_opens [OF ff pc w tmp this] show ?thesis by blast
qed

lemma flush_run_total:
  assumes ff: "fault_free d" and pc: "pc_total X" and es: "asc_keys es" "sized es"
  shows "\<exists>t d'. flush_run X p rid es d = (Inr t, d')"
proof -
  let ?tmp = "p @ ''.tmp''"
  obtain w d1 where c: "writer_create ?tmp d = (Inr w, d1)" and f1: "fault_free d1"
    using writer_create_total [OF ff] by blast
  note wc = writer_create_ok [OF c, of X]
  have "\<forall>e \<in> set es. fits e" using es(2) by (simp add: sized_def)
  from push_entries_total [OF f1 conjunct1 [OF wc] this, of "builder X (length es)"] obtain w' fo d2 where
    pe: "push_entries X (w, builder X (length es)) es d1 = (Inr (w', fo), d2)" and f2: "fault_free d2" by blast
  from push_entries_ok [OF _ pe, of "[]" "[]"] wc obtain bss pend where
    w': "writing X w' d2 bss pend" "es = concat bss @ pend" "w_path w' = ?tmp" by auto
  from seal_run_total [OF f2 pc w'(1,3,2) es] c pe show ?thesis
    by (simp add: flush_run_def Let_def act_then_def)
qed

lemma compact_run_total:
  assumes ff: "fault_free d" and pc: "pc_total X" and inputs: "\<forall>t \<in> set inputs. good_run X t"
    and sz: "sized (concat (map (run_entries X) inputs))"
  shows "\<exists>t d'. compact_run X p rid inputs d = (Inr t, d')"
proof -
  let ?tmp = "p @ ''.tmp''" and ?s = "merge_new [] (map cursor_new inputs)"
  let ?fo = "builder X (compact_capacity inputs)"
  define es where "es = live_entries (fst (merge_items X ?s))"
  have "asc_keys ([] :: entry list)" by simp
  note rd = merge_new_ready [OF this inputs]
  note ok = merge_items_ok [OF rd(1,2)]
  have asc: "asc_keys es" using ok(2) by (simp add: es_def live_entries_facts)
  have "map_of es k = map_option Value (resolve (map (run_entries X) inputs) k)" for k
    by (simp add: es_def live_entries_facts ok(3) rd(3) resolve_Cons)
  from merged_sized [OF asc this sz] have sz: "sized es" .
  obtain w d1 where c: "writer_create ?tmp d = (Inr w, d1)" and f1: "fault_free d1"
    using writer_create_total [OF ff] by blast
  note wc = writer_create_ok [OF c, of X]
  have "\<forall>e \<in> set es. fits e" using sz by (simp add: sized_def)
  from push_entries_total [OF f1 conjunct1 [OF wc] this, of ?fo] obtain w' fo d2 where
    pe: "push_entries X (w, ?fo) es d1 = (Inr (w', fo), d2)" and f2: "fault_free d2" by blast
  from push_entries_ok [OF _ pe, of "[]" "[]"] wc obtain bss pend where
    w': "writing X w' d2 bss pend" "es = concat bss @ pend" "w_path w' = ?tmp" by auto
  have "compact_loop X ?s (w, ?fo) d1 = (Inr (w', fo), d2)"
    unfolding compact_loop_items es_def [symmetric] using pe ok(1) by (simp add: act_then_def)
  with seal_run_total [OF f2 pc w'(1,3,2) asc sz] c show ?thesis
    by (simp add: compact_run_def Let_def act_then_def)
qed

section \<open>The log\<close>

lemma log_batch_total:
  assumes "fault_free d" and "wal_ready X du"
  shows "\<exists>d'. log_batch X du ws d = (Inr (), d')"
  using assms by (simp add: log_batch_def log_append_def wal_handle_def wal_ready_def act_then_def
      act_map_err_def wal_append_and_sync_def Let_def fault_free_def)

lemma wal_open_total:
  assumes "fault_free d" and "wal_laws X" and "fs_lookup d p = None"
  shows "\<exists>d'. wal_open_file X p d = (Inr (), d')"
  using assms by (auto simp: wal_open_file_def fault_free_def wal_laws_def)

lemma rotate_log_total:
  assumes ff: "fault_free d" and w: "wal_laws X" and r: "wal_ready X du"
  shows "\<exists>du' d'. rotate_log X du d = (Inr (), du', d') \<and> wal_ready X du'"
proof (cases "durability_on X")
  case False
  with r show ?thesis by (simp add: rotate_log_def)
next
  case True
  obtain r1 d1 where rm: "fs_remove_file WAL_FILE d = (r1, d1)" by fastforce
  with ff have "r1 = Inr () \<or> r1 = Inl NotFound" and n: "fs_lookup d1 WAL_FILE = None"
    by (auto simp: fs_remove_file_def fault_free_def split: option.splits)
  moreover have "fault_free d1" using fault_free_keeps [OF fs_remove_file_keeps rm ff] .
  from wal_open_total [OF this w n] obtain d2 where "wal_open_file X WAL_FILE d1 = (Inr (), d2)" by blast
  ultimately show ?thesis using True r rm by (auto simp: rotate_log_def Let_def wal_ready_def)
qed

section \<open>The engine\<close>

definition healthy :: "'f externals \<Rightarrow> 'f engine \<Rightarrow> bool" where
  "healthy X e \<longleftrightarrow> fault_free (disk e) \<and> wal_laws X \<and> pc_total X \<and> wal_ready X (dur e)"

text \<open>Once the run is written, the rest of a flush goes through.\<close>

lemma flush_after_run:
  assumes ff: "fault_free (disk e)" and w: "wal_laws X" and wr: "wal_ready X (dur e)"
    and fr: "flush_run X (run_filename (next_seq e)) (next_run_id e) (memtable_iter (mem e)) (disk e) = (Inr t, d1)"
  shows "\<exists>e'. flush_locked X e = (Inr (), e') \<and> runs e' = t # runs e \<and> mem e' = memtable_new \<and> cache e' = cache e
     \<and> fault_free (disk e') \<and> wal_ready X (dur e')
     \<and> touches (\<lambda>n. n = WAL_FILE \<or> n = MANIFEST \<or> n = MANIFEST_TMP) d1 (disk e')"
proof -
  let ?P = "touches (\<lambda>n. n = WAL_FILE \<or> n = MANIFEST \<or> n = MANIFEST_TMP)"
  have f1: "fault_free d1" using fault_free_touches [OF flush_run_touches [OF fr]] ff by simp
  obtain d2 where ms: "manifest_store (next_seq e + 1) (map file_name (t # runs e)) d1 = (Inr (), d2)"
    using manifest_store_total [OF f1] by blast
  have f2: "fault_free d2" using fault_free_keeps [OF manifest_store_keeps ms f1] .
  obtain du d3 where ro: "rotate_log X (dur e) d2 = (Inr (), du, d3)" and wr': "wal_ready X du"
    using rotate_log_total [OF f2 w wr] by blast
  have t3: "touches (\<lambda>n. n = WAL_FILE) d2 d3" using rotate_log_touches [OF _ ro] wr by (simp add: wal_ready_def)
  then have f3: "fault_free d3" using fault_free_touches f2 by blast
  have "?P d1 d2" using act_keepsD [OF manifest_store_keeps ms] by (rule touches_mono) auto
  moreover have "?P d2 d3" using t3 by (rule touches_mono) simp
  ultimately have "?P d1 d3" by (rule touches_trans)
  with fr ms ro wr' f3 show ?thesis
    by (simp add: flush_locked_def Let_def memtable_take_def memtable_iter_def memtable_new_def signal_compaction_def)
qed

lemma flush_locked_total:
  assumes inv: "engine_inv X e" and sz: "sized (entries (mem e))" and h: "healthy X e"
  shows "fst (flush_locked X e) = Inr () \<and> healthy X (snd (flush_locked X e))"
proof -
  let ?es = "memtable_iter (mem e)"
  have ff: "fault_free (disk e)" and w: "wal_laws X" and pc: "pc_total X" and wr: "wal_ready X (dur e)"
    using h by (simp_all add: healthy_def)
  have es: "asc_keys ?es" "sized ?es" using inv sz by (simp_all add: engine_inv_def memtable_inv_def memtable_iter_def)
  obtain t d1 where "flush_run X (run_filename (next_seq e)) (next_run_id e) ?es (disk e) = (Inr t, d1)"
    using flush_run_total [OF ff pc es] by blast
  from flush_after_run [OF ff w wr this] w pc show ?thesis by (auto simp: healthy_def)
qed

lemma write_ops_total:
  assumes inv: "engine_inv X e" and ad: "admits_ops e ws" and h: "healthy X e"
  shows "fst (write_ops X ws e) = Inr () \<and> healthy X (snd (write_ops X ws e))"
proof -
  have ff: "fault_free (disk e)" and wr: "wal_ready X (dur e)" using h by (simp_all add: healthy_def)
  have wp: "wal_path (dur e) = WAL_FILE" using ad by (simp add: admits_ops_def)
  obtain d where lb: "log_batch X (dur e) ws (disk e) = (Inr (), d)" using log_batch_total [OF ff wr] by blast
  let ?e = "e\<lparr>disk := d, mem := apply_all ws (mem e)\<rparr>"
  have "fault_free d" using fault_free_keeps [OF log_batch_keeps [OF wp] lb ff] .
  then have h1: "healthy X ?e" using h by (simp add: healthy_def)
  have sz: "sized (entries (mem ?e))" using ad by (simp add: admits_ops_def)
  have i1: "engine_inv X ?e"
    using inv disk_ok_log [OF _ wp lb] sz apply_all_inv by (simp add: engine_inv_def sized_def)
  note fl = flush_locked_total [OF i1 sz h1]
  have "write_ops X ws e = maybe_flush X ?e" using lb by (simp add: write_ops_def)
  moreover have "maybe_flush X ?e = flush_locked X ?e \<or> maybe_flush X ?e = (Inr (), ?e)"
    unfolding maybe_flush_def by (rule if_eq_or)
  ultimately show ?thesis using fl h1 by auto
qed

lemma drop_fault_free: "fault_free d \<Longrightarrow> fault_free (sstable_drop t d)"
  by (rule fault_free_touches [OF sstable_drop_touches])

lemma drop_inputs_healthy: "healthy X e \<Longrightarrow> healthy X (drop_inputs inputs e)"
proof -
  have "fault_free d \<Longrightarrow> fault_free (fold (\<lambda>t d. sstable_drop (mark_obsolete t) d) inputs d)" for d
    by (induction inputs arbitrary: d) (simp_all add: drop_fault_free)
  then show "healthy X e \<Longrightarrow> healthy X (drop_inputs inputs e)" by (simp add: healthy_def drop_inputs_def)
qed

lemma compact_inner_total:
  assumes inv: "engine_inv X e" and sz: "sized (concat (map (run_entries X) (runs e)))" and h: "healthy X e"
  shows "fst (compact_inner X e) = Inr () \<and> healthy X (snd (compact_inner X e))"
proof (cases "length (runs e) < 2")
  case True
  with h show ?thesis by (simp add: compact_inner_def compact_snapshot_def)
next
  case False
  have ff: "fault_free (disk e)" and pc: "pc_total X" using h by (simp_all add: healthy_def)
  have good: "\<forall>t \<in> set (runs e). good_run X t" using engine_inv_reads [OF inv] by (simp add: reads_inv_def)
  obtain t d1 where cr: "compact_run X (run_filename (next_seq e)) (next_run_id e) (runs e) (disk e) = (Inr t, d1)"
    using compact_run_total [OF ff pc good sz] by blast
  have f1: "fault_free d1" using fault_free_touches [OF compact_run_touches [OF cr]] ff by simp
  let ?e1 = "e\<lparr>next_seq := next_seq e + 1, disk := d1, next_run_id := next_run_id e + 1\<rparr>"
  have cm: "compact_merge X (runs e) e = (Inr t, ?e1)" using cr by (simp add: compact_merge_def Let_def)
  let ?new = "filter (\<lambda>r. \<not> (\<exists>i \<in> set (runs e). ptr_eq i r)) (runs e) @ [t]"
  obtain d2 where ms: "manifest_store (next_seq e + 1) (map file_name ?new) d1 = (Inr (), d2)"
    using manifest_store_total [OF f1] by blast
  have f2: "fault_free d2" using fault_free_keeps [OF manifest_store_keeps ms f1] .
  let ?e2 = "?e1\<lparr>disk := d2, runs := ?new\<rparr>"
  have "compact_swap X (runs e) t ?e1 = (Inr (), ?e2)"
    unfolding compact_swap_def Let_def using ms by simp
  moreover have "healthy X ?e2" using h f2 by (simp add: healthy_def)
  ultimately show ?thesis using False cm drop_inputs_healthy [of X ?e2 "runs e"]
    by (simp add: compact_inner_def compact_snapshot_def)
qed

text \<open>Every admitted operation succeeds on a healthy store, and leaves it healthy.\<close>

lemma run_op_total:
  assumes "store_inv X e" and ad: "admits_op X e a" and h: "healthy X e"
  shows "fst (run_op X a e) = Inr () \<and> healthy X (snd (run_op X a e))"
proof -
  have inv: "engine_inv X e" and aw: "admits_ops e (op_records a)"
    using assms by (simp_all add: store_inv_def admits_op_def)
  consider "run_op X a = write_ops X (op_records a)" | "a = FlushOp" | "a = CompactOp"
    by (cases a) (simp_all add: writes_are_write_ops)
  then show ?thesis
  proof cases
    case 1
    with write_ops_total [OF inv aw h] show ?thesis by simp
  next
    case 2
    with flush_locked_total [OF inv _ h] aw h show ?thesis by (simp add: engine_flush_def admits_ops_def)
  next
    case 3
    have i: "engine_inv X (e\<lparr>compacting := True\<rparr>)" "healthy X (e\<lparr>compacting := True\<rparr>)"
      using inv h by (simp_all add: engine_inv_compacting healthy_def)
    have "sized (concat (map (run_entries X) (runs (e\<lparr>compacting := True\<rparr>))))"
      using ad 3 by (simp add: admits_op_def)
    from compact_inner_total [OF i(1) this i(2)] 3 h show ?thesis
      by (auto simp: compact_once_def healthy_def split: prod.splits)
  qed
qed

text \<open>One successful, admitted operation of a healthy store.\<close>

lemma run_op_good:
  assumes "store_inv X e" and "admits_op X e a" and "healthy X e"
  shows "store_inv X (snd (run_op X a e))" "healthy X (snd (run_op X a e))" "fst (run_op X a e) = Inr ()"
    "view X (snd (run_op X a e)) = op_effect a (view X e)"
  using run_op_correct [OF assms(1,2)] run_op_total [OF assms] by simp_all

lemma flush_counters:
  assumes "flush_locked X e = (Inr (), e')"
  shows "next_seq e' = next_seq e + 1 \<and> next_run_id e' = next_run_id e + 1 \<and> mem e' = snd (memtable_take (mem e))"
  using assms by (auto simp: flush_locked_def memtable_take_def Let_def signal_compaction_def
      split: prod.splits sum.splits if_splits)

end
