(* ===== verification/Crash_Safety.thy ===== *)
theory Crash_Safety
  imports Progress
begin

text \<open>
  Crashes and reopening. \<^verbatim>\<open>logged X e groups\<close> says that the log on disk holds the
  groups of writes \<^verbatim>\<open>groups\<close>, forced to stable storage, and that replaying them over the
  live runs gives the engine's contents. Successful writes keep it, flushes and
  compactions keep it whatever they return, and from it follows that a power failure at
  that point and a reopen show the same map. On a disk without faults reopening succeeds.
\<close>

section \<open>The log is on stable storage\<close>

definition wal_synced :: "fs \<Rightarrow> bool" where
  "wal_synced d \<longleftrightarrow> (\<forall>f. fs_lookup d WAL_FILE = Some f \<longrightarrow> fsynced f)"

definition logged :: "'f externals \<Rightarrow> 'f engine \<Rightarrow> entry list list \<Rightarrow> bool" where
  "logged X e groups \<longleftrightarrow> log_found X (disk e) groups \<and> wal_synced (disk e)
     \<and> replayed X groups (runs e) = view X e"

lemma wal_synced_cong: "fs_lookup d' WAL_FILE = fs_lookup d WAL_FILE \<Longrightarrow> wal_synced d' = wal_synced d"
  by (simp add: wal_synced_def)

lemma wal_open_synced:
  "wal_laws X \<Longrightarrow> wal_open_file X WAL_FILE d = (r, d') \<Longrightarrow> wal_synced d \<Longrightarrow> wal_synced d'"
  by (auto simp: wal_laws_def wal_open_file_def wal_synced_def split: option.splits sum.splits)

lemma remove_synced: "fs_remove_file n d = (r, d') \<Longrightarrow> wal_synced d \<Longrightarrow> wal_synced d'"
  by (auto simp: fs_remove_file_def wal_synced_def split: option.splits if_splits)

lemma rotate_synced:
  assumes "wal_path du = WAL_FILE" and "rotate_log X du d = (r, du', d')" and "wal_synced d" and "wal_laws X"
  shows "wal_synced d'"
proof (cases "durability_on X")
  case True
  obtain r1 d1 where rm: "fs_remove_file WAL_FILE d = (r1, d1)" by fastforce
  have s1: "wal_synced d1" by (rule remove_synced [OF rm assms(3)])
  obtain r2 d2 where wo: "wal_open_file X WAL_FILE d1 = (r2, d2)" by fastforce
  have s2: "wal_synced d2" by (rule wal_open_synced [OF assms(4) wo s1])
  from assms(1,2) True rm wo have "d' = d1 \<or> d' = d2"
    by (auto simp: rotate_log_def Let_def split: if_splits sum.splits)
  with s1 s2 show ?thesis by blast
qed (use assms in \<open>simp add: rotate_log_def\<close>)

lemma flush_synced:
  assumes w: "wal_laws X" and wp: "wal_path (dur e) = WAL_FILE" and fl: "flush_locked X e = (r, e')"
    and s: "wal_synced (disk e)"
  shows "wal_synced (disk e')"
proof -
  let ?n = "next_seq e" and ?es = "memtable_iter (mem e)"
  obtain r1 d1 where fr: "flush_run X (run_filename ?n) (next_run_id e) ?es (disk e) = (r1, d1)" by fastforce
  have s1: "wal_synced d1"
    using s wal_synced_cong [OF touchesD [OF flush_run_touches [OF fr] run_names_fixed(3)]] by simp
  note defs = flush_locked_def Let_def memtable_take_def memtable_iter_def
  show ?thesis
  proof (cases r1)
    case (Inl err)
    with fl fr s1 show ?thesis by (auto simp: defs)
  next
    case (Inr t)
    obtain r2 d2 where ms: "manifest_store (?n + 1) (map file_name (t # runs e)) d1 = (r2, d2)" by fastforce
    have s2: "wal_synced d2"
      using s1 wal_synced_cong [OF touchesD [OF act_keepsD [OF manifest_store_keeps ms]]]
      by (simp add: WAL_FILE_def MANIFEST_def MANIFEST_TMP_def)
    obtain r3 du d3 where ro: "rotate_log X (dur e) d2 = (r3, du, d3)" by (metis prod_cases3)
    have s3: "wal_synced d3" by (rule rotate_synced [OF wp ro s2 w])
    have "disk e' = d2 \<or> disk e' = d3"
      using fl fr Inr ms ro by (cases r2; cases r3) (auto simp: defs signal_compaction_def)
    with s2 s3 show ?thesis by auto
  qed
qed

section \<open>What keeps the log in step\<close>

lemma logged_flush:
  assumes X: "bloom_laws X" and w: "wal_laws X" and on: "durability_on X" and inv: "engine_inv X e"
    and hr: "headroom e" and sz: "sized (entries (mem e))" and wp: "wal_path (dur e) = WAL_FILE"
    and lg: "logged X e groups" and fl: "flush_locked X e = (r, e')"
  shows "wal_synced (disk e') \<and> (\<exists>gs \<in> {groups, []}. log_found X (disk e') gs \<and> replayed X gs (runs e') = view X e)"
proof -
  have g: "log_found X (disk e) groups" "replayed X groups (runs e) = view X e" and s: "wal_synced (disk e)"
    using lg by (simp_all add: logged_def)
  have fp: "flush_post X e (r, e')" using flush_locked_post [OF X inv hr sz wp] fl by simp
  note log = flush_locked_log [OF w on wp g(1) fl]
  consider "flushed X e e'" | "runs e' = runs e" using fp by (auto simp: flush_post_def split: if_splits)
  then show ?thesis
  proof cases
    case 1
    with log replayed_flushed [OF 1 g(2)] flush_synced [OF w wp fl s] show ?thesis by auto
  next
    case 2
    with log g(2) flush_synced [OF w wp fl s] show ?thesis by auto
  qed
qed

lemma log_batch_synced:
  assumes "durability_on X" and "wal_path du = WAL_FILE" and "log_batch X du ws d = (Inr x, d')"
  shows "wal_synced d'"
  using assms by (auto simp: log_batch_def log_append_def wal_append_and_sync_def wal_handle_def act_map_err_def
      wal_synced_def Let_def elim!: act_then_InrE split: option.splits if_splits prod.splits sum.splits)

lemma logged_logs: "logged X e groups \<Longrightarrow> durability_on X \<Longrightarrow> fs_lookup (disk e) WAL_FILE \<noteq> None \<Longrightarrow> logs X (disk e) groups"
  by (auto simp: logged_def log_found_def)

lemma logged_write:
  assumes X: "bloom_laws X" and w: "wal_laws X" and on: "durability_on X" and inv: "engine_inv X e"
    and ad: "admits_ops e ws" and lg: "loggable ws" and l: "logged X e groups"
    and ex: "fs_lookup (disk e) WAL_FILE \<noteq> None" and wr: "write_ops X ws e = (Inr (), e')"
  shows "\<exists>gs \<in> {groups @ [ws], []}. logged X e' gs"
proof -
  have wp: "wal_path (dur e) = WAL_FILE" using ad by (simp add: admits_ops_def)
  have lo: "logs X (disk e) groups" by (rule logged_logs [OF l on ex])
  have gs: "\<forall>g \<in> set groups. loggable g" and rp: "replayed X groups (runs e) = view X e"
    using l by (simp_all add: logged_def log_found_def)
  obtain d1 where lb: "log_batch X (dur e) ws (disk e) = (Inr (), d1)"
    and mf: "maybe_flush X (e\<lparr>disk := d1, mem := apply_all ws (mem e)\<rparr>) = (Inr (), e')"
    using wr by (auto simp: write_ops_def split: prod.splits sum.splits)
  let ?e = "e\<lparr>disk := d1, mem := apply_all ws (mem e)\<rparr>"
  have v1: "view X ?e = fold spec_apply ws (view X e)" by (simp add: view_def resolve_apply)
  have "logs X d1 (groups @ [ws])" using log_batch_ok(1) [OF w on lo wp lb] .
  then have l1: "logged X ?e (groups @ [ws])"
    using log_batch_synced [OF on wp lb] gs lg on v1 rp
    by (simp add: logged_def log_found_def replayed_snoc)
  have sz: "sized (entries (mem ?e))" and hr: "headroom ?e" using ad by (simp_all add: admits_ops_def headroom_def)
  have i1: "engine_inv X ?e"
    using inv disk_ok_log [OF _ wp lb] sz apply_all_inv by (simp add: engine_inv_def sized_def)
  show ?thesis
  proof (cases "maybe_flush X ?e = flush_locked X ?e")
    case True
    with mf have fl: "flush_locked X ?e = (Inr (), e')" by simp
    have "flush_post X ?e (flush_locked X ?e)" using flush_locked_post [OF X i1 hr sz] wp by simp
    with fl have "view X e' = view X ?e" using flushed_view [of X ?e e'] by (simp add: flush_post_def)
    with logged_flush [OF X w on i1 hr sz _ l1 fl] wp show ?thesis by (auto simp: logged_def)
  next
    case False
    with mf l1 show ?thesis by (auto simp: maybe_flush_def split: if_splits)
  qed
qed

section \<open>A power failure and a reopen\<close>

text \<open>Room for the counters, and a directory whose metadata can be read at the second call.\<close>

definition room :: "u64 \<Rightarrow> fs \<Rightarrow> nat \<Rightarrow> bool" where
  "room rid d n \<longleftrightarrow> unat rid + n + 1 < 2 ^ 64 \<and> numbered d \<and> plan d (Suc (clock d)) = None"

lemma crash_log:
  assumes cr: "crashes X d d'" and s: "wal_synced d" and l: "log_found X d groups"
  shows "log_found X d' groups"
proof -
  have "fs_lookup d' WAL_FILE = fs_lookup d WAL_FILE"
    using cr s by (cases "fs_lookup d WAL_FILE") (auto simp: crashes_def wal_synced_def)
  from log_found_cong [OF this, of X groups] l show ?thesis by simp
qed

lemma crash_openable:
  assumes rec: "recoverable X d rs" and l: "log_found X d groups" "wal_synced d"
    and cr: "crashes X d d'" and rm: "room rid d' (length rs)"
  shows "openable X rid d' rs groups"
  using crash_recoverable [OF cr rec] crash_log [OF cr l(2,1)] rm by (simp add: openable_def room_def)

lemma crash_reopen:
  assumes X: "bloom_laws X" and w: "wal_laws X" and inv: "engine_inv X e"
    and l: "log_found X (disk e) groups" "wal_synced (disk e)"
    and sz: "sized (entries (apply_all (concat groups) memtable_new))"
    and cr: "crashes X (disk e) d" and rm: "room rid d (length (runs e))"
    and op: "open_with X cfg rid d = (Inr e', d')"
  shows "store_inv X e' \<and> view X e' = replayed X groups (runs e)"
proof -
  have "recoverable X (disk e) (runs e)" using inv disk_ok_recoverable by (auto simp: engine_inv_def)
  from open_with_ok [OF X w crash_openable [OF this l cr rm] sz op] X show ?thesis
    by (simp add: store_inv_def)
qed

section \<open>Reopening succeeds on a disk without faults\<close>

lemma filter_load_total:
  assumes "fault_free d"
  shows "\<exists>fo d'. filter_load X p d = (Inr fo, d')"
  using assms by (auto simp: filter_load_def fs_read_def Let_def split: option.splits)

lemma fault_free_exists:
  "fault_free d \<Longrightarrow> fs_lookup d n = Some f \<Longrightarrow> fs_exists n d = (Inr True, tick d)"
  by (simp add: fs_exists_def)

lemma open_one_total:
  assumes "fault_free d" and "committed X d t"
  shows "\<exists>u fo d1 d2. sstable_open X rid (tbl_path t) (tick d) = (Inr u, d1)
     \<and> filter_load X (tbl_path t) d1 = (Inr fo, d2) \<and> fault_free d2 \<and> touches (sidecar_names (tbl_path t)) d d2"
proof -
  from assms(2) obtain bss where c: "committed_at X d t bss" by (auto simp: committed_def)
  have "fs_lookup (tick d) (tbl_path t) = Some (File (run_image X bss) True)"
    "indexable bss" "length (run_image X bss) < usize_limit"
    using c by (simp_all add: committed_at_def readable_indexable)
  with sstable_open_total [of "tick d" "tbl_path t" "File (run_image X bss) True" X bss rid] assms(1)
  obtain d1 where o: "sstable_open X rid (tbl_path t) (tick d) = (Inr (opened X rid (tbl_path t) bss), d1)"
    and f1: "fault_free d1" by auto
  from filter_load_total [OF f1, of X "tbl_path t"] obtain fo d2
    where l: "filter_load X (tbl_path t) d1 = (Inr fo, d2)" by blast
  have f2: "fault_free d2" by (rule fault_free_keeps [OF filter_load_keeps l f1])
  have "touches (\<lambda>n. False) (tick d) d1" by (rule act_keepsD [OF sstable_open_keeps o])
  then have "touches (sidecar_names (tbl_path t)) d d1" by (simp add: touches_def)
  with act_keepsD [OF filter_load_keeps l] have "touches (sidecar_names (tbl_path t)) d d2"
    by (blast intro: touches_trans)
  with o l f2 show ?thesis by blast
qed

lemma open_runs_total:
  assumes "fault_free d" and "\<forall>t \<in> set rs. committed X d t \<and> (\<exists>s. tbl_path t = run_filename s)"
    and "distinct (map tbl_path rs)"
  shows "\<exists>ts rid' d'. open_runs X (map tbl_path rs) rid acc d = (Inr (ts, rid'), d')"
  using assms
proof (induction rs arbitrary: rid acc d)
  case (Cons t rs)
  from Cons.prems(2) have t: "committed X d t" and st: "\<exists>s. tbl_path t = run_filename s" by simp_all
  from st obtain s where s: "tbl_path t = run_filename s" by blast
  from t obtain f where f: "fs_lookup d (tbl_path t) = Some f" by (auto simp: committed_def committed_at_def)
  from open_one_total [OF Cons.prems(1) t, of rid] obtain u fo d1 d2 where
    o: "sstable_open X rid (tbl_path t) (tick d) = (Inr u, d1)" "filter_load X (tbl_path t) d1 = (Inr fo, d2)"
    and d2: "fault_free d2" "touches (sidecar_names (tbl_path t)) d d2" by blast
  have rest: "committed X d2 v \<and> (\<exists>s. tbl_path v = run_filename s)" if v: "v \<in> set rs" for v
  proof -
    from Cons.prems(2) v have cv: "committed X d v" and sv: "\<exists>s. tbl_path v = run_filename s" by simp_all
    from sv obtain s' where s': "tbl_path v = run_filename s'" by blast
    have "tbl_path v \<in> tbl_path ` set rs" using v by simp
    then have "tbl_path v \<noteq> tbl_path t" using Cons.prems(3) by (metis distinct.simps(2) list.set_map list.simps(9))
    then have ne: "s \<noteq> s'" using s s' by auto
    have "\<not> sidecar_names (tbl_path t) (tbl_path v)" "\<not> sidecar_names (tbl_path t) (sidecar_path (tbl_path v))"
      using sidecar_names_run [where a = s and b = s'] sidecar_run_names(1,2) ne unfolding s s' by blast+
    from committed_frame [OF cv d2(2) this] sv show ?thesis by blast
  qed
  have "distinct (map tbl_path rs)" using Cons.prems(3) by simp
  from Cons.IH [OF d2(1) _ this, of "rid + 1" "acc @ [attach_cache (attach_filter u fo)]"] rest
  show ?case by (simp add: act_then_def fault_free_exists [OF Cons.prems(1) f] o)
qed simp

lemma reclaim_entry_total:
  assumes "fault_free d" and "fs_lookup d name \<noteq> None"
  shows "\<exists>seq' d'. reclaim_entry live name seq d = (Inr seq', d') \<and> fault_free d'
     \<and> (\<forall>n. n \<noteq> name \<longrightarrow> fs_lookup d' n = fs_lookup d n)"
proof -
  from assms(2) obtain f where f: "fs_lookup d name = Some f" by blast
  have rm: "fs_remove_file name (tick d) = (Inr (), del_file name (note_entry name (tick (tick d))))"
    using f assms(1) by (simp add: fs_remove_file_def)
  have ff: "fault_free (tick d)" "fault_free (del_file name (note_entry name (tick (tick d))))"
    using assms(1) by (simp_all add: fault_free_def)
  show ?thesis
    by (simp add: reclaim_entry_def act_then_def act_map_err_def fs_call_fault_free [OF assms(1)] rm ff assms(1) Let_def
        split: option.splits)
qed

lemma reclaim_total:
  assumes "fault_free d" and "distinct names" and "\<forall>n \<in> set names. fs_lookup d n \<noteq> None"
  shows "\<exists>seq' d'. reclaim live names seq d = (Inr seq', d') \<and> fault_free d'"
  using assms
proof (induction names arbitrary: seq d)
  case (Cons name names)
  then have "fs_lookup d name \<noteq> None" by simp
  from reclaim_entry_total [OF Cons.prems(1) this, of live seq] obtain seq1 d1 where
    r: "reclaim_entry live name seq d = (Inr seq1, d1)" and f1: "fault_free d1"
    and o: "\<forall>n. n \<noteq> name \<longrightarrow> fs_lookup d1 n = fs_lookup d n" by blast
  have "\<forall>n \<in> set names. fs_lookup d1 n \<noteq> None" using o Cons.prems(2,3) by auto
  moreover have "distinct names" using Cons.prems(2) by simp
  ultimately show ?case using Cons.IH [OF f1, of seq1] by (simp add: act_then_def r)
qed simp

lemma durability_open_total:
  assumes "fault_free d" and "wal_laws X" and "log_found X d groups"
  shows "\<exists>du d'. durability_open X d = (Inr du, d') \<and> fault_free d'"
proof (cases "durability_on X")
  case True
  have "\<exists>bs. wal_open X (map_option fdata (fs_lookup d WAL_FILE)) = Inr bs"
  proof (cases "fs_lookup d WAL_FILE")
    case None
    with assms(2) show ?thesis by (auto simp: wal_laws_def)
  next
    case (Some f)
    with True assms(3) have "holds_records X (fdata f) (map log_encode groups)"
      by (auto simp: log_found_def logs_def)
    with assms(2) Some show ?thesis unfolding wal_laws_def by fastforce
  qed
  then obtain bs where "wal_open X (map_option fdata (fs_lookup d WAL_FILE)) = Inr bs" by blast
  then have o: "wal_open_file X WAL_FILE d = (Inr (), set_file WAL_FILE (File bs (wal_open_syncs X)) (note_new WAL_FILE (tick d)))"
    using assms(1) by (simp add: wal_open_file_def)
  have "fault_free (set_file WAL_FILE (File bs (wal_open_syncs X)) (note_new WAL_FILE (tick d)))" using assms(1) by (simp add: fault_free_def)
  with True o show ?thesis by (simp add: durability_open_def act_then_def act_map_err_def)
qed (use assms(1) in \<open>simp add: durability_open_def\<close>)

lemma replay_log_total:
  assumes "fault_free d" and "wal_ready X du" and "durability_on X \<longrightarrow> logs X d groups"
    and "\<forall>g \<in> set groups. loggable g"
  shows "\<exists>m d'. replay_log X du m0 d = (Inr m, d')"
proof (cases "durability_on X")
  case True
  then obtain f where f: "fs_lookup d WAL_FILE = Some f" "wal_iter X (fdata f) = Inr (map Inr (map log_encode groups))"
    using assms(3) by (auto simp: logs_def holds_records_def)
  with True assms(1,2) replay_records_groups [OF assms(4)] show ?thesis
    by (simp add: replay_log_def act_then_def act_map_err_def wal_handle_def wal_ready_def wal_iter_file_def)
qed (simp add: replay_log_def)

lemma manifest_load_any:
  assumes "fault_free d" and "recoverable X d rs"
  shows "\<exists>mo d'. manifest_load d = (Inr mo, d')"
proof (cases "fs_lookup d MANIFEST")
  case None
  with assms(1) show ?thesis by (simp add: manifest_load_def act_then_def fs_exists_def)
next
  case (Some f)
  with assms(2) obtain seq where m: "fs_lookup d MANIFEST = Some (manifest_file seq (map tbl_path rs))"
    by (auto simp: recoverable_def)
  have "\<forall>r \<in> set (map tbl_path rs). plain r \<and> r \<noteq> []"
  proof
    fix r assume "r \<in> set (map tbl_path rs)"
    then obtain s where "r = run_filename s" using assms(2) by (auto simp: recoverable_def)
    with plain_run_filename show "plain r \<and> r \<noteq> []" by simp
  qed
  from manifest_load_total [OF assms(1) this m] show ?thesis by blast
qed

lemma open_files_total:
  assumes ff: "fault_free d" and w: "wal_laws X" and oa: "openable X rid d rs groups"
  shows "\<exists>e d'. open_files X cfg rid d = (Inr e, d') \<and> fault_free d'"
proof -
  have rec: "recoverable X d rs" and lf: "log_found X d groups" using oa by (simp_all add: openable_def)
  have c0: "fs_call (Inr ()) d = (Inr (), tick d)" by (rule fs_call_fault_free [OF ff])
  have f0: "fault_free (tick d)" using ff by simp
  have rec0: "recoverable X (tick d) rs"
    using rec committed_lookups [of "tick d" d X] by (simp add: recoverable_def)
  from manifest_load_any [OF f0 rec0] obtain mo d1 where ml: "manifest_load (tick d) = (Inr mo, d1)" by blast
  have t1: "touches (\<lambda>n. False) (tick d) d1" by (rule act_keepsD [OF manifest_load_keeps ml])
  have f1: "fault_free d1" by (rule fault_free_keeps [OF manifest_load_keeps ml f0])
  have names: "(case mo of Some m \<Rightarrow> m_runs m | None \<Rightarrow> []) = map tbl_path rs"
    using manifest_load_runs [OF ml _ rec0] ff by simp
  have l1: "fs_lookup d1 n = fs_lookup d n" for n using touchesD [OF t1] by simp
  have rs: "\<forall>t \<in> set rs. committed X d1 t \<and> (\<exists>s. tbl_path t = run_filename s)" "distinct (map tbl_path rs)"
    using rec committed_lookups [OF l1, of X] by (simp_all add: recoverable_def)
  from open_runs_total [OF f1 rs, of rid "[]"] obtain ts rid' d2
    where o2: "open_runs X (map tbl_path rs) rid [] d1 = (Inr (ts, rid'), d2)" by blast
  have t2: "touches (\<lambda>n. \<exists>p \<in> set (map tbl_path rs). sidecar_names p n) d1 d2" by (rule open_runs_touches [OF o2])
  have f2: "fault_free d2" using fault_free_touches [OF t2] f1 by simp
  have i2: "fs_inv d2" using touches_inv [OF t2] touches_inv [OF t1] rec by (simp add: recoverable_def)
  have r3: "fs_read_dir d2 = (Inr (map fst (dir d2)), tick d2)" using f2 by (simp add: fs_read_dir_def)
  let ?seq = "case mo of Some m \<Rightarrow> m_next_seq m | None \<Rightarrow> 0"
  have "distinct (map fst (dir d2))" using i2 asc_keys_distinct by (simp add: fs_inv_def)
  moreover have "\<forall>n \<in> set (map fst (dir d2)). fs_lookup (tick d2) n \<noteq> None" using fs_lookup_dir [of d2] by simp
  ultimately obtain seq d4 where r4: "reclaim (map tbl_path rs) (map fst (dir d2)) ?seq (tick d2) = (Inr seq, d4)"
    and f4: "fault_free d4"
    using reclaim_total [of "tick d2" "map fst (dir d2)" "map tbl_path rs" ?seq] f2 by auto
  have p4: "fs_lookup d4 WAL_FILE = fs_lookup d2 WAL_FILE"
    using reclaim_ok [OF r4] reclaimable_names(2) by simp
  have "fs_lookup d4 WAL_FILE = fs_lookup d WAL_FILE"
    using p4 open_runs_outside [OF o2 _ sidecars_apart(2)] rs(1) l1 by simp
  from log_found_cong [OF this, of X groups] lf have lf4: "log_found X d4 groups" by simp
  from durability_open_total [OF f4 w lf4] obtain du d5 where o5: "durability_open X d4 = (Inr du, d5)"
    and f5: "fault_free d5" by blast
  note du = durability_open_ok [OF w lf4 o5]
  have "\<forall>g \<in> set groups. loggable g" using lf by (simp add: log_found_def)
  with replay_log_total [OF f5, of X du groups memtable_new] du
  obtain m d6 where r6: "replay_log X du memtable_new d5 = (Inr m, d6)" by blast
  have f6: "fault_free d6" by (rule fault_free_keeps [OF replay_log_keeps r6 f5])
  show ?thesis
    by (simp add: open_files_def act_then_def act_map_err_def c0 ml names o2 r3 r4 o5 r6 f6 Let_def)
qed

lemma open_with_total:
  assumes ff: "fault_free d" and X: "bloom_laws X" and w: "wal_laws X" and pc: "pc_total X"
    and oa: "openable X rid d rs groups" and sz: "sized (entries (apply_all (concat groups) memtable_new))"
  shows "\<exists>e d'. open_with X cfg rid d = (Inr e, d')"
proof -
  from open_files_total [OF ff w oa, of cfg] obtain e0 d0 where o: "open_files X cfg rid d = (Inr e0, d0)"
    and f0: "fault_free d0" by blast
  note of = open_files_ok [OF X w oa o]
  have h: "healthy X e0" using of f0 w pc by (simp add: healthy_def)
  have "fst (flush_locked X e0) = Inr () \<and> healthy X (snd (flush_locked X e0))"
    using flush_locked_total [of X e0] of sz h by simp
  then have "fst (engine_flush X e0) = Inr () \<and> healthy X (snd (engine_flush X e0))"
    using h by (simp add: engine_flush_def)
  then obtain e1 where fl: "engine_flush X e0 = (Inr (), e1)" "healthy X e1" by (cases "engine_flush X e0") auto
  then have "fs_call (Inr ()) (disk e1) = (Inr (), tick (disk e1))"
    by (intro fs_call_fault_free) (simp add: healthy_def)
  with o fl(1) show ?thesis by (simp add: open_with_def)
qed

end
