(* ===== verification/Compactor.thy ===== *)
theory Compactor
  imports Store
begin

text \<open>
  The running process: client threads, readers in flight and the background compactor
  (\<^verbatim>\<open>compactor_loop\<close> and, inside it, \<^verbatim>\<open>compact_once\<close> and \<^verbatim>\<open>compact_inner\<close> of src/db.rs), as
  one state and the steps that change it. What the code does under one lock is one step;
  what it does with no lock held is cut into steps between which anyone may run:

  \<^item> a write or a flush holds the write lock throughout and is one step;
  \<^item> a lookup takes the read lock once, to consult the buffer and clone the run handles,
    and then searches one run per step;
  \<^item> a scan snapshots buffer and runs in one step and merges them in another, which
    reads only what the snapshot holds;
  \<^item> the compactor snapshots, reserves a name and creates its file, copies one entry per
    step, seals the file, swaps the run list under the write lock, and drops its inputs.

  Handles are reference counted. \<^verbatim>\<open>held\<close> lists them all: the live runs, the snapshots of
  the readers, what the compactor holds. The obsolete flag is shared by the handles on a
  run, so it is kept once per run id. When the last handle on an obsolete run goes, its
  files are removed.
\<close>

section \<open>State\<close>

datatype 'f reader =
    Getting bytes "'f sstable list" "'f sstable list"
  | Scanning range "entry list" "'f sstable list"

text \<open>Where the compactor thread stands.\<close>

datatype 'f thread =
    Waiting
  | Claiming
  | Snapshotting
  | Reserving "'f sstable list"
  | Merging "'f sstable list" u64 "'f source list" writer "'f option"
  | Sealing "'f sstable list" u64 writer "'f option"
  | Swapping "'f sstable list" "'f sstable"
  | Dropping "'f sstable list"
  | Releasing "unit res"
  | Reporting "unit res"
  | Exited

record 'f sys =
  eng :: "'f engine"
  thread :: "'f thread"
  readers :: "(nat \<times> 'f reader) list"
  dead :: "u64 list"
  closed :: bool

text \<open>The process as \<^verbatim>\<open>open_with\<close> leaves it: the thread spawned, nobody else running.\<close>

definition started :: "'f engine \<Rightarrow> 'f sys" where
  "started e = \<lparr>eng = e, thread = Waiting, readers = [], dead = [], closed = False\<rparr>"

fun reader_handles :: "'f reader \<Rightarrow> 'f sstable list" where
  "reader_handles (Getting k hs rest) = hs"
| "reader_handles (Scanning rng m hs) = hs"

fun thread_handles :: "'f thread \<Rightarrow> 'f sstable list" where
  "thread_handles (Reserving inputs) = inputs"
| "thread_handles (Merging inputs seq sources w fo) = inputs"
| "thread_handles (Sealing inputs seq w fo) = inputs"
| "thread_handles (Swapping inputs output) = output # inputs"
| "thread_handles (Dropping inputs) = inputs"
| "thread_handles _ = []"

definition held :: "'f sys \<Rightarrow> 'f sstable list" where
  "held s = runs (eng s) @ thread_handles (thread s) @ concat (map (\<lambda>r. reader_handles (snd r)) (readers s))"

text \<open>Giving up handles: those on obsolete runs that nobody else holds take their files with them.\<close>

definition release :: "'f sstable list \<Rightarrow> 'f sys \<Rightarrow> 'f sys" where
  "release hs s =
     s\<lparr>eng := drop_inputs (filter (\<lambda>t. run_id t \<in> set (dead s) \<and> run_id t \<notin> run_id ` set (held s)) hs) (eng s)\<rparr>"

section \<open>The compactor thread\<close>

definition set_state :: "(compaction_state \<Rightarrow> compaction_state) \<Rightarrow> 'f engine \<Rightarrow> 'f engine" where
  "set_state f e = e\<lparr>compaction := f (compaction e)\<rparr>"

text \<open>\<^verbatim>\<open>compact_inner\<close> returns \<^verbatim>\<open>r\<close>, giving up the handles \<^verbatim>\<open>hs\<close>.\<close>

definition leave :: "'f sstable list \<Rightarrow> unit res \<Rightarrow> 'f sys \<Rightarrow> 'f sys" where
  "leave hs r s = release hs (s\<lparr>thread := Releasing r\<rparr>)"

definition wait_step :: "'f sys \<Rightarrow> 'f sys option" where
  "wait_step s =
     (let st = compaction (eng s) in
      if \<not> pending st \<and> \<not> shutdown st then None
      else if shutdown st then Some (s\<lparr>thread := Exited\<rparr>)
      else Some (s\<lparr>eng := set_state (\<lambda>st. st\<lparr>pending := False, running := True\<rparr>) (eng s), thread := Claiming\<rparr>))"

definition claim_step :: "'f sys \<Rightarrow> 'f sys" where
  "claim_step s =
     (if compacting (eng s) then s\<lparr>thread := Reporting (Inr ())\<rparr>
      else s\<lparr>eng := (eng s)\<lparr>compacting := True\<rparr>, thread := Snapshotting\<rparr>)"

definition snapshot_step :: "'f sys \<Rightarrow> 'f sys" where
  "snapshot_step s =
     (case compact_snapshot (eng s) of
        None \<Rightarrow> s\<lparr>thread := Releasing (Inr ())\<rparr>
      | Some inputs \<Rightarrow> s\<lparr>thread := Reserving inputs\<rparr>)"

definition reserve_step :: "'f externals \<Rightarrow> 'f sstable list \<Rightarrow> 'f sys \<Rightarrow> 'f sys" where
  "reserve_step X inputs s =
     (let e = eng s; seq = next_seq e; e = e\<lparr>next_seq := seq + 1\<rparr> in
      case writer_create (run_filename seq @ ''.tmp'') (disk e) of
        (Inl err, d) \<Rightarrow> leave inputs (Inl err) (s\<lparr>eng := e\<lparr>disk := d\<rparr>\<rparr>)
      | (Inr w, d) \<Rightarrow>
          s\<lparr>eng := e\<lparr>disk := d\<rparr>,
            thread := Merging inputs seq (merge_new [] (map cursor_new inputs)) w (builder X (compact_capacity inputs))\<rparr>)"

definition merge_step ::
    "'f externals \<Rightarrow> 'f sstable list \<Rightarrow> u64 \<Rightarrow> 'f source list \<Rightarrow> writer \<Rightarrow> 'f option \<Rightarrow> 'f sys \<Rightarrow> 'f sys" where
  "merge_step X inputs seq sources w fo s =
     (case merge_next X sources of
        (None, sources) \<Rightarrow> s\<lparr>thread := Sealing inputs seq w fo\<rparr>
      | (Some (Inl err), sources) \<Rightarrow> leave inputs (Inl err) s
      | (Some (Inr kv), sources) \<Rightarrow>
          (case writer_push X w (fst kv) (Value (snd kv)) (disk (eng s)) of
             (Inl err, d) \<Rightarrow> leave inputs (Inl err) (s\<lparr>eng := (eng s)\<lparr>disk := d\<rparr>\<rparr>)
           | (Inr w, d) \<Rightarrow>
               s\<lparr>eng := (eng s)\<lparr>disk := d\<rparr>,
                 thread := Merging inputs seq sources w (filter_add X fo (fst kv))\<rparr>))"

definition seal_step ::
    "'f externals \<Rightarrow> 'f sstable list \<Rightarrow> u64 \<Rightarrow> writer \<Rightarrow> 'f option \<Rightarrow> 'f sys \<Rightarrow> 'f sys" where
  "seal_step X inputs seq w fo s =
     (let e = eng s; name = run_filename seq in
      case seal_run X ''install compacted run'' (name @ ''.tmp'') name (next_run_id e) (w, fo) (disk e) of
        (Inl err, d) \<Rightarrow> leave inputs (Inl err) (s\<lparr>eng := e\<lparr>disk := d\<rparr>\<rparr>)
      | (Inr output, d) \<Rightarrow>
          s\<lparr>eng := e\<lparr>disk := d, next_run_id := next_run_id e + 1\<rparr>, thread := Swapping inputs output\<rparr>)"

definition swap_step :: "'f externals \<Rightarrow> 'f sstable list \<Rightarrow> 'f sstable \<Rightarrow> 'f sys \<Rightarrow> 'f sys" where
  "swap_step X inputs output s =
     (case compact_swap X inputs output (eng s) of
        (Inl err, e) \<Rightarrow> leave (output # inputs) (Inl err) (s\<lparr>eng := e\<rparr>)
      | (Inr _, e) \<Rightarrow> s\<lparr>eng := e, dead := map run_id inputs @ dead s, thread := Dropping inputs\<rparr>)"

definition report_step :: "unit res \<Rightarrow> 'f sys \<Rightarrow> 'f sys" where
  "report_step r s =
     (let e = set_state (\<lambda>st. st\<lparr>running := False, generation := generation st + 1\<rparr>) (eng s);
          e = (case r of Inl err \<Rightarrow> e\<lparr>last_error := Some err\<rparr> | Inr _ \<Rightarrow> e) in
      s\<lparr>eng := e, thread := Waiting\<rparr>)"

fun thread_step :: "'f externals \<Rightarrow> 'f thread \<Rightarrow> 'f sys \<Rightarrow> 'f sys option" where
  "thread_step X Waiting s = wait_step s"
| "thread_step X Claiming s = Some (claim_step s)"
| "thread_step X Snapshotting s = Some (snapshot_step s)"
| "thread_step X (Reserving inputs) s = Some (reserve_step X inputs s)"
| "thread_step X (Merging inputs seq sources w fo) s = Some (merge_step X inputs seq sources w fo s)"
| "thread_step X (Sealing inputs seq w fo) s = Some (seal_step X inputs seq w fo s)"
| "thread_step X (Swapping inputs output) s = Some (swap_step X inputs output s)"
| "thread_step X (Dropping inputs) s = Some (leave inputs (Inr ()) s)"
| "thread_step X (Releasing r) s = Some (s\<lparr>eng := (eng s)\<lparr>compacting := False\<rparr>, thread := Reporting r\<rparr>)"
| "thread_step X (Reporting r) s = Some (report_step r s)"
| "thread_step X Exited s = None"

section \<open>Readers\<close>

datatype event =
    Quiet
  | Done store_op "unit res"
  | GetDone nat "bytes option res"
  | ScanDone nat "scan_iter res"

definition begin_get :: "nat \<Rightarrow> bytes \<Rightarrow> 'f sys \<Rightarrow> event \<times> 'f sys" where
  "begin_get i k s =
     (case memtable_get (mem (eng s)) k of
        Some (Value v) \<Rightarrow> (GetDone i (Inr (Some v)), s)
      | Some Tombstone \<Rightarrow> (GetDone i (Inr None), s)
      | None \<Rightarrow> (Quiet, s\<lparr>readers := (i, Getting k (runs (eng s)) (runs (eng s))) # readers s\<rparr>))"

definition end_read :: "nat \<Rightarrow> 'f sstable list \<Rightarrow> 'f sys \<Rightarrow> 'f sys" where
  "end_read i hs s = release hs (s\<lparr>readers := filter (\<lambda>r. fst r \<noteq> i) (readers s)\<rparr>)"

definition keep_reading :: "nat \<Rightarrow> 'f reader \<Rightarrow> 'f sys \<Rightarrow> 'f sys" where
  "keep_reading i r s = s\<lparr>readers := map (\<lambda>x. if fst x = i then (i, r) else x) (readers s)\<rparr>"

definition get_step :: "'f externals \<Rightarrow> nat \<Rightarrow> bytes \<Rightarrow> 'f sstable list \<Rightarrow> 'f sstable list \<Rightarrow> 'f sys \<Rightarrow> event \<times> 'f sys" where
  "get_step X i k hs rest s =
     (case rest of
        [] \<Rightarrow> (GetDone i (Inr None), end_read i hs s)
      | run # rest \<Rightarrow>
          if \<not> might_contain X run k then (Quiet, keep_reading i (Getting k hs rest) s)
          else (case sstable_lookup X run k (cache (eng s)) of
                  (r, c) \<Rightarrow>
                    let s = s\<lparr>eng := (eng s)\<lparr>cache := c\<rparr>\<rparr> in
                    (case r of
                       Inl err \<Rightarrow> (GetDone i (Inl err), end_read i hs s)
                     | Inr (Some (Value v)) \<Rightarrow> (GetDone i (Inr (Some v)), end_read i hs s)
                     | Inr (Some Tombstone) \<Rightarrow> (GetDone i (Inr None), end_read i hs s)
                     | Inr None \<Rightarrow> (Quiet, keep_reading i (Getting k hs rest) s))))"

definition begin_scan :: "nat \<Rightarrow> range \<Rightarrow> 'f sys \<Rightarrow> 'f sys" where
  "begin_scan i rng s =
     (let m = filter (\<lambda>e. position rng (fst e) = In) (memtable_iter (mem (eng s))) in
      s\<lparr>readers := (i, Scanning rng m (runs (eng s))) # readers s\<rparr>)"

definition scan_snapshot :: "'f externals \<Rightarrow> range \<Rightarrow> entry list \<Rightarrow> 'f sstable list \<Rightarrow> scan_iter res" where
  "scan_snapshot X rng m hs =
     and_then (scan_loop X rng (merge_new m (map cursor_new hs)) []) (\<lambda>out. Inr (scan_new out))"

section \<open>Steps of the process\<close>

datatype action = Client store_op | BeginGet nat bytes | BeginScan nat range | Step nat | Tick | Close

text \<open>
  Who acts: a client calls a write operation, a reader starts or goes on, the compactor
  goes on, the handle is dropped. The handle is dropped by its owner, when no call on it
  is in flight and no other can follow.
\<close>

inductive sys_step :: "'f externals \<Rightarrow> 'f sys \<Rightarrow> action \<Rightarrow> event \<Rightarrow> 'f sys \<Rightarrow> bool" for X :: "'f externals" where
  client: "\<not> closed s \<Longrightarrow> a \<noteq> CompactOp \<Longrightarrow> run_op X a (eng s) = (r, e) \<Longrightarrow>
    sys_step X s (Client a) (Done a r) (s\<lparr>eng := e\<rparr>)"
| get: "\<not> closed s \<Longrightarrow> map_of (readers s) i = None \<Longrightarrow> begin_get i k s = (ev, s') \<Longrightarrow>
    sys_step X s (BeginGet i k) ev s'"
| scan: "\<not> closed s \<Longrightarrow> map_of (readers s) i = None \<Longrightarrow>
    sys_step X s (BeginScan i rng) Quiet (begin_scan i rng s)"
| get_more: "map_of (readers s) i = Some (Getting k hs rest) \<Longrightarrow> get_step X i k hs rest s = (ev, s') \<Longrightarrow>
    sys_step X s (Step i) ev s'"
| scan_end: "map_of (readers s) i = Some (Scanning rng m hs) \<Longrightarrow>
    sys_step X s (Step i) (ScanDone i (scan_snapshot X rng m hs)) (end_read i hs s)"
| compactor: "thread_step X (thread s) s = Some s' \<Longrightarrow> sys_step X s Tick Quiet s'"
| close: "\<not> closed s \<Longrightarrow> readers s = [] \<Longrightarrow>
    sys_step X s Close Quiet (s\<lparr>eng := set_state (\<lambda>st. st\<lparr>shutdown := True\<rparr>) (eng s), closed := True\<rparr>)"

inductive_cases sys_stepE: "sys_step X s a ev s'"

end
