(* ===== verification/Fleet.thy ===== *)
theory Fleet
  imports Compactor
begin

text \<open>
  The handles on run files. \<^verbatim>\<open>fleet_ok\<close> is what holds of the set of all handles of the
  process at any time: each has its own id and its own file, the file is on disk with the
  run's bytes, and the block cache holds only blocks of these runs. The lemmas say how it
  survives what the other steps do to the directory and the counters.
\<close>

definition fleet_ok :: "'f externals \<Rightarrow> 'f engine \<Rightarrow> 'f sstable set \<Rightarrow> bool" where
  "fleet_ok X e H \<longleftrightarrow> inj_on run_id H \<and> inj_on tbl_path H
     \<and> (\<forall>t \<in> H. run_id t < next_run_id e \<and> committed X (disk e) t \<and> (\<exists>q < next_seq e. tbl_path t = run_filename q))
     \<and> cache_coherent X H (next_run_id e) (cache e)"

lemma fleet_subset:
  assumes "fleet_ok X e H" and "H' \<subseteq> H"
  shows "fleet_ok X e H'"
  using assms cache_coherent_subset [OF _ assms(2), of X "next_run_id e" "cache e"]
    inj_on_subset [OF _ assms(2), of run_id] inj_on_subset [OF _ assms(2), of tbl_path]
  by (simp add: fleet_ok_def subset_iff)

lemma fleet_ids: "fleet_ok X e H \<Longrightarrow> ids_unique H (next_run_id e)"
  unfolding fleet_ok_def ids_unique_def by (auto dest: inj_onD)

lemma fleet_good: "fleet_ok X e H \<Longrightarrow> t \<in> H \<Longrightarrow> good_run X t"
  unfolding fleet_ok_def using committed_good by blast

lemma coherent_step:
  assumes "cache_coherent X T n c" and "n \<le> n'"
  shows "cache_coherent X T n' c"
  using assms(1) by (rule cache.coherent_mono) (use assms(2) in \<open>auto simp: block_of_def intro: order.strict_trans2\<close>)

text \<open>Actions on other files leave the fleet as it is.\<close>

lemma fleet_frame:
  assumes f: "fleet_ok X e H" and t: "touches P (disk e) (disk e')"
    and P: "\<And>u q name. u \<in> H \<Longrightarrow> tbl_path u = run_filename q \<Longrightarrow> run_names (run_filename q) name \<Longrightarrow> \<not> P name"
    and e: "next_seq e \<le> next_seq e'" "next_run_id e \<le> next_run_id e'" "cache e' = cache e"
  shows "fleet_ok X e' H"
proof -
  have "run_id u < next_run_id e' \<and> committed X (disk e') u \<and> (\<exists>q < next_seq e'. tbl_path u = run_filename q)"
    if u: "u \<in> H" for u
  proof -
    from f u obtain q where c: "committed X (disk e) u" "tbl_path u = run_filename q" "q < next_seq e" "run_id u < next_run_id e"
      unfolding fleet_ok_def by blast
    have "\<not> P (tbl_path u)" "\<not> P (sidecar_path (tbl_path u))"
      using P [OF u c(2)] sidecar_run_names c(2) by auto
    from committed_frame [OF c(1) t this] c e show ?thesis by (auto intro: order.strict_trans2)
  qed
  moreover have "cache_coherent X H (next_run_id e') (cache e')"
    using f coherent_step [of X H "next_run_id e"] e by (simp add: fleet_ok_def)
  ultimately show ?thesis using f unfolding fleet_ok_def by blast
qed

text \<open>A run just opened joins it.\<close>

lemma fleet_insert:
  assumes f: "fleet_ok X e H" and t: "committed X (disk e) t" "tbl_path t = run_filename q" "q < next_seq e"
    and new: "run_filename q \<notin> tbl_path ` H" and id: "run_id t = next_run_id e" "next_run_id e + 1 \<noteq> 0"
    and e': "e' = e\<lparr>next_run_id := next_run_id e + 1\<rparr>"
  shows "fleet_ok X e' (insert t H)"
proof -
  have lt: "next_run_id e < next_run_id e + 1" using id(2) by (rule less_succ_u64)
  have nid: "run_id t \<notin> run_id ` H" using f id(1) by (auto simp: fleet_ok_def)
  have "run_id u < next_run_id e + 1" if "u \<in> H" for u
    using f that lt by (auto simp: fleet_ok_def intro: order.strict_trans)
  moreover have "cache_coherent X (insert t H) (next_run_id e + 1) (cache e)"
    using f id by (intro cache_coherent_add) (simp_all add: fleet_ok_def)
  ultimately show ?thesis
    using f t new id nid lt unfolding fleet_ok_def e' by (auto simp: inj_on_insert)
qed

text \<open>The live runs among the handles satisfy what the engine's invariant asks of them.\<close>

lemma fleet_runs:
  assumes f: "fleet_ok X e H" and rs: "set rs \<subseteq> H" "distinct rs"
  shows "handles_ok X rs (next_run_id e) (cache e)" "runs_ok X (disk e) (next_seq e) rs"
    "distinct (map tbl_path rs)" "distinct (map run_id rs)"
proof -
  have s: "fleet_ok X e (set rs)" by (rule fleet_subset [OF f rs(1)])
  show d: "distinct (map tbl_path rs)" "distinct (map run_id rs)"
    using s rs(2) by (simp_all add: fleet_ok_def distinct_map)
  show "handles_ok X rs (next_run_id e) (cache e)" using s d by (simp add: handles_ok_def fleet_ok_def)
  show "runs_ok X (disk e) (next_seq e) rs" using s by (simp add: runs_ok_def fleet_ok_def)
qed

section \<open>Files of a run in the making\<close>

lemma names_of_run:
  assumes "tbl_path u = run_filename q" and "tbl_path u \<noteq> run_filename s" and "run_names (run_filename q) name"
  shows "\<not> run_names (run_filename s) name"
  using assms run_names_disjoint by metis

lemma fleet_own_name:
  assumes f: "fleet_ok X e H" and t: "touches (run_names (run_filename s)) (disk e) (disk e')"
    and H: "run_filename s \<notin> tbl_path ` H"
    and e: "next_seq e \<le> next_seq e'" "next_run_id e \<le> next_run_id e'" "cache e' = cache e"
  shows "fleet_ok X e' H"
  using f t
proof (rule fleet_frame)
  fix u q name assume u: "u \<in> H" "tbl_path u = run_filename q" "run_names (run_filename q) name"
  then have "tbl_path u \<noteq> run_filename s" using H by (metis image_eqI)
  with u show "\<not> run_names (run_filename s) name" by (intro names_of_run)
qed (use e in simp_all)

lemma disk_ok_unlisted:
  assumes ok: "disk_ok X d n rs" and t: "touches (run_names (run_filename s)) d d'" and s: "s < n"
    and rs: "\<forall>u \<in> set rs. tbl_path u \<noteq> run_filename s"
  shows "disk_ok X d' n rs"
proof -
  have "committed X d' u \<and> (\<exists>q < n. tbl_path u = run_filename q)" if u: "u \<in> set rs" for u
  proof -
    from ok u obtain q where q: "committed X d u" "tbl_path u = run_filename q" "q < n"
      by (auto simp: disk_ok_def runs_ok_def)
    have "\<not> run_names (run_filename s) (tbl_path u)" "\<not> run_names (run_filename s) (sidecar_path (tbl_path u))"
      using names_of_run [OF q(2)] rs u sidecar_run_names q(2) by auto
    from committed_frame [OF q(1) t this] q show ?thesis by blast
  qed
  moreover have "fresh d' n"
    unfolding fresh_def
  proof (intro allI impI)
    fix q name assume q: "n \<le> q" "run_names (run_filename q) name"
    have "\<not> run_names (run_filename s) name"
    proof
      assume "run_names (run_filename s) name"
      from run_names_disjoint [OF this q(2)] s q(1) show False by simp
    qed
    then show "fs_lookup d' name = None" using ok q touchesD [OF t] by (simp add: disk_ok_def fresh_def)
  qed
  moreover have "fs_lookup d' MANIFEST = fs_lookup d MANIFEST"
    using touchesD [OF t] run_names_fixed(1) by blast
  ultimately show ?thesis
    using ok touches_inv [OF t] by (simp add: disk_ok_def runs_ok_def manifest_ok_def)
qed

section \<open>The frame of a client operation\<close>

definition client_names :: "u64 \<Rightarrow> string \<Rightarrow> bool" where
  "client_names n name \<longleftrightarrow> name = WAL_FILE \<or> manifest_names name \<or> run_names (run_filename n) name"

text \<open>What a write or a flush may change: its own files, one run in front of the list, the pending flag.\<close>

definition new_front :: "'f engine \<Rightarrow> 'f engine \<Rightarrow> bool" where
  "new_front e e' \<longleftrightarrow> (\<exists>t. runs e' = t # runs e \<and> run_id t = next_run_id e \<and> tbl_path t = run_filename (next_seq e)
      \<and> next_seq e' = next_seq e + 1 \<and> next_run_id e' = next_run_id e + 1)"

definition same_flags :: "'f engine \<Rightarrow> 'f engine \<Rightarrow> bool" where
  "same_flags e e' \<longleftrightarrow> cache e' = cache e \<and> compacting e' = compacting e \<and> last_error e' = last_error e
     \<and> running (compaction e') = running (compaction e) \<and> shutdown (compaction e') = shutdown (compaction e)
     \<and> generation (compaction e') = generation (compaction e)"

definition client_frame :: "'f engine \<Rightarrow> 'f engine \<Rightarrow> bool" where
  "client_frame e e' \<longleftrightarrow> same_flags e e' \<and> touches (client_names (next_seq e)) (disk e) (disk e')
     \<and> (runs e' = runs e \<and> next_seq e' \<in> {next_seq e, next_seq e + 1}
          \<and> next_run_id e' \<in> {next_run_id e, next_run_id e + 1}
        \<or> new_front e e')"

lemma client_names_mono:
  "touches (run_names (run_filename n)) d d' \<Longrightarrow> touches (client_names n) d d'"
  "touches manifest_names d d' \<Longrightarrow> touches (client_names n) d d'"
  "touches (\<lambda>x. x = WAL_FILE) d d' \<Longrightarrow> touches (client_names n) d d'"
  by (auto elim: touches_mono simp: client_names_def)

lemma flush_frame:
  assumes X: "bloom_laws X" and inv: "engine_inv X e" and hr: "headroom e"
    and sz: "sized (entries (mem e))" and wp: "wal_path (dur e) = WAL_FILE" and fl: "flush_locked X e = (r, e')"
  shows "client_frame e e'"
proof -
  let ?n = "next_seq e" and ?i = "next_run_id e" and ?es = "memtable_iter (mem e)"
  have ok: "disk_ok X (disk e) ?n (runs e)" and m: "memtable_inv (mem e)" using inv by (simp_all add: engine_inv_def)
  have es: "asc_keys ?es" "sized ?es" using m sz by (simp_all add: memtable_inv_def memtable_iter_def)
  obtain r1 d1 where fr: "flush_run X (run_filename ?n) ?i ?es (disk e) = (r1, d1)" by fastforce
  have t1: "touches (client_names ?n) (disk e) d1" by (rule client_names_mono(1) [OF flush_run_touches [OF fr]])
  note defs = flush_locked_def Let_def memtable_take_def memtable_iter_def client_frame_def same_flags_def new_front_def
  show ?thesis
  proof (cases r1)
    case (Inl err)
    with fl fr t1 show ?thesis by (auto simp: defs)
  next
    case (Inr t)
    have t: "tbl_path t = run_filename ?n" "run_id t = ?i"
      using flush_run_ok [OF X es fresh_sidecar [OF ok] fr [unfolded Inr]] by simp_all
    obtain r2 d2 where ms: "manifest_store (?n + 1) (map file_name (t # runs e)) d1 = (r2, d2)" by fastforce
    have t2: "touches (client_names ?n) (disk e) d2"
      using t1 client_names_mono(2) [OF act_keepsD [OF manifest_store_keeps ms]] by (rule touches_trans)
    show ?thesis
    proof (cases r2)
      case (Inl err)
      with fl fr \<open>r1 = Inr t\<close> ms t2 show ?thesis by (auto simp: defs)
    next
      case R2: (Inr x)
      obtain r3 du d3 where ro: "rotate_log X (dur e) d2 = (r3, du, d3)" by (metis prod_cases3)
      have t3: "touches (client_names ?n) (disk e) d3"
        using t2 client_names_mono(3) [OF conjunct1 [OF rotate_log_touches [OF wp ro]]] by (rule touches_trans)
      show ?thesis
        using fl fr \<open>r1 = Inr t\<close> ms R2 ro t3 t
        by (cases r3) (auto simp: defs signal_compaction_def split: if_splits)
    qed
  qed
qed

lemma client_frame_refl: "client_frame e e"
  by (simp add: client_frame_def same_flags_def)

lemma client_frame_write:
  assumes "client_frame (e\<lparr>disk := d, mem := m\<rparr>) e'" and "touches (\<lambda>x. x = WAL_FILE) (disk e) d"
  shows "client_frame e e'"
  using assms touches_trans [OF client_names_mono(3) [OF assms(2)]]
  by (auto simp: client_frame_def same_flags_def new_front_def)

lemma write_frame:
  assumes X: "bloom_laws X" and inv: "engine_inv X e" and ad: "admits_ops e ws" and wr: "write_ops X ws e = (r, e')"
  shows "client_frame e e'"
proof -
  have wp: "wal_path (dur e) = WAL_FILE" using ad by (simp add: admits_ops_def)
  obtain r1 d1 where lb: "log_batch X (dur e) ws (disk e) = (r1, d1)" by fastforce
  have t1: "touches (\<lambda>x. x = WAL_FILE) (disk e) d1" by (rule act_keepsD [OF log_batch_keeps [OF wp] lb])
  show ?thesis
  proof (cases r1)
    case (Inl err)
    with wr lb client_names_mono(3) [OF t1] show ?thesis
      by (auto simp: write_ops_def client_frame_def same_flags_def)
  next
    case (Inr x)
    let ?e = "e\<lparr>disk := d1, mem := apply_all ws (mem e)\<rparr>"
    have eq: "maybe_flush X ?e = (r, e')" using wr lb Inr by (simp add: write_ops_def)
    have sz: "sized (entries (mem ?e))" and hr: "headroom ?e" using ad by (simp_all add: admits_ops_def headroom_def)
    have i1: "engine_inv X ?e"
      using inv disk_ok_log [OF _ wp lb] sz apply_all_inv by (simp add: engine_inv_def sized_def)
    have "client_frame ?e e'"
    proof (cases "maybe_flush X ?e = flush_locked X ?e")
      case True
      with eq flush_frame [OF X i1 hr sz] wp show ?thesis by simp
    next
      case False
      with eq client_frame_refl show ?thesis by (auto simp: maybe_flush_def split: if_splits)
    qed
    then show ?thesis by (rule client_frame_write [OF _ t1])
  qed
qed

lemma run_op_frame:
  assumes si: "store_inv X e" and ad: "admits_op X e a" and a: "a \<noteq> CompactOp" and op: "run_op X a e = (r, e')"
  shows "client_frame e e'"
proof -
  have X: "bloom_laws X" and inv: "engine_inv X e" and ao: "admits_ops e (op_records a)"
    using si ad by (simp_all add: store_inv_def admits_op_def)
  consider "run_op X a = write_ops X (op_records a)" | "a = FlushOp" using a
    by (cases a) (simp_all add: writes_are_write_ops)
  then show ?thesis
  proof cases
    case 1
    with op write_frame [OF X inv ao] show ?thesis by simp
  next
    case 2
    with op ao flush_frame [OF X inv, of r e'] client_frame_refl show ?thesis
      by (auto simp: engine_flush_def admits_ops_def split: if_splits)
  qed
qed

end
