(* ===== verification/Concurrency.thy ===== *)
theory Concurrency
  imports Fleet
begin

text \<open>
  The invariant of the running process and its preservation by every step, in any
  interleaving. It states, beside the engine's invariant and that of the handles, what
  the compactor relies on between two of its steps: its inputs are still the oldest runs
  in the list, its output file holds what it has copied so far, nobody uses its name.
\<close>

section \<open>The invariant\<close>

definition merged :: "'f externals \<Rightarrow> 'f sstable list \<Rightarrow> entry list" where
  "merged X inputs = live_entries (fst (merge_items X (merge_new [] (map cursor_new inputs))))"

definition inputs_ok :: "'f externals \<Rightarrow> 'f engine \<Rightarrow> 'f sstable list \<Rightarrow> bool" where
  "inputs_ok X e inputs \<longleftrightarrow> (\<exists>newer. runs e = newer @ inputs) \<and> sized (concat (map (run_entries X) inputs))"

definition reserved :: "'f sys \<Rightarrow> u64 \<Rightarrow> bool" where
  "reserved s seq \<longleftrightarrow> seq < next_seq (eng s) \<and> run_filename seq \<notin> tbl_path ` set (held s)
     \<and> fs_lookup (disk (eng s)) (sidecar_path (run_filename seq)) = None"

definition copied ::
    "'f externals \<Rightarrow> 'f sys \<Rightarrow> 'f sstable list \<Rightarrow> u64 \<Rightarrow> writer \<Rightarrow> 'f option \<Rightarrow> entry list \<Rightarrow> bool" where
  "copied X s inputs seq w fo rest \<longleftrightarrow> inputs_ok X (eng s) inputs \<and> reserved s seq
     \<and> w_path w = run_filename seq @ ''.tmp''
     \<and> (\<exists>bss pend. writing X w (disk (eng s)) bss pend \<and> concat bss @ pend @ rest = merged X inputs
          \<and> covers X fo (fst ` set (concat bss @ pend)))"

fun thread_inv :: "'f externals \<Rightarrow> 'f sys \<Rightarrow> 'f thread \<Rightarrow> bool" where
  "thread_inv X s (Reserving inputs) = inputs_ok X (eng s) inputs"
| "thread_inv X s (Merging inputs seq sources w fo) =
     (copied X s inputs seq w fo (live_entries (fst (merge_items X sources))) \<and> snd (merge_items X sources) = None)"
| "thread_inv X s (Sealing inputs seq w fo) = copied X s inputs seq w fo []"
| "thread_inv X s (Swapping inputs output) =
     (inputs_ok X (eng s) inputs \<and> merges X inputs output \<and> output \<in> set (held s) - set (runs (eng s))
      \<and> run_id output \<notin> set (dead s))"
| "thread_inv X s _ = True"

fun active :: "'f thread \<Rightarrow> bool" where
  "active Waiting = False"
| "active Claiming = False"
| "active (Reporting r) = False"
| "active Exited = False"
| "active _ = True"

definition flags_ok :: "'f sys \<Rightarrow> bool" where
  "flags_ok s \<longleftrightarrow> running (compaction (eng s)) = (thread s \<noteq> Waiting \<and> thread s \<noteq> Exited)
     \<and> compacting (eng s) = active (thread s)
     \<and> (thread s = Exited \<longrightarrow> closed s) \<and> shutdown (compaction (eng s)) = closed s
     \<and> run_id ` set (runs (eng s)) \<inter> set (dead s) = {} \<and> (\<forall>i \<in> set (dead s). i < next_run_id (eng s))"

fun reader_ok :: "'f reader \<Rightarrow> bool" where
  "reader_ok (Getting k hs rest) = (set rest \<subseteq> set hs)"
| "reader_ok (Scanning rng m hs) = asc_keys m"

definition readers_ok :: "'f sys \<Rightarrow> bool" where
  "readers_ok s \<longleftrightarrow> distinct (map fst (readers s)) \<and> (\<forall>r \<in> set (readers s). reader_ok (snd r))"

definition sys_inv :: "'f externals \<Rightarrow> 'f sys \<Rightarrow> bool" where
  "sys_inv X s \<longleftrightarrow> store_inv X (eng s) \<and> fleet_ok X (eng s) (set (held s)) \<and> thread_inv X s (thread s)
     \<and> flags_ok s \<and> readers_ok s"

text \<open>What a step needs of the counters and sizes; the rest is for every step.\<close>

definition admissible :: "'f externals \<Rightarrow> 'f sys \<Rightarrow> action \<Rightarrow> bool" where
  "admissible X s a \<longleftrightarrow> headroom (eng s)
     \<and> (\<forall>a'. a = Client a' \<longrightarrow> admits_op X (eng s) a')
     \<and> (a = Tick \<and> thread s = Snapshotting \<longrightarrow> sized (concat (map (run_entries X) (runs (eng s)))))"

section \<open>Frames\<close>

lemma held_runs: "set (runs (eng s)) \<subseteq> set (held s)"
  by (simp add: held_def)

lemma merged_ok:
  assumes "\<forall>t \<in> set inputs. good_run X t"
  shows "asc_keys (merged X inputs)"
    and "map_of (merged X inputs) k = map_option Value (resolve (map (run_entries X) inputs) k)"
    and "snd (merge_items X (merge_new [] (map cursor_new inputs))) = None"
proof -
  have "asc_keys ([] :: entry list)" by simp
  note rd = merge_new_ready [OF this assms]
  note ok = merge_items_ok [OF rd(1,2)]
  show "asc_keys (merged X inputs)" "snd (merge_items X (merge_new [] (map cursor_new inputs))) = None"
    using ok by (simp_all add: merged_def live_entries_facts)
  show "map_of (merged X inputs) k = map_option Value (resolve (map (run_entries X) inputs) k)"
    by (simp add: merged_def live_entries_facts ok(3) rd(3) resolve_Cons)
qed

text \<open>The compactor's part of the invariant survives a step of somebody else.\<close>

definition spares :: "'f sys \<Rightarrow> (string \<Rightarrow> bool) \<Rightarrow> bool" where
  "spares s P \<longleftrightarrow> (\<forall>q name. q < next_seq (eng s) \<longrightarrow> run_filename q \<notin> tbl_path ` set (held s)
     \<longrightarrow> run_names (run_filename q) name \<longrightarrow> \<not> P name)"

lemma copied_frame:
  assumes c: "copied X s inputs seq w fo rest" and r: "runs (eng s') = pre @ runs (eng s)"
    and t: "touches P (disk (eng s)) (disk (eng s'))" "spares s P" and n: "next_seq (eng s) \<le> next_seq (eng s')"
    and h: "run_filename seq \<notin> tbl_path ` set (held s')"
  shows "copied X s' inputs seq w fo rest"
proof -
  have rs: "reserved s seq" and wp: "w_path w = run_filename seq @ ''.tmp''" using c by (simp_all add: copied_def)
  have "\<not> P name" if "run_names (run_filename seq) name" for name
    using t(2) rs that unfolding spares_def reserved_def by blast
  then have l: "fs_lookup (disk (eng s')) (w_path w) = fs_lookup (disk (eng s)) (w_path w)"
    "fs_lookup (disk (eng s')) (sidecar_path (run_filename seq)) = fs_lookup (disk (eng s)) (sidecar_path (run_filename seq))"
    using touchesD [OF t(1)] sidecar_run_names wp by auto
  have "writing X w (disk (eng s')) bss pend" if "writing X w (disk (eng s)) bss pend" for bss pend
    using that l(1) by (simp add: writing_def)
  moreover have "reserved s' seq" using rs n h l(2) by (auto simp: reserved_def intro: order.strict_trans2)
  moreover have "inputs_ok X (eng s') inputs" using c r by (auto simp: copied_def inputs_ok_def)
  ultimately show ?thesis using c unfolding copied_def by blast
qed

lemma thread_inv_frame:
  assumes i: "thread_inv X s th" and r: "runs (eng s') = pre @ runs (eng s)" "set pre \<inter> set (held s) = {}"
    and t: "touches P (disk (eng s)) (disk (eng s'))" "spares s P" and n: "next_seq (eng s) \<le> next_seq (eng s')"
    and h: "\<And>q. q < next_seq (eng s) \<Longrightarrow> run_filename q \<notin> tbl_path ` set (held s) \<Longrightarrow> run_filename q \<notin> tbl_path ` set (held s')"
    and k: "set (thread_handles th) \<subseteq> set (held s')" and d: "dead s' = dead s"
  shows "thread_inv X s' th"
proof -
  have c: "copied X s' inputs seq w fo rest" if "copied X s inputs seq w fo rest" for inputs seq w fo rest
    using that copied_frame [OF that r(1) t n] h by (simp add: copied_def reserved_def)
  show ?thesis
  proof (cases th)
    case (Merging inputs seq sources w fo)
    with i c [of inputs seq w fo] show ?thesis by simp
  next
    case (Sealing inputs seq w fo)
    with i c [of inputs seq w fo "[]"] show ?thesis by simp
  next
    case (Swapping inputs out)
    have "out \<notin> set pre" using Swapping i r(2) by auto
    with Swapping i r k d show ?thesis by (auto simp: inputs_ok_def)
  qed (use i r in \<open>auto simp: inputs_ok_def\<close>)
qed

section \<open>Releasing handles\<close>

lemma fold_drop_touches:
  assumes "\<And>t n. t \<in> set ts \<Longrightarrow> n = tbl_path t \<or> n = sidecar_path (tbl_path t) \<Longrightarrow> P n"
  shows "touches P d (fold (\<lambda>t d. sstable_drop (mark_obsolete t) d) ts d)"
  using assms
proof (induction ts arbitrary: d)
  case (Cons t ts)
  have "touches P d (sstable_drop (mark_obsolete t) d)"
    using sstable_drop_touches [of "mark_obsolete t" d]
    by (rule touches_mono) (use Cons.prems [of t] in \<open>simp add: mark_obsolete_def\<close>)
  moreover have "touches P (sstable_drop (mark_obsolete t) d)
      (fold (\<lambda>t d. sstable_drop (mark_obsolete t) d) ts (sstable_drop (mark_obsolete t) d))"
    by (rule Cons.IH, rule Cons.prems) simp_all
  ultimately show ?case unfolding fold_simps by (rule touches_trans)
qed simp

lemma drop_inputs_touches:
  "touches (\<lambda>n. \<exists>t \<in> set ts. n = tbl_path t \<or> n = sidecar_path (tbl_path t)) (disk e) (disk (drop_inputs ts e))"
proof -
  have "touches (\<lambda>n. \<exists>t \<in> set ts. n = tbl_path t \<or> n = sidecar_path (tbl_path t)) (disk e)
      (fold (\<lambda>t d. sstable_drop (mark_obsolete t) d) ts (disk e))"
    by (rule fold_drop_touches) (rule bexI)
  then show ?thesis by (simp add: drop_inputs_def)
qed

lemma drop_inputs_fields:
  "runs (drop_inputs ts e) = runs e" "mem (drop_inputs ts e) = mem e" "next_seq (drop_inputs ts e) = next_seq e"
  "next_run_id (drop_inputs ts e) = next_run_id e" "cache (drop_inputs ts e) = cache e"
  "compaction (drop_inputs ts e) = compaction e" "compacting (drop_inputs ts e) = compacting e"
  "dur (drop_inputs ts e) = dur e" "view X (drop_inputs ts e) = view X e"
  by (simp_all add: drop_inputs_def view_def)

definition gone :: "'f sstable list \<Rightarrow> 'f sys \<Rightarrow> 'f sstable list" where
  "gone hs s = filter (\<lambda>t. run_id t \<in> set (dead s) \<and> run_id t \<notin> run_id ` set (held s)) hs"

lemma release_eng: "eng (release hs s) = drop_inputs (gone hs s) (eng s)"
  and release_fields: "thread (release hs s) = thread s" "readers (release hs s) = readers s"
    "dead (release hs s) = dead s" "closed (release hs s) = closed s" "held (release hs s) = held s"
  by (simp_all add: release_def gone_def held_def drop_inputs_fields)

text \<open>
  \<^verbatim>\<open>s0\<close> is the state before the handles were given up, \<^verbatim>\<open>s\<close> the state after, still with
  all files in place.
\<close>

lemma gone_apart:
  assumes f: "fleet_ok X e H" and h: "set hs \<subseteq> H" "set (held s) \<subseteq> H" and t: "t \<in> set (gone hs s)" and u: "u \<in> set (held s)"
  shows "tbl_path u \<noteq> tbl_path t"
proof
  assume "tbl_path u = tbl_path t"
  moreover have "t \<in> H" "u \<in> H" "run_id t \<notin> run_id ` set (held s)" using h t u by (auto simp: gone_def)
  ultimately show False using f u unfolding fleet_ok_def by (auto dest: inj_onD)
qed

lemma release_ok:
  assumes si: "store_inv X (eng s)" and f: "fleet_ok X (eng s) H" and h: "set hs \<subseteq> H" "set (held s) \<subseteq> H"
  shows "store_inv X (eng (release hs s))" "fleet_ok X (eng (release hs s)) (set (held s))"
    "view X (eng (release hs s)) = view X (eng s)"
proof -
  let ?ts = "gone hs s"
  note apart = gone_apart [OF f h]
  have paths: "\<exists>q. tbl_path t = run_filename q" if "t \<in> H" for t using f that unfolding fleet_ok_def by blast
  have "\<forall>t \<in> set ?ts. (\<exists>q. tbl_path t = run_filename q) \<and> (\<forall>u \<in> set (runs (eng s)). tbl_path u \<noteq> tbl_path t)"
    using apart held_runs paths h(1) by (auto simp: gone_def)
  from drop_inputs_ok [OF _ this, of X "disk (eng s)" "next_seq (eng s)"] si
  have "disk_ok X (disk (drop_inputs ?ts (eng s))) (next_seq (eng s)) (runs (eng s))"
    by (simp add: store_inv_def engine_inv_def drop_inputs_def)
  then show "store_inv X (eng (release hs s))"
    using si by (simp add: release_eng store_inv_def engine_inv_def drop_inputs_fields)
  have "fleet_ok X (eng s) (set (held s))" by (rule fleet_subset [OF f h(2)])
  then show "fleet_ok X (eng (release hs s)) (set (held s))"
    unfolding release_eng
  proof (rule fleet_frame [OF _ drop_inputs_touches])
    fix u q name assume u: "u \<in> set (held s)" and q: "tbl_path u = run_filename q" "run_names (run_filename q) name"
    show "\<not> (\<exists>t \<in> set ?ts. name = tbl_path t \<or> name = sidecar_path (tbl_path t))"
    proof
      assume "\<exists>t \<in> set ?ts. name = tbl_path t \<or> name = sidecar_path (tbl_path t)"
      then obtain t where t1: "t \<in> set ?ts" and nm: "name = tbl_path t \<or> name = sidecar_path (tbl_path t)" by blast
      have "t \<in> H" using t1 h(1) by (auto simp: gone_def)
      with paths obtain q' where q': "tbl_path t = run_filename q'" by blast
      have t: "t \<in> set ?ts" "tbl_path t = run_filename q'" "run_names (run_filename q') name"
        using t1 q' nm sidecar_run_names by auto
      from run_names_disjoint [OF t(3) q(2)] t q apart [OF t(1) u] show False by simp
    qed
  qed (simp_all add: drop_inputs_fields)
  show "view X (eng (release hs s)) = view X (eng s)" by (simp add: release_eng drop_inputs_fields)
qed

text \<open>Giving up handles spares the file the compactor writes.\<close>

lemma release_touches:
  assumes f: "fleet_ok X e H" and h: "set hs \<subseteq> H" "H \<subseteq> set (held s0)"
  shows "\<exists>P. touches P (disk (eng s)) (disk (eng (release hs s))) \<and> spares s0 P"
proof (intro exI conjI)
  let ?P = "\<lambda>n. \<exists>t \<in> set (gone hs s). n = tbl_path t \<or> n = sidecar_path (tbl_path t)"
  show "touches ?P (disk (eng s)) (disk (eng (release hs s)))" unfolding release_eng by (rule drop_inputs_touches)
  show "spares s0 ?P"
    unfolding spares_def
  proof (intro allI impI notI)
    fix q name assume q: "run_filename q \<notin> tbl_path ` set (held s0)" "run_names (run_filename q) name"
      and "?P name"
    then obtain t where t: "t \<in> H" "name = tbl_path t \<or> name = sidecar_path (tbl_path t)"
      using h(1) by (auto simp: gone_def)
    from f t(1) obtain q' where q': "tbl_path t = run_filename q'" unfolding fleet_ok_def by blast
    have "run_names (run_filename q') name" using t(2) q' sidecar_run_names by auto
    from run_names_disjoint [OF this q(2)] have "tbl_path t = run_filename q" using q' by simp
    with t(1) h(2) q(1) show False by (metis image_eqI subsetD)
  qed
qed

section \<open>Readers keep the invariant\<close>

text \<open>Steps that touch no file, no run and no name.\<close>

lemma thread_inv_still:
  assumes "thread_inv X s th" and "runs (eng s') = runs (eng s)" "disk (eng s') = disk (eng s)"
    and "next_seq (eng s') = next_seq (eng s)" "set (held s') \<subseteq> set (held s)" "dead s' = dead s"
    and "set (thread_handles th) \<subseteq> set (held s')"
  shows "thread_inv X s' th"
proof (rule thread_inv_frame [OF assms(1), where pre = "[]" and P = "\<lambda>n. False"])
  fix q assume "run_filename q \<notin> tbl_path ` set (held s)"
  with assms(5) show "run_filename q \<notin> tbl_path ` set (held s')" by auto
qed (use assms in \<open>simp_all add: spares_def\<close>)

lemma thread_held: "set (thread_handles (thread s)) \<subseteq> set (held s)"
  by (auto simp: held_def)

lemma release_thread_inv:
  assumes i: "thread_inv X s0 th" and e: "eng s = eng s0" "dead s = dead s0"
    and f: "fleet_ok X (eng s0) (set (held s0))" and h: "set hs \<subseteq> set (held s0)" "set (held s) \<subseteq> set (held s0)"
    and k: "set (thread_handles th) \<subseteq> set (held s)"
  shows "thread_inv X (release hs s) th"
proof -
  obtain P where P: "touches P (disk (eng s)) (disk (eng (release hs s)))" "spares s0 P"
    using release_touches [OF f h(1) order_refl, of s] by blast
  show ?thesis
  proof (rule thread_inv_frame [OF i, where pre = "[]" and P = P])
    fix q assume "run_filename q \<notin> tbl_path ` set (held s0)"
    with h(2) show "run_filename q \<notin> tbl_path ` set (held (release hs s))" by (auto simp: release_fields)
  qed (use P e k in \<open>simp_all add: release_eng release_fields drop_inputs_fields\<close>)
qed

lemma readers_remove:
  assumes "readers_ok s"
  shows "readers_ok (s\<lparr>readers := filter (\<lambda>r. fst r \<noteq> i) (readers s)\<rparr>)"
    "set (held (s\<lparr>readers := filter (\<lambda>r. fst r \<noteq> i) (readers s)\<rparr>)) \<subseteq> set (held s)"
  using assms by (auto simp: readers_ok_def held_def distinct_map_filter)

lemma reader_held: "map_of (readers s) i = Some r \<Longrightarrow> set (reader_handles r) \<subseteq> set (held s)"
  by (force simp: held_def dest: map_of_SomeD)

lemma end_read_ok:
  assumes inv: "sys_inv X s" and r: "map_of (readers s) i = Some r" and hs: "hs = reader_handles r"
  shows "sys_inv X (end_read i hs s)" "view X (eng (end_read i hs s)) = view X (eng s)"
proof -
  let ?s = "s\<lparr>readers := filter (\<lambda>r. fst r \<noteq> i) (readers s)\<rparr>"
  have si: "store_inv X (eng ?s)" and f: "fleet_ok X (eng ?s) (set (held s))" and ti: "thread_inv X s (thread s)"
    and fo: "flags_ok s" and ro: "readers_ok s" using inv by (simp_all add: sys_inv_def)
  note rm = readers_remove [OF ro, of i]
  have hh: "set hs \<subseteq> set (held s)" using reader_held [OF r] hs by simp
  note rel = release_ok [OF si f hh rm(2)]
  have "thread_inv X (release hs ?s) (thread s)"
    using ti by (rule release_thread_inv) (use f hh rm(2) thread_held [of ?s] in simp_all)
  then show "sys_inv X (end_read i hs s)"
    using rel(1,2) rm(1) fo
    by (simp add: sys_inv_def end_read_def release_fields flags_ok_def readers_ok_def release_eng drop_inputs_fields)
  show "view X (eng (end_read i hs s)) = view X (eng s)" using rel(3) by (simp add: end_read_def)
qed

lemma lookup_step_ok:
  assumes inv: "sys_inv X s" and t: "t \<in> set (held s)" and l: "sstable_lookup X t k (cache (eng s)) = (r, c)"
  shows "sys_inv X (s\<lparr>eng := (eng s)\<lparr>cache := c\<rparr>\<rparr>)" "view X ((eng s)\<lparr>cache := c\<rparr>) = view X (eng s)"
    "r = Inr (map_of (run_entries X t) k)"
proof -
  let ?s = "s\<lparr>eng := (eng s)\<lparr>cache := c\<rparr>\<rparr>"
  have si: "store_inv X (eng s)" and f: "fleet_ok X (eng s) (set (held s))" and ti: "thread_inv X s (thread s)"
    using inv by (simp_all add: sys_inv_def)
  have cc: "cache_coherent X (set (held s)) (next_run_id (eng s)) (cache (eng s))" using f by (simp add: fleet_ok_def)
  have lg: "fst (sstable_lookup X t k (cache (eng s))) = Inr (map_of (run_entries X t) k)
     \<and> cache_coherent X (set (held s)) (next_run_id (eng s)) (snd (sstable_lookup X t k (cache (eng s))))"
    by (rule lookup_good [OF fleet_good [OF f t] cc t fleet_ids [OF f]])
  then show "r = Inr (map_of (run_entries X t) k)" by (simp add: l)
  have c: "cache_coherent X (set (held s)) (next_run_id (eng s)) c" using lg by (simp add: l)
  have held: "held ?s = held s" by (simp add: held_def)
  have "fleet_ok X (eng ?s) (set (held ?s))" using f c held by (simp add: fleet_ok_def)
  moreover have "store_inv X (eng ?s)"
    using si cache_coherent_subset [OF c held_runs] by (simp add: store_inv_def engine_inv_def handles_ok_def)
  moreover have "thread_inv X ?s (thread s)"
    by (rule thread_inv_still [OF ti]) (use thread_held [of s] in \<open>simp_all add: held\<close>)
  ultimately show "sys_inv X ?s" using inv by (simp add: sys_inv_def flags_ok_def readers_ok_def)
  show "view X ((eng s)\<lparr>cache := c\<rparr>) = view X (eng s)" by (simp add: view_def)
qed

lemma keep_reading_ok:
  assumes inv: "sys_inv X s" and r: "map_of (readers s) i = Some (Getting k hs (t # rest))"
  shows "sys_inv X (keep_reading i (Getting k hs rest) s)"
proof -
  let ?s = "keep_reading i (Getting k hs rest) s"
  have ro: "readers_ok s" using inv by (simp add: sys_inv_def)
  have ri: "(i, Getting k hs (t # rest)) \<in> set (readers s)" using r by (rule map_of_SomeD)
  have uniq: "x = (i, Getting k hs (t # rest))" if "x \<in> set (readers s)" "fst x = i" for x
  proof -
    have "inj_on fst (set (readers s))" using ro by (simp add: readers_ok_def distinct_map)
    from inj_onD [OF this _ that(1) ri] that(2) show ?thesis by simp
  qed
  have same: "map (\<lambda>r. reader_handles (snd r)) (readers ?s) = map (\<lambda>r. reader_handles (snd r)) (readers s)"
    using uniq by (force simp: keep_reading_def)
  have held: "held ?s = held s" unfolding held_def same by (simp add: keep_reading_def)
  have "map fst (readers ?s) = map fst (readers s)" by (simp add: keep_reading_def comp_def)
  moreover have "reader_ok (Getting k hs rest)"
    using bspec [OF conjunct2 [OF ro [unfolded readers_ok_def]] ri] by simp
  moreover have "reader_ok (snd r)" if "r \<in> set (readers ?s)" for r
    using that ro \<open>reader_ok (Getting k hs rest)\<close> by (auto simp: readers_ok_def keep_reading_def)
  ultimately have "readers_ok ?s" using ro unfolding readers_ok_def by metis
  moreover have "thread_inv X ?s (thread s)"
    by (rule thread_inv_still)
      (use inv thread_held [of s] in \<open>simp_all add: held [unfolded keep_reading_def] sys_inv_def keep_reading_def\<close>)
  ultimately show ?thesis
    using inv by (simp add: held [unfolded keep_reading_def] sys_inv_def flags_ok_def keep_reading_def)
qed

lemma add_reader_ok:
  assumes inv: "sys_inv X s" and i: "map_of (readers s) i = None" and r: "reader_ok r" "reader_handles r = runs (eng s)"
  shows "sys_inv X (s\<lparr>readers := (i, r) # readers s\<rparr>)"
proof -
  let ?s = "s\<lparr>readers := (i, r) # readers s\<rparr>"
  have held: "set (held ?s) = set (held s)" using r(2) by (auto simp: held_def)
  have "readers_ok ?s" using inv i r(1) by (simp add: sys_inv_def readers_ok_def map_of_eq_None_iff)
  moreover have "thread_inv X ?s (thread s)"
    by (rule thread_inv_still) (use inv thread_held [of s] in \<open>simp_all add: held sys_inv_def\<close>)
  ultimately show ?thesis using inv held by (simp add: sys_inv_def flags_ok_def)
qed

text \<open>One step of a lookup: it keeps the invariant and leaves the contents alone.\<close>

lemma get_step_ok:
  assumes inv: "sys_inv X s" and r: "map_of (readers s) i = Some (Getting k hs rest)"
    and st: "get_step X i k hs rest s = (ev, s')"
  shows "sys_inv X s' \<and> view X (eng s') = view X (eng s)"
proof (cases rest)
  case Nil
  with st end_read_ok [OF inv r, of hs] show ?thesis by (auto simp: get_step_def)
next
  case (Cons t ts)
  have "reader_ok (snd (i, Getting k hs rest))"
    using inv map_of_SomeD [OF r] unfolding sys_inv_def readers_ok_def by blast
  then have "set rest \<subseteq> set hs" by simp
  then have t: "t \<in> set (held s)" using reader_held [OF r] Cons by auto
  show ?thesis
  proof (cases "might_contain X t k")
    case False
    with st Cons keep_reading_ok [OF inv, of i k hs t ts] r show ?thesis by (auto simp: get_step_def keep_reading_def)
  next
    case True
    obtain res c where l: "sstable_lookup X t k (cache (eng s)) = (res, c)" by fastforce
    let ?s = "s\<lparr>eng := (eng s)\<lparr>cache := c\<rparr>\<rparr>"
    note lk = lookup_step_ok [OF inv t l]
    have r': "map_of (readers ?s) i = Some (Getting k hs (t # ts))" using r Cons by simp
    have "s' = end_read i hs ?s \<or> s' = keep_reading i (Getting k hs ts) ?s"
      using st Cons True l by (auto simp: get_step_def Let_def split: sum.splits option.splits record_v.splits)
    with end_read_ok [OF lk(1) r'] keep_reading_ok [OF lk(1) r'] lk(2) show ?thesis
      by (auto simp: keep_reading_def)
  qed
qed

lemma begin_get_ok:
  assumes inv: "sys_inv X s" and i: "map_of (readers s) i = None" and b: "begin_get i k s = (ev, s')"
  shows "sys_inv X s' \<and> view X (eng s') = view X (eng s)"
  using b add_reader_ok [OF inv i, of "Getting k (runs (eng s)) (runs (eng s))"] inv
  by (auto simp: begin_get_def split: option.splits record_v.splits)

lemma begin_scan_ok:
  assumes inv: "sys_inv X s" and i: "map_of (readers s) i = None"
  shows "sys_inv X (begin_scan i rng s) \<and> view X (eng (begin_scan i rng s)) = view X (eng s)"
proof -
  have "asc_keys (memtable_iter (mem (eng s)))"
    using inv by (simp add: sys_inv_def store_inv_def engine_inv_def memtable_inv_def memtable_iter_def)
  then have "asc_keys (filter (\<lambda>e. position rng (fst e) = In) (memtable_iter (mem (eng s))))" by (rule asc_keys_filter)
  with add_reader_ok [OF inv i] show ?thesis by (simp add: begin_scan_def Let_def)
qed

text \<open>The last handle on an obsolete run takes the run's files with it.\<close>

lemma fold_drop_removes:
  "t \<in> set ts \<Longrightarrow> fault_free d \<Longrightarrow> fs_lookup (fold (\<lambda>t d. sstable_drop (mark_obsolete t) d) ts d) (tbl_path t) = None"
proof (induction ts arbitrary: d)
  case (Cons u ts)
  let ?d = "sstable_drop (mark_obsolete u) d"
  have ff: "fault_free ?d" using Cons.prems(2) fault_free_touches [OF sstable_drop_touches] by blast
  have gone: "fs_lookup (fold (\<lambda>t d. sstable_drop (mark_obsolete t) d) ts d') n = None" if "fs_lookup d' n = None" for d' n
    using that by (induction ts arbitrary: d') (simp_all add: sstable_drop_removes)
  show ?case
  proof (cases "t = u")
    case True
    have "fs_lookup ?d (tbl_path u) = None"
      using Cons.prems(2) by (simp add: sstable_drop_def mark_obsolete_def fs_remove_file_def fault_free_def split: option.splits)
    with True gone show ?thesis by simp
  next
    case False
    with Cons.IH [OF _ ff] Cons.prems(1) show ?thesis by simp
  qed
qed simp

lemma release_removes:
  assumes "t \<in> set hs" and "run_id t \<in> set (dead s)" and "run_id t \<notin> run_id ` set (held s)" and "fault_free (disk (eng s))"
  shows "fs_lookup (disk (eng (release hs s))) (tbl_path t) = None"
  using assms fold_drop_removes [of t "gone hs s" "disk (eng s)"]
  by (simp add: release_eng drop_inputs_def gone_def)

end
