(* ===== verification/Interleaving.thy ===== *)
theory Interleaving
  imports Concurrency
begin

text \<open>
  Writers and the compactor keep the invariant of the process, whatever the other threads
  have done in between; hence it holds in every reachable state, and the contents change
  by the client's writes alone.
\<close>

section \<open>Clients\<close>

lemma client_names_apart:
  assumes "q < n" and "run_names (run_filename q) name"
  shows "\<not> client_names n name"
proof
  assume "client_names n name"
  then have "run_names (run_filename n) name" using assms(2) run_names_fixed unfolding client_names_def by blast
  from run_names_disjoint [OF this assms(2)] assms(1) show False by simp
qed

lemma client_spares: "spares s (client_names (next_seq (eng s)))"
  using client_names_apart unfolding spares_def by blast

text \<open>
  A client may put one run in front of the list, under the next name and id; every handle
  on another run stays as it was.
\<close>

lemma held_names:
  assumes "fleet_ok X (eng s) (set (held s))" and "u \<in> set (held s)"
  shows "run_id u < next_run_id (eng s)" "\<exists>q < next_seq (eng s). tbl_path u = run_filename q"
  using assms unfolding fleet_ok_def by blast+

lemma next_name_free:
  assumes "fleet_ok X (eng s) (set (held s))"
  shows "run_filename (next_seq (eng s)) \<notin> tbl_path ` set (held s)"
proof
  assume "run_filename (next_seq (eng s)) \<in> tbl_path ` set (held s)"
  then obtain u where "u \<in> set (held s)" "tbl_path u = run_filename (next_seq (eng s))" by auto
  with held_names(2) [OF assms] show False by (metis less_irrefl run_filename_inj)
qed

lemma client_counters:
  assumes "client_frame e e'" and "headroom e"
  shows "next_seq e \<le> next_seq e'" "next_run_id e \<le> next_run_id e'"
proof -
  have "next_seq e \<le> next_seq e + 1" "next_run_id e \<le> next_run_id e + 1"
    using assms(2) less_succ_u64 by (simp_all add: headroom_def order.strict_implies_order)
  then show "next_seq e \<le> next_seq e'" "next_run_id e \<le> next_run_id e'"
    using assms(1) by (auto simp: client_frame_def new_front_def)
qed

lemma client_front:
  assumes "client_frame (eng s) e'"
  obtains "runs e' = runs (eng s)" "held (s\<lparr>eng := e'\<rparr>) = held s"
  | u where "next_seq e' = next_seq (eng s) + 1" "next_run_id e' = next_run_id (eng s) + 1" "runs e' = u # runs (eng s)" "held (s\<lparr>eng := e'\<rparr>) = u # held s"
      "run_id u = next_run_id (eng s)" "tbl_path u = run_filename (next_seq (eng s))"
  using assms that by (auto simp: client_frame_def new_front_def held_def)

lemma client_fleet_held:
  assumes f: "fleet_ok X (eng s) (set (held s))" and fr: "client_frame (eng s) e'" and hr: "headroom (eng s)"
  shows "fleet_ok X e' (set (held s))"
proof (rule fleet_frame [OF f _ _ client_counters [OF fr hr]])
  show "touches (client_names (next_seq (eng s))) (disk (eng s)) (disk e')" "cache e' = cache (eng s)"
    using fr by (simp_all add: client_frame_def same_flags_def)
  fix u q name assume u: "u \<in> set (held s)" "tbl_path u = run_filename q" "run_names (run_filename q) name"
  from held_names(2) [OF f u(1)] u(2) have "q < next_seq (eng s)" by (auto simp: run_filename_inj)
  then show "\<not> client_names (next_seq (eng s)) name" using u(3) by (rule client_names_apart)
qed

lemma client_fleet:
  assumes f: "fleet_ok X (eng s) (set (held s))" and fr: "client_frame (eng s) e'" and hr: "headroom (eng s)"
    and si: "store_inv X e'"
  shows "fleet_ok X e' (set (held (s\<lparr>eng := e'\<rparr>)))"
  using fr
proof (cases rule: client_front)
  case 1
  with client_fleet_held [OF f fr hr] show ?thesis by simp
next
  case (2 u)
  let ?old = "e'\<lparr>next_run_id := next_run_id (eng s)\<rparr>"
  have f0: "fleet_ok X ?old (set (held s))"
    using f client_fleet_held [OF f fr hr] fr unfolding fleet_ok_def client_frame_def same_flags_def by auto
  have c: "committed X (disk ?old) u"
    using si 2(3) by (simp add: store_inv_def engine_inv_def disk_ok_def runs_ok_def)
  have up: "next_seq (eng s) < next_seq (eng s) + 1" "next_run_id (eng s) + 1 \<noteq> 0"
    using hr less_succ_u64 [of "next_seq (eng s)"] by (simp_all add: headroom_def)
  have "fleet_ok X e' (insert u (set (held s)))"
    using f0 c 2(6) by (rule fleet_insert) (use up next_name_free [OF f] 2(1,2,5) in simp_all)
  with 2(4) show ?thesis by simp
qed

lemma client_thread:
  assumes inv: "sys_inv X s" and fr: "client_frame (eng s) e'" and hr: "headroom (eng s)"
  shows "thread_inv X (s\<lparr>eng := e'\<rparr>) (thread s)"
proof -
  let ?s = "s\<lparr>eng := e'\<rparr>"
  have f: "fleet_ok X (eng s) (set (held s))" and ti: "thread_inv X s (thread s)" using inv by (simp_all add: sys_inv_def)
  obtain pre where pre: "runs e' = pre @ runs (eng s)" "held ?s = pre @ held s"
    "\<forall>u \<in> set pre. run_id u = next_run_id (eng s) \<and> tbl_path u = run_filename (next_seq (eng s))"
    using fr by (cases rule: client_front) (auto intro: that [of "[]"] that [of "[_]"])
  have "u \<notin> set (held s)" if "u \<in> set pre" for u
    using held_names(1) [OF f, of u] pre(3) that by auto
  then have dj: "set pre \<inter> set (held s) = {}" by blast
  show ?thesis
  proof (rule thread_inv_frame [OF ti _ dj])
    show "touches (client_names (next_seq (eng s))) (disk (eng s)) (disk (eng ?s))" using fr by (simp add: client_frame_def)
    show "spares s (client_names (next_seq (eng s)))" by (rule client_spares)
    fix q assume "q < next_seq (eng s)" "run_filename q \<notin> tbl_path ` set (held s)"
    then show "run_filename q \<notin> tbl_path ` set (held ?s)" using pre(2,3) by (auto simp: run_filename_inj)
  qed (use pre client_counters [OF fr hr] thread_held [of s] in auto)
qed

lemma client_flags:
  assumes fo: "flags_ok s" and fr: "client_frame (eng s) e'" and hr: "headroom (eng s)"
  shows "flags_ok (s\<lparr>eng := e'\<rparr>)"
  using fr
  by (cases rule: client_front)
    (use fo fr client_counters [OF fr hr] in
      \<open>auto simp: flags_ok_def client_frame_def same_flags_def intro: order.strict_trans2\<close>)

lemma client_ok:
  assumes inv: "sys_inv X s" and ad: "admits_op X (eng s) a" and hr: "headroom (eng s)" and a: "a \<noteq> CompactOp"
    and op: "run_op X a (eng s) = (r, e')"
  shows "sys_inv X (s\<lparr>eng := e'\<rparr>)" and "r = Inr () \<Longrightarrow> view X e' = op_effect a (view X (eng s))"
proof -
  have si: "store_inv X (eng s)" and f: "fleet_ok X (eng s) (set (held s))" and ok: "flags_ok s" "readers_ok s"
    using inv by (simp_all add: sys_inv_def)
  have si': "store_inv X e'" using run_op_correct [OF si ad] op by simp
  have fr: "client_frame (eng s) e'" by (rule run_op_frame [OF si ad a op])
  show "sys_inv X (s\<lparr>eng := e'\<rparr>)"
    using si' client_fleet [OF f fr hr si'] client_thread [OF inv fr hr] client_flags [OF ok(1) fr hr] ok(2)
    by (simp add: sys_inv_def readers_ok_def)
  show "view X e' = op_effect a (view X (eng s))" if "r = Inr ()"
    using run_op_correct [OF si ad] op that by simp
qed

section \<open>The compactor\<close>

definition kept :: "'f externals \<Rightarrow> 'f sys \<Rightarrow> 'f sys \<Rightarrow> bool" where
  "kept X s s' \<longleftrightarrow> sys_inv X s' \<and> view X (eng s') = view X (eng s)"

text \<open>The part of the invariant that names the thread's own state only through the flags.\<close>

definition base_inv :: "'f externals \<Rightarrow> 'f sys \<Rightarrow> bool" where
  "base_inv X s \<longleftrightarrow> store_inv X (eng s) \<and> fleet_ok X (eng s) (set (held s)) \<and> readers_ok s
     \<and> shutdown (compaction (eng s)) = closed s
     \<and> run_id ` set (runs (eng s)) \<inter> set (dead s) = {} \<and> (\<forall>i \<in> set (dead s). i < next_run_id (eng s))"

lemma sys_inv_base: "sys_inv X s \<Longrightarrow> base_inv X s"
  by (simp add: sys_inv_def base_inv_def flags_ok_def)

lemma base_inv_sys:
  assumes "base_inv X s" and "thread_inv X s (thread s)" and "compacting (eng s) = active (thread s)"
    and "running (compaction (eng s)) = (thread s \<noteq> Waiting \<and> thread s \<noteq> Exited)" and "thread s = Exited \<Longrightarrow> closed s"
  shows "sys_inv X s"
  using assms by (simp add: sys_inv_def base_inv_def flags_ok_def)

text \<open>What every step of a round starts from.\<close>

lemma working:
  assumes "sys_inv X s" and "active (thread s)"
  shows "base_inv X s" "compacting (eng s)" "running (compaction (eng s))"
    "set (thread_handles (thread s)) \<subseteq> set (held s)"
    "store_inv X (eng s)" "bloom_laws X" "fleet_ok X (eng s) (set (held s))"
  using assms sys_inv_base [OF assms(1)] thread_held [of s]
  by (cases "thread s"; simp add: sys_inv_def flags_ok_def store_inv_def)+

lemma leave_ok:
  assumes b: "base_inv X s" and c: "compacting (eng s)" "running (compaction (eng s))" and h: "set hs \<subseteq> set (held s)"
  shows "kept X s (leave hs r s)"
proof -
  let ?s = "s\<lparr>thread := Releasing r\<rparr>"
  have si: "store_inv X (eng ?s)" and f: "fleet_ok X (eng ?s) (set (held s))" using b by (simp_all add: base_inv_def)
  have hh: "set (held ?s) \<subseteq> set (held s)" by (auto simp: held_def)
  note rel = release_ok [OF si f h hh]
  have "base_inv X (leave hs r s)"
    using rel(1,2) b by (simp add: base_inv_def leave_def release_fields readers_ok_def release_eng drop_inputs_fields)
  then have "sys_inv X (leave hs r s)"
    by (rule base_inv_sys) (use c in \<open>simp_all add: leave_def release_fields release_eng drop_inputs_fields\<close>)
  with rel(3) show ?thesis by (simp add: kept_def leave_def)
qed

text \<open>The thread writes to files of the name it has reserved.\<close>

lemma own_file_step:
  assumes b: "base_inv X s" and t: "touches (run_names (run_filename seq)) (disk (eng s)) d" and r: "reserved s seq"
  shows "base_inv X (s\<lparr>eng := (eng s)\<lparr>disk := d\<rparr>\<rparr>)" "view X ((eng s)\<lparr>disk := d\<rparr>) = view X (eng s)"
proof -
  let ?s = "s\<lparr>eng := (eng s)\<lparr>disk := d\<rparr>\<rparr>"
  have si: "store_inv X (eng s)" and f: "fleet_ok X (eng s) (set (held s))" using b by (simp_all add: base_inv_def)
  have seq: "seq < next_seq (eng s)" "run_filename seq \<notin> tbl_path ` set (held s)" using r by (simp_all add: reserved_def)
  have "\<forall>u \<in> set (runs (eng s)). tbl_path u \<noteq> run_filename seq" using seq(2) held_runs [of s] by force
  from disk_ok_unlisted [OF _ t seq(1) this, of X] si have "store_inv X (eng ?s)"
    by (simp add: store_inv_def engine_inv_def)
  moreover have "fleet_ok X (eng ?s) (set (held s))"
    using f by (rule fleet_own_name [OF _ _ seq(2)]) (use t in simp_all)
  moreover have "held ?s = held s" by (simp add: held_def)
  ultimately show "base_inv X ?s" using b by (simp add: base_inv_def readers_ok_def)
  show "view X ((eng s)\<lparr>disk := d\<rparr>) = view X (eng s)" by (simp add: view_def)
qed

lemma writer_touches:
  assumes "touches (only p) d d'" and "p = run_filename seq @ ''.tmp''"
  shows "touches (run_names (run_filename seq)) d d'"
  using assms by (auto elim!: touches_mono simp: sidecar_run_names)

lemma store_inv_disk: "store_inv X e \<Longrightarrow> disk_ok X (disk e) (next_seq e) (runs e)"
  by (simp add: store_inv_def engine_inv_def)

text \<open>Taking the next name, with files of that name written.\<close>

lemma reserve_name:
  assumes b: "base_inv X s" and hr: "headroom (eng s)"
    and t: "touches (run_names (run_filename (next_seq (eng s)))) (disk (eng s)) d"
  shows "base_inv X (s\<lparr>eng := (eng s)\<lparr>next_seq := next_seq (eng s) + 1, disk := d\<rparr>\<rparr>)" (is "base_inv X ?s")
proof -
  let ?n = "next_seq (eng s)"
  have si: "store_inv X (eng s)" and f: "fleet_ok X (eng s) (set (held s))" using b by (simp_all add: base_inv_def)
  have n1: "?n + 1 \<noteq> 0" using hr by (simp add: headroom_def)
  have "fleet_ok X (eng ?s) (set (held s))"
    using f by (rule fleet_own_name [OF _ _ next_name_free [OF f]])
      (use t less_succ_u64 [OF n1] in \<open>simp_all add: order.strict_implies_order\<close>)
  moreover have "store_inv X (eng ?s)"
    using si disk_ok_build [OF store_inv_disk [OF si] t n1] by (simp add: store_inv_def engine_inv_def)
  moreover have "held ?s = held s" by (simp add: held_def)
  ultimately show ?thesis using b by (simp add: base_inv_def readers_ok_def)
qed

text \<open>The merge starts with nothing copied.\<close>

lemma copied_none:
  assumes io: "inputs_ok X (eng s) inputs" and rs: "reserved s seq"
    and w: "writer_create (run_filename seq @ ''.tmp'') old = (Inr w, disk (eng s))"
  shows "copied X s inputs seq w fo (merged X inputs)"
proof -
  have "writing X w (disk (eng s)) [] [] \<and> w_path w = run_filename seq @ ''.tmp''"
    using writer_create_ok [OF w] by blast
  then show ?thesis
    unfolding copied_def using io rs by (auto simp: inputs_ok_def intro!: exI [of _ "[]"])
qed

lemma reserve_ok:
  assumes inv: "sys_inv X s" and th: "thread s = Reserving inputs" and hr: "headroom (eng s)"
  shows "kept X s (reserve_step X inputs s)"
proof -
  let ?n = "next_seq (eng s)"
  obtain r d where wc: "writer_create (run_filename ?n @ ''.tmp'') (disk (eng s)) = (r, d)" by fastforce
  let ?e = "(eng s)\<lparr>next_seq := ?n + 1, disk := d\<rparr>"
  note wk = working [OF inv, unfolded th, simplified]
  have io: "inputs_ok X (eng s) inputs" using inv th by (simp add: sys_inv_def)
  note kp = act_keepsD [OF writer_create_keeps wc]
  have b: "base_inv X (s\<lparr>eng := ?e\<rparr>)"
    by (rule reserve_name [OF wk(1) hr writer_touches [OF kp]]) simp
  have held: "held (s\<lparr>eng := ?e\<rparr>) = held s" by (simp add: held_def)
  have v: "view X ?e = view X (eng s)" by (simp add: view_def)
  show ?thesis
  proof (cases r)
    case (Inl err)
    have "kept X (s\<lparr>eng := ?e\<rparr>) (leave inputs (Inl err) (s\<lparr>eng := ?e\<rparr>))"
      by (rule leave_ok [OF b]) (use wk held in simp_all)
    with Inl wc v show ?thesis by (simp add: reserve_step_def Let_def kept_def)
  next
    case (Inr w)
    let ?th = "Merging inputs ?n (merge_new [] (map cursor_new inputs)) w (builder X (compact_capacity inputs))"
    let ?s = "s\<lparr>eng := ?e, thread := ?th\<rparr>"
    have held': "set (held ?s) = set (held s)" using th by (simp add: held_def)
    have "fs_lookup d (sidecar_path (run_filename ?n)) = None"
      using fresh_sidecar [OF store_inv_disk [OF wk(5)]] touchesD [OF kp, of "sidecar_path (run_filename ?n)"]
      by (simp add: sidecar_path_def)
    then have "reserved ?s ?n"
      using next_name_free [OF wk(7)] less_succ_u64 hr by (simp add: reserved_def held' headroom_def)
    then have "copied X ?s inputs ?n w (builder X (compact_capacity inputs)) (merged X inputs)"
      by (intro copied_none [where old = "disk (eng s)"]) (use io wc Inr in \<open>simp_all add: inputs_ok_def\<close>)
    moreover have "\<forall>t \<in> set inputs. good_run X t" using fleet_good [OF wk(7)] wk(4) by auto
    ultimately have "thread_inv X ?s ?th" using merged_ok(3) by (simp add: merged_def)
    moreover have "base_inv X ?s" using b held' by (simp add: base_inv_def readers_ok_def held)
    ultimately have "sys_inv X ?s" by (intro base_inv_sys) (use wk in simp_all)
    with Inr wc v show ?thesis by (simp add: reserve_step_def Let_def kept_def)
  qed
qed

text \<open>One entry copied.\<close>

lemma copied_push:
  assumes c: "copied X s inputs seq w fo ((k, Value v) # rest)" and X: "bloom_laws X"
    and p: "writer_push X w k (Value v) (disk (eng s)) = (Inr w', d)"
    and s': "s' = s\<lparr>eng := (eng s)\<lparr>disk := d\<rparr>, thread := th\<rparr>" "set (held s') = set (held s)"
  shows "copied X s' inputs seq w' (filter_add X fo k) rest"
proof -
  from c obtain bss pend where w: "writing X w (disk (eng s)) bss pend"
    and m: "concat bss @ pend @ (k, Value v) # rest = merged X inputs"
    and cv: "covers X fo (fst ` set (concat bss @ pend))" by (auto simp: copied_def)
  have wp: "w_path w = run_filename seq @ ''.tmp''" and rs: "reserved s seq" using c by (simp_all add: copied_def)
  note po = writer_push_ok [OF w p]
  from writing_extends [OF conjunct2 [OF po]] obtain bss' pend' where
    w': "writing X w' d bss' pend'" "concat bss' @ pend' = concat bss @ pend @ [(k, Value v)]" by blast
  have "fst ` set (concat bss' @ pend') = insert k (fst ` set (concat bss @ pend))" unfolding w'(2) by auto
  with covers_add [OF X cv, of k] have cv': "covers X (filter_add X fo k) (fst ` set (concat bss' @ pend'))" by simp
  have m': "concat bss' @ pend' @ rest = merged X inputs" using w'(2) m by (metis append.assoc append_Cons append_Nil)
  have "fs_lookup d (sidecar_path (run_filename seq)) = fs_lookup (disk (eng s)) (sidecar_path (run_filename seq))"
    using touchesD [OF act_keepsD [OF writer_push_keeps p]] wp by (simp add: sidecar_path_def)
  with rs s' have "reserved s' seq" by (simp add: reserved_def)
  moreover have "inputs_ok X (eng s') inputs" using c s'(1) by (simp add: copied_def inputs_ok_def)
  moreover have "w_path w' = run_filename seq @ ''.tmp''" using po wp by simp
  moreover have "writing X w' (disk (eng s')) bss' pend'" using w'(1) s'(1) by simp
  ultimately show ?thesis unfolding copied_def using m' cv' by blast
qed

lemma merge_push_ok:
  assumes inv: "sys_inv X s" and th: "thread s = Merging inputs seq sources w fo"
    and nx: "merge_next X sources = (Some (Inr (k, v)), s1)"
  shows "kept X s (merge_step X inputs seq sources w fo s)"
proof -
  note wk = working [OF inv, unfolded th, simplified]
  have c: "copied X s inputs seq w fo (live_entries (fst (merge_items X sources)))" "snd (merge_items X sources) = None"
    using inv th by (simp_all add: sys_inv_def)
  have rs: "reserved s seq" and wp: "w_path w = run_filename seq @ ''.tmp''" using c(1) by (simp_all add: copied_def)
  obtain r d where p: "writer_push X w k (Value v) (disk (eng s)) = (r, d)" by fastforce
  note own = own_file_step [OF wk(1) writer_touches [OF act_keepsD [OF writer_push_keeps p] wp] rs]
  show ?thesis
  proof (cases r)
    case (Inl err)
    have "kept X (s\<lparr>eng := (eng s)\<lparr>disk := d\<rparr>\<rparr>) (leave inputs (Inl err) (s\<lparr>eng := (eng s)\<lparr>disk := d\<rparr>\<rparr>))"
      by (rule leave_ok [OF own(1)]) (use wk in \<open>simp_all add: held_def\<close>)
    with nx p Inl own(2) show ?thesis by (simp add: merge_step_def kept_def)
  next
    case (Inr w')
    let ?th = "Merging inputs seq s1 w' (filter_add X fo k)"
    let ?s = "s\<lparr>eng := (eng s)\<lparr>disk := d\<rparr>, thread := ?th\<rparr>"
    have held: "held ?s = held s" "held (s\<lparr>eng := (eng s)\<lparr>disk := d\<rparr>\<rparr>) = held s" using th by (simp_all add: held_def)
    have it: "merge_items X sources = ((k, v) # fst (merge_items X s1), snd (merge_items X s1))"
      using merge_items.simps [of X sources] nx by simp
    then have "copied X s inputs seq w fo ((k, Value v) # live_entries (fst (merge_items X s1)))"
      using c(1) by (simp add: live_entries_def)
    from copied_push [OF this wk(6) p [unfolded Inr], of ?s ?th] held
    have "thread_inv X ?s (thread ?s)" using c(2) it by simp
    moreover have "base_inv X ?s" using own(1) held by (simp add: base_inv_def readers_ok_def)
    ultimately have "sys_inv X ?s" by (intro base_inv_sys) (use wk in simp_all)
    with nx p Inr own(2) show ?thesis by (simp add: merge_step_def kept_def)
  qed
qed

lemma merge_ok:
  assumes inv: "sys_inv X s" and th: "thread s = Merging inputs seq sources w fo"
  shows "kept X s (merge_step X inputs seq sources w fo s)"
proof -
  note wk = working [OF inv, unfolded th, simplified]
  obtain o' s1 where nx: "merge_next X sources = (o', s1)" by fastforce
  consider "o' = None" | err where "o' = Some (Inl err)" | k v where "o' = Some (Inr (k, v))"
    by (metis option.exhaust sum.exhaust prod.exhaust)
  then show ?thesis
  proof cases
    case 1
    let ?s = "s\<lparr>thread := Sealing inputs seq w fo\<rparr>"
    have held: "held ?s = held s" using th by (simp add: held_def)
    have "merge_items X sources = ([], None)" using merge_items.simps [of X sources] 1 nx by simp
    moreover have "copied X s inputs seq w fo (live_entries (fst (merge_items X sources)))"
      using inv th by (simp add: sys_inv_def)
    ultimately have "thread_inv X ?s (thread ?s)"
      by (simp add: live_entries_def copied_def reserved_def held)
    moreover have "base_inv X ?s" using wk(1) by (simp add: base_inv_def held readers_ok_def)
    ultimately have "sys_inv X ?s" by (intro base_inv_sys) (use wk in simp_all)
    with 1 nx show ?thesis by (simp add: merge_step_def kept_def)
  next
    case (2 err)
    with nx leave_ok [OF wk(1-4)] show ?thesis by (simp add: merge_step_def)
  next
    case (3 k v)
    with nx merge_push_ok [OF inv th] show ?thesis by simp
  qed
qed

text \<open>The finished output is a run with the merged entries.\<close>

lemma sealed_output:
  assumes c: "copied X s inputs seq w fo []" and X: "bloom_laws X" and good: "\<forall>t \<in> set inputs. good_run X t"
    and sl: "seal_run X msg (run_filename seq @ ''.tmp'') (run_filename seq) i (w, fo) (disk (eng s)) = (Inr out, d)"
  shows "committed X d out" "tbl_path out = run_filename seq" "run_id out = i" "merges X inputs out"
proof -
  let ?p = "run_filename seq"
  from c obtain bss pend where wr: "writing X w (disk (eng s)) bss pend" "merged X inputs = concat bss @ pend"
    and cv: "covers X fo (fst ` set (merged X inputs))" by (auto simp: copied_def)
  have wp: "w_path w = ?p @ ''.tmp''" and io: "inputs_ok X (eng s) inputs"
    and none: "fs_lookup (disk (eng s)) (sidecar_path ?p) = None" using c by (simp_all add: copied_def reserved_def)
  note mo = merged_ok [OF good]
  have sz: "sized (merged X inputs)" using merged_sized [OF mo(1) mo(2)] io by (simp add: inputs_ok_def)
  show "committed X d out" "tbl_path out = ?p" "run_id out = i" "merges X inputs out"
    using seal_run_ok [OF X wr(1) wp wr(2) mo(1) sz cv none sl] mo(2) by (simp_all add: merges_def)
qed

text \<open>A new handle on a run of a reserved name joins the fleet under the next id.\<close>

lemma adopt_output:
  assumes b: "base_inv X s" and hr: "headroom (eng s)"
    and rs: "seq < next_seq (eng s)" "run_filename seq \<notin> tbl_path ` set (held s)"
    and o: "committed X (disk (eng s)) out" "tbl_path out = run_filename seq" "run_id out = next_run_id (eng s)"
    and held: "set (held s') = insert out (set (held s))"
    and s': "s' = s\<lparr>eng := (eng s)\<lparr>next_run_id := next_run_id (eng s) + 1\<rparr>, thread := th\<rparr>"
  shows "base_inv X s'" "out \<notin> set (runs (eng s))" "run_id out \<notin> set (dead s)"
proof -
  let ?i = "next_run_id (eng s)"
  have f: "fleet_ok X (eng s) (set (held s))" using b by (simp add: base_inv_def)
  have i1: "?i + 1 \<noteq> 0" using hr by (simp add: headroom_def)
  have "fleet_ok X (eng s') (insert out (set (held s)))"
    using f o(1,2) by (rule fleet_insert) (use o(3) rs i1 in \<open>simp_all add: s'\<close>)
  moreover have "store_inv X (eng s')"
    using b handles_ok_step [OF _ i1, of X "runs (eng s)" "cache (eng s)"]
    by (simp add: base_inv_def store_inv_def engine_inv_def s')
  ultimately show "base_inv X s'"
    using b held less_succ_u64 [OF i1] by (auto simp: base_inv_def readers_ok_def s' intro: order.strict_trans)
  have "out \<notin> set (held s)" using f o(3) by (auto simp: fleet_ok_def)
  then show "out \<notin> set (runs (eng s))" "run_id out \<notin> set (dead s)"
    using b o(3) held_runs [of s] by (auto simp: base_inv_def)
qed

lemma seal_ok:
  assumes inv: "sys_inv X s" and th: "thread s = Sealing inputs seq w fo" and hr: "headroom (eng s)"
  shows "kept X s (seal_step X inputs seq w fo s)"
proof -
  let ?i = "next_run_id (eng s)" and ?p = "run_filename seq"
  note wk = working [OF inv, unfolded th, simplified]
  have c: "copied X s inputs seq w fo []" using inv th by (simp add: sys_inv_def)
  then have io: "inputs_ok X (eng s) inputs" and rs: "reserved s seq" and wp: "w_path w = ?p @ ''.tmp''"
    by (simp_all add: copied_def)
  obtain r d where sl: "seal_run X ''install compacted run'' (?p @ ''.tmp'') ?p ?i (w, fo) (disk (eng s)) = (r, d)" by fastforce
  have t: "touches (run_names ?p) (disk (eng s)) d"
    using act_keepsD [OF seal_run_touches [OF wp] sl] by (rule touches_mono) (use sidecar_run_names [of ?p] in auto)
  note own = own_file_step [OF wk(1) t rs]
  let ?s1 = "s\<lparr>eng := (eng s)\<lparr>disk := d\<rparr>\<rparr>"
  have held1: "held ?s1 = held s" by (simp add: held_def)
  show ?thesis
  proof (cases r)
    case (Inl err)
    have "kept X ?s1 (leave inputs (Inl err) ?s1)"
      by (rule leave_ok [OF own(1)]) (use wk held1 in simp_all)
    with sl Inl own(2) show ?thesis by (simp add: seal_step_def Let_def kept_def)
  next
    case (Inr out)
    let ?s = "s\<lparr>eng := (eng s)\<lparr>disk := d, next_run_id := ?i + 1\<rparr>, thread := Swapping inputs out\<rparr>"
    have "\<forall>t \<in> set inputs. good_run X t" using fleet_good [OF wk(7)] wk(4) by auto
    note so = sealed_output [OF c wk(6) this sl [unfolded Inr]]
    have held: "set (held ?s) = insert out (set (held ?s1))" using th by (auto simp: held_def)
    have rs1: "headroom (eng ?s1)" "seq < next_seq (eng ?s1)" "?p \<notin> tbl_path ` set (held ?s1)"
      using hr rs by (simp_all add: headroom_def reserved_def held1)
    note ad = adopt_output [OF own(1) rs1 _ so(2) _ held]
    have "base_inv X ?s" "out \<notin> set (runs (eng s))" "run_id out \<notin> set (dead s)"
      using ad(1) ad(2,3) [of "Swapping inputs out"] so(1,3) by simp_all
    moreover from this have "thread_inv X ?s (thread ?s)" using io so(4) held by (simp add: inputs_ok_def)
    ultimately have "sys_inv X ?s" by (intro base_inv_sys) (use wk in simp_all)
    moreover have "view X (eng ?s) = view X (eng s)" by (simp add: view_def)
    ultimately show ?thesis using sl Inr by (simp add: seal_step_def Let_def kept_def)
  qed
qed

lemma compact_swap_fields:
  assumes "compact_swap X inputs out e = (r, e')"
  shows "next_seq e' = next_seq e" "next_run_id e' = next_run_id e" "cache e' = cache e" "compaction e' = compaction e"
    "compacting e' = compacting e" "touches manifest_names (disk e) (disk e')"
  using assms act_keepsD [OF manifest_store_keeps]
  by (auto simp: compact_swap_def Let_def split: prod.splits sum.splits)

lemma swap_engine:
  assumes inv: "sys_inv X s" and th: "thread s = Swapping inputs out" and nw: "runs (eng s) = newer @ inputs"
    and cs: "compact_swap X inputs out (eng s) = (r, e')"
  shows "store_inv X e'" "view X e' = view X (eng s)" "runs e' = (if r = Inr () then newer @ [out] else runs (eng s))"
    "fleet_ok X e' (set (held s))" "run_id ` set (newer @ [out]) \<inter> run_id ` set inputs = {}"
proof -
  note wk = working [OF inv, unfolded th, simplified]
  have mg: "merges X inputs out" and out: "out \<notin> set (runs (eng s))" using inv th by (simp_all add: sys_inv_def)
  have dr: "distinct (out # runs (eng s))"
    using out wk(5) by (auto simp: store_inv_def engine_inv_def disk_ok_def distinct_map)
  have sub: "set (out # runs (eng s)) \<subseteq> set (held s)" using wk(4) held_runs [of s] by auto
  note fr = fleet_runs [OF wk(7) sub dr]
  have dr': "distinct (runs (eng s) @ [out])" "set (runs (eng s) @ [out]) \<subseteq> set (held s)" using dr sub by auto
  have "swap_post X newer out (eng s) (r, e')"
    using compact_swap_post [OF _ nw mg fr(2,3) fleet_runs(1) [OF wk(7) dr'(2,1)]] wk(5) cs by (simp add: store_inv_def)
  then show "store_inv X e'" "view X e' = view X (eng s)"
    "runs e' = (if r = Inr () then newer @ [out] else runs (eng s))"
    using wk(6) by (simp_all add: swap_post_def store_inv_def)
  note cf = compact_swap_fields [OF cs]
  show "fleet_ok X e' (set (held s))"
  proof (rule fleet_frame [OF wk(7) cf(6)])
    fix u q name assume "run_names (run_filename q) name"
    then show "\<not> manifest_names name" using run_names_fixed by blast
  qed (simp_all add: cf)
  show "run_id ` set (newer @ [out]) \<inter> run_id ` set inputs = {}" using fr(4) nw by auto
qed

lemma swap_ok:
  assumes inv: "sys_inv X s" and th: "thread s = Swapping inputs out"
  shows "kept X s (swap_step X inputs out s)"
proof -
  note wk = working [OF inv, unfolded th, simplified]
  from inv th obtain newer where nw: "runs (eng s) = newer @ inputs" and out: "run_id out \<notin> set (dead s)"
    by (auto simp: sys_inv_def inputs_ok_def)
  obtain r e' where cs: "compact_swap X inputs out (eng s) = (r, e')" by fastforce
  note se = swap_engine [OF inv th nw cs] and cf = compact_swap_fields [OF cs]
  show ?thesis
  proof (cases r)
    case (Inl err)
    let ?s = "s\<lparr>eng := e'\<rparr>"
    have rs: "runs e' = runs (eng s)" using se(3) Inl by simp
    then have held: "held ?s = held s" by (simp add: held_def)
    have "base_inv X ?s" using wk(1) se cf rs by (simp add: base_inv_def held readers_ok_def)
    then have "kept X ?s (leave (out # inputs) (Inl err) ?s)"
      by (rule leave_ok) (use wk cf held in auto)
    with cs Inl se(2) show ?thesis by (simp add: swap_step_def kept_def)
  next
    case (Inr x)
    let ?s = "s\<lparr>eng := e', dead := map run_id inputs @ dead s, thread := Dropping inputs\<rparr>"
    have rs: "runs e' = newer @ [out]" using se(3) Inr by simp
    have held: "set (held ?s) = set (held s)" using th rs nw by (auto simp: held_def)
    have "run_id ` set (newer @ [out]) \<inter> set (dead s) = {}" using wk(1) out nw by (auto simp: base_inv_def)
    moreover have "\<forall>i \<in> set (map run_id inputs @ dead s). i < next_run_id e'"
      using wk(1,4,7) cf by (auto simp: base_inv_def fleet_ok_def)
    ultimately have "base_inv X ?s" using wk(1) se cf rs held by (auto simp: base_inv_def readers_ok_def)
    then have "sys_inv X ?s" by (rule base_inv_sys) (use wk cf in simp_all)
    with cs Inr se(2) show ?thesis by (simp add: swap_step_def kept_def)
  qed
qed

text \<open>The steps that only move the thread and the flags.\<close>

lemma flag_step_ok:
  assumes b: "base_inv X s"
    and e: "runs e = runs (eng s)" "mem e = mem (eng s)" "disk e = disk (eng s)" "next_seq e = next_seq (eng s)"
      "next_run_id e = next_run_id (eng s)" "cache e = cache (eng s)" "shutdown (compaction e) = shutdown (compaction (eng s))"
    and th: "set (thread_handles th) \<subseteq> set (held s)" "thread_inv X (s\<lparr>eng := e, thread := th\<rparr>) th"
      "compacting e = active th" "running (compaction e) = (th \<noteq> Waiting \<and> th \<noteq> Exited)" "th = Exited \<Longrightarrow> closed s"
  shows "kept X s (s\<lparr>eng := e, thread := th\<rparr>)"
proof -
  let ?s = "s\<lparr>eng := e, thread := th\<rparr>"
  have held: "set (held ?s) \<subseteq> set (held s)" using th(1) held_runs [of s] e(1) by (auto simp: held_def)
  have "store_inv X e" using b e by (simp add: base_inv_def store_inv_def engine_inv_def)
  moreover have "fleet_ok X e (set (held s))" using b e by (simp add: base_inv_def fleet_ok_def)
  from fleet_subset [OF this held] have "fleet_ok X e (set (held ?s))" .
  ultimately have "base_inv X ?s" using b e by (simp add: base_inv_def readers_ok_def)
  then have "sys_inv X ?s" by (rule base_inv_sys) (use th in simp_all)
  moreover have "view X e = view X (eng s)" using e by (simp add: view_def)
  ultimately show ?thesis by (simp add: kept_def)
qed

lemma wait_ok:
  assumes inv: "sys_inv X s" and th: "thread s = Waiting" and st: "wait_step s = Some s'"
  shows "kept X s s'"
proof -
  have fl: "\<not> compacting (eng s)" "\<not> running (compaction (eng s))" "shutdown (compaction (eng s)) = closed s"
    using inv th by (simp_all add: sys_inv_def flags_ok_def)
  note step = flag_step_ok [OF sys_inv_base [OF inv]]
  consider "s' = s\<lparr>eng := eng s, thread := Exited\<rparr>" "shutdown (compaction (eng s))"
    | "s' = s\<lparr>eng := set_state (\<lambda>st. st\<lparr>pending := False, running := True\<rparr>) (eng s), thread := Claiming\<rparr>"
    using st by (auto simp: wait_step_def Let_def split: if_splits)
  then show ?thesis
  proof cases
    case 1
    show ?thesis unfolding 1(1) by (rule step) (use fl 1(2) in simp_all)
  next
    case 2
    show ?thesis unfolding 2 by (rule step) (use fl in \<open>simp_all add: set_state_def\<close>)
  qed
qed

lemma snapshot_ok:
  assumes inv: "sys_inv X s" and th: "thread s = Snapshotting"
    and sz: "sized (concat (map (run_entries X) (runs (eng s))))"
  shows "kept X s (snapshot_step s)"
proof -
  note wk = working [OF inv, unfolded th, simplified]
  consider "snapshot_step s = s\<lparr>eng := eng s, thread := Releasing (Inr ())\<rparr>"
    | "snapshot_step s = s\<lparr>eng := eng s, thread := Reserving (runs (eng s))\<rparr>"
    by (cases "length (runs (eng s)) < 2") (auto simp: snapshot_step_def compact_snapshot_def)
  then show ?thesis
  proof cases
    case 1
    show ?thesis unfolding 1 by (rule flag_step_ok [OF wk(1)]) (use wk in simp_all)
  next
    case 2
    show ?thesis
      unfolding 2 by (rule flag_step_ok [OF wk(1)]) (use wk held_runs [of s] sz in \<open>simp_all add: inputs_ok_def\<close>)
  qed
qed

lemma report_ok:
  assumes inv: "sys_inv X s" and th: "thread s = Reporting r"
  shows "kept X s (report_step r s)"
proof -
  let ?e = "set_state (\<lambda>st. st\<lparr>running := False, generation := generation st + 1\<rparr>) (eng s)"
  have fl: "\<not> compacting (eng s)" using inv th by (simp add: sys_inv_def flags_ok_def)
  have "report_step r s
      = s\<lparr>eng := (case r of Inl err \<Rightarrow> ?e\<lparr>last_error := Some err\<rparr> | Inr _ \<Rightarrow> ?e), thread := Waiting\<rparr>"
    by (simp add: report_step_def Let_def)
  then show ?thesis
    by (simp only:) (rule flag_step_ok [OF sys_inv_base [OF inv]],
      use fl in \<open>simp_all add: set_state_def split: sum.splits\<close>)
qed

text \<open>Every step of the thread.\<close>

lemma tick_ok:
  assumes inv: "sys_inv X s" and ad: "admissible X s Tick" and st: "thread_step X (thread s) s = Some s'"
  shows "kept X s s'"
proof -
  have b: "base_inv X s" by (rule sys_inv_base [OF inv])
  have hr: "headroom (eng s)" using ad by (simp add: admissible_def)
  have fl: "running (compaction (eng s)) = (thread s \<noteq> Waiting \<and> thread s \<noteq> Exited)" "compacting (eng s) = active (thread s)"
    using inv by (simp_all add: sys_inv_def flags_ok_def)
  show ?thesis
  proof (cases "thread s")
    case Waiting
    with st wait_ok [OF inv] show ?thesis by simp
  next
    case Claiming
    then have "s' = s\<lparr>eng := (eng s)\<lparr>compacting := True\<rparr>, thread := Snapshotting\<rparr>"
      using st fl by (simp add: claim_step_def)
    then show ?thesis by (simp only:) (rule flag_step_ok [OF b], use Claiming fl in simp_all)
  next
    case Snapshotting
    then have "sized (concat (map (run_entries X) (runs (eng s))))" using ad by (simp add: admissible_def)
    with st snapshot_ok [OF inv Snapshotting] Snapshotting show ?thesis by simp
  next
    case (Reserving inputs)
    with st reserve_ok [OF inv Reserving hr] show ?thesis by simp
  next
    case (Merging inputs seq sources w fo)
    with st merge_ok [OF inv Merging] show ?thesis by simp
  next
    case (Sealing inputs seq w fo)
    with st seal_ok [OF inv Sealing hr] show ?thesis by simp
  next
    case (Swapping inputs out)
    with st swap_ok [OF inv Swapping] show ?thesis by simp
  next
    case (Dropping inputs)
    then have "set inputs \<subseteq> set (held s)" by (auto simp: held_def)
    with leave_ok [OF b, of inputs "Inr ()"] st fl Dropping show ?thesis by simp
  next
    case (Releasing r)
    then have "s' = s\<lparr>eng := (eng s)\<lparr>compacting := False\<rparr>, thread := Reporting r\<rparr>" using st by simp
    then show ?thesis by (simp only:) (rule flag_step_ok [OF b], use Releasing fl in simp_all)
  next
    case (Reporting r)
    with st report_ok [OF inv Reporting] show ?thesis by simp
  next
    case Exited
    with st show ?thesis by simp
  qed
qed

section \<open>Every step, every reachable state\<close>

text \<open>What an action does to the contents: a successful write its effect, anything else nothing.\<close>

fun action_effect :: "action \<Rightarrow> (bytes \<Rightarrow> bytes option) \<Rightarrow> bytes \<Rightarrow> bytes option" where
  "action_effect (Client a) m = op_effect a m"
| "action_effect _ m = m"

fun failed :: "event \<Rightarrow> bool" where
  "failed (Done a r) = (r \<noteq> Inr ())"
| "failed _ = False"

theorem step_ok:
  assumes inv: "sys_inv X s" and ad: "admissible X s a" and st: "sys_step X s a ev s'"
  shows "sys_inv X s'" and "\<not> failed ev \<Longrightarrow> view X (eng s') = action_effect a (view X (eng s))"
proof -
  have "sys_inv X s' \<and> (\<not> failed ev \<longrightarrow> view X (eng s') = action_effect a (view X (eng s)))"
    using st
  proof (cases rule: sys_step.cases)
    case (client a' r e)
    then have "admits_op X (eng s) a'" "headroom (eng s)" using ad by (simp_all add: admissible_def)
    from client_ok [OF inv this] client show ?thesis by simp
  next
    case (get i k)
    with begin_get_ok [OF inv] show ?thesis by simp
  next
    case (scan i rng)
    with begin_scan_ok [OF inv] show ?thesis by simp
  next
    case (get_more i k hs rest)
    with get_step_ok [OF inv] show ?thesis by simp
  next
    case (scan_end i rng m hs)
    with end_read_ok [OF inv, of i "Scanning rng m hs" hs] show ?thesis by simp
  next
    case compactor
    with tick_ok [OF inv] ad show ?thesis by (simp add: kept_def)
  next
    case close
    have "held s' = held s" using close by (simp add: held_def set_state_def)
    moreover have "thread_inv X s' (thread s)"
      by (rule thread_inv_still) (use inv close thread_held [of s] calculation in \<open>simp_all add: sys_inv_def set_state_def\<close>)
    ultimately have "sys_inv X s'"
      using inv close
      by (simp add: sys_inv_def flags_ok_def readers_ok_def set_state_def store_inv_def engine_inv_def fleet_ok_def)
    with close show ?thesis by (simp add: set_state_def view_def)
  qed
  then show "sys_inv X s'" and "\<not> failed ev \<Longrightarrow> view X (eng s') = action_effect a (view X (eng s))" by simp_all
qed

end
