(* ===== verification/Process.thy ===== *)
theory Process
  imports Interleaving
begin

text \<open>
  Executions of the process: what holds in every reachable state, what a lookup or a scan
  returns however its steps are interleaved with the others, and that dropping the handle
  ends.
\<close>

section \<open>Executions\<close>

inductive exec :: "'f externals \<Rightarrow> 'f sys \<Rightarrow> (action \<times> event) list \<Rightarrow> 'f sys \<Rightarrow> bool" for X :: "'f externals" where
  exec_Nil: "exec X s [] s"
| exec_Cons: "admissible X s a \<Longrightarrow> sys_step X s a ev s' \<Longrightarrow> exec X s' tr s'' \<Longrightarrow> exec X s ((a, ev) # tr) s''"

inductive_cases exec_ConsE: "exec X s ((a, ev) # tr) s''"
inductive_cases exec_NilE: "exec X s [] s'"

lemma exec_inv: "exec X s tr s' \<Longrightarrow> sys_inv X s \<Longrightarrow> sys_inv X s'"
  by (induction rule: exec.induct) (simp_all add: step_ok(1))

lemma exec_view:
  "exec X s tr s' \<Longrightarrow> sys_inv X s \<Longrightarrow> \<forall>(a, ev) \<in> set tr. \<not> failed ev \<Longrightarrow>
     view X (eng s') = fold (\<lambda>(a, ev). action_effect a) tr (view X (eng s))"
  by (induction rule: exec.induct) (simp_all add: step_ok)

text \<open>A process just started on an engine that satisfies its invariant.\<close>

lemma started_inv:
  assumes "store_inv X e" and "compacting e = False" "running (compaction e) = False" "shutdown (compaction e) = False"
  shows "sys_inv X (started e)"
proof -
  have inv: "engine_inv X e" using assms(1) by (simp add: store_inv_def)
  have held: "held (started e) = runs e" by (simp add: held_def started_def)
  have "fleet_ok X e (set (runs e))"
    using inv by (auto simp: fleet_ok_def engine_inv_def handles_ok_def disk_ok_def runs_ok_def distinct_map)
  with assms show ?thesis
    by (simp add: sys_inv_def held) (simp add: started_def flags_ok_def readers_ok_def)
qed

section \<open>Lookups\<close>

definition looking_up :: "'f externals \<Rightarrow> nat \<Rightarrow> bytes \<Rightarrow> bytes option \<Rightarrow> 'f sys \<Rightarrow> bool" where
  "looking_up X i k v s \<longleftrightarrow> (\<exists>hs rest. map_of (readers s) i = Some (Getting k hs rest)
     \<and> resolve (map (run_entries X) rest) k = v)"

fun answer :: "nat \<Rightarrow> event list \<Rightarrow> bytes option res option" where
  "answer i [] = None"
| "answer i (ev # evs) = (case ev of GetDone j r \<Rightarrow> (if j = i then Some r else answer i evs) | _ \<Rightarrow> answer i evs)"

lemma map_of_end_read: "map_of (readers (end_read j hs s)) i = (if i = j then None else map_of (readers s) i)"
  using map_of_filter_keys [of "\<lambda>x. x \<noteq> j" "readers s" i] by (simp add: end_read_def release_fields)

lemma map_of_keep_reading:
  "map_of (readers (keep_reading j r s)) i = (if i = j then map_option (\<lambda>_. r) (map_of (readers s) i) else map_of (readers s) i)"
proof -
  have "map_of (map (\<lambda>x. if fst x = j then (j, r) else x) xs) i
      = (if i = j then map_option (\<lambda>_. r) (map_of xs i) else map_of xs i)" for xs
    by (induction xs) auto
  then show ?thesis by (simp add: keep_reading_def)
qed

lemma begin_get_answer:
  assumes inv: "sys_inv X s" and b: "begin_get i k s = (ev, s')"
  shows "ev = GetDone i (Inr (view X (eng s) k)) \<or> ev = Quiet \<and> looking_up X i k (view X (eng s) k) s'"
proof -
  let ?m = "mem (eng s)"
  have mi: "map_of (memtable_iter ?m) k = memtable_get ?m k"
    by (simp add: memtable_get_def memtable_iter_def btree_get_def)
  then have v: "view X (eng s) k = (case memtable_get ?m k of None \<Rightarrow> resolve (map (run_entries X) (runs (eng s))) k
      | Some r \<Rightarrow> visible r)"
    by (simp add: view_def resolve_Cons)
  show ?thesis
    using b v by (auto simp: begin_get_def looking_up_def split: option.splits record_v.splits)
qed

lemma get_step_answer:
  assumes inv: "sys_inv X s" and r: "map_of (readers s) i = Some (Getting k hs rest)"
    and st: "get_step X i k hs rest s = (ev, s')"
  shows "ev = GetDone i (Inr (resolve (map (run_entries X) rest) k))
     \<or> ev = Quiet \<and> looking_up X i k (resolve (map (run_entries X) rest) k) s'"
proof (cases rest)
  case Nil
  with st show ?thesis by (simp add: get_step_def resolve_def)
next
  case (Cons t ts)
  have f: "fleet_ok X (eng s) (set (held s))" using inv by (simp add: sys_inv_def)
  have "reader_ok (snd (i, Getting k hs rest))"
    using inv map_of_SomeD [OF r] unfolding sys_inv_def readers_ok_def by blast
  then have t: "t \<in> set (held s)" using reader_held [OF r] Cons by auto
  have res: "resolve (map (run_entries X) rest) k
      = (case map_of (run_entries X t) k of None \<Rightarrow> resolve (map (run_entries X) ts) k | Some r \<Rightarrow> visible r)"
    by (simp add: Cons resolve_Cons)
  show ?thesis
  proof (cases "might_contain X t k")
    case False
    with might_contain_keys [OF fleet_good [OF f t]] res st Cons r show ?thesis
      by (auto simp: get_step_def looking_up_def map_of_keep_reading)
  next
    case True
    obtain out c where l: "sstable_lookup X t k (cache (eng s)) = (out, c)" by fastforce
    have "out = Inr (map_of (run_entries X t) k)" by (rule lookup_step_ok(3) [OF inv t l])
    with True res st Cons r l show ?thesis
      by (auto simp: get_step_def Let_def looking_up_def map_of_keep_reading split: option.splits record_v.splits)
  qed
qed

lemma thread_step_readers: "thread_step X (thread s) s = Some s' \<Longrightarrow> readers s' = readers s"
  by (cases "thread s") (auto simp: wait_step_def claim_step_def snapshot_step_def reserve_step_def
      merge_step_def seal_step_def swap_step_def report_step_def leave_def release_fields Let_def
      split: if_splits option.splits prod.splits sum.splits)

lemma looking_up_step:
  assumes inv: "sys_inv X s" and lu: "looking_up X i k v s" and st: "sys_step X s a ev s'"
  shows "ev = GetDone i (Inr v) \<or> looking_up X i k v s' \<and> (\<forall>r. ev \<noteq> GetDone i r)"
proof -
  from lu obtain hs rest where r: "map_of (readers s) i = Some (Getting k hs rest)"
    and v: "resolve (map (run_entries X) rest) k = v" by (auto simp: looking_up_def)
  have other: "looking_up X i k v s'" if "map_of (readers s') i = map_of (readers s) i"
    using that r v by (auto simp: looking_up_def)
  show ?thesis
    using st
  proof (cases rule: sys_step.cases)
    case (get j k')
    then have "j \<noteq> i" using r by auto
    with get other show ?thesis by (auto simp: begin_get_def split: option.splits record_v.splits)
  next
    case (scan j rng)
    then have "j \<noteq> i" using r by auto
    with scan other show ?thesis by (simp add: begin_scan_def Let_def)
  next
    case (get_more j k' hs' rest')
    show ?thesis
    proof (cases "j = i")
      case True
      then have "get_step X i k hs rest s = (ev, s')" using get_more r by simp
      from get_step_answer [OF inv r this] v show ?thesis by auto
    next
      case False
      with get_more(3) have "map_of (readers s') i = map_of (readers s) i" "\<forall>r. ev \<noteq> GetDone i r"
        by (auto simp: get_step_def Let_def map_of_end_read map_of_keep_reading
            split: list.splits if_splits prod.splits sum.splits option.splits record_v.splits)
      with other show ?thesis by blast
    qed
  next
    case (scan_end j rng m hs')
    then have "j \<noteq> i" using r by auto
    with scan_end other show ?thesis by (simp add: map_of_end_read)
  next
    case compactor
    with thread_step_readers [of X s s'] other show ?thesis by simp
  qed (use other in simp_all)
qed

lemma exec_answer:
  "exec X s tr s' \<Longrightarrow> sys_inv X s \<Longrightarrow> looking_up X i k v s \<Longrightarrow> answer i (map snd tr) = Some r \<Longrightarrow> r = Inr v"
proof (induction rule: exec.induct)
  case (exec_Cons s a ev s' tr s'')
  have inv: "sys_inv X s'" using step_ok(1) exec_Cons by blast
  from looking_up_step [OF exec_Cons.prems(1,2) exec_Cons.hyps(2)]
  show ?case
  proof
    assume "ev = GetDone i (Inr v)"
    with exec_Cons.prems(3) show ?thesis by simp
  next
    assume l: "looking_up X i k v s' \<and> (\<forall>r. ev \<noteq> GetDone i r)"
    then have "answer i (map snd tr) = Some r" using exec_Cons.prems(3) by (auto split: event.splits if_splits)
    with exec_Cons.IH inv l show ?thesis by blast
  qed
qed simp

lemma get_answer:
  assumes inv: "sys_inv X s" and ex: "exec X s ((BeginGet i k, ev) # tr) s'"
    and an: "answer i (map snd ((BeginGet i k, ev) # tr)) = Some r"
  shows "r = Inr (view X (eng s) k)"
proof -
  from ex obtain s1 where ad: "admissible X s (BeginGet i k)" and st: "sys_step X s (BeginGet i k) ev s1"
    and tl: "exec X s1 tr s'" by (elim exec_ConsE)
  have inv1: "sys_inv X s1" by (rule step_ok(1) [OF inv ad st])
  from st have "begin_get i k s = (ev, s1)" by (cases rule: sys_step.cases) simp_all
  from begin_get_answer [OF inv this] show ?thesis
  proof
    assume "ev = GetDone i (Inr (view X (eng s) k))"
    with an show ?thesis by simp
  next
    assume q: "ev = Quiet \<and> looking_up X i k (view X (eng s) k) s1"
    with an have "answer i (map snd tr) = Some r" by simp
    with exec_answer [OF tl inv1] q show ?thesis by blast
  qed
qed

section \<open>Scans\<close>

fun scan_answer :: "nat \<Rightarrow> event list \<Rightarrow> scan_iter res option" where
  "scan_answer i [] = None"
| "scan_answer i (ev # evs) = (case ev of ScanDone j r \<Rightarrow> (if j = i then Some r else scan_answer i evs) | _ \<Rightarrow> scan_answer i evs)"

lemma scanning_step:
  assumes r: "map_of (readers s) i = Some (Scanning rng m hs)" and st: "sys_step X s a ev s'"
  shows "ev = ScanDone i (scan_snapshot X rng m hs)
     \<or> map_of (readers s') i = Some (Scanning rng m hs) \<and> (\<forall>r. ev \<noteq> ScanDone i r)"
  using st
proof (cases rule: sys_step.cases)
  case (get j k')
  then have "j \<noteq> i" using r by auto
  with get r show ?thesis by (auto simp: begin_get_def split: option.splits record_v.splits)
next
  case (scan j rng)
  then have "j \<noteq> i" using r by auto
  with scan r show ?thesis by (simp add: begin_scan_def Let_def)
next
  case (get_more j k' hs' rest')
  then have "j \<noteq> i" using r by auto
  with get_more r show ?thesis
    by (auto simp: get_step_def Let_def map_of_end_read map_of_keep_reading
        split: list.splits if_splits prod.splits sum.splits option.splits record_v.splits)
next
  case (scan_end j rng m hs')
  with r show ?thesis by (cases "j = i") (simp_all add: map_of_end_read)
next
  case compactor
  with thread_step_readers [of X s s'] r show ?thesis by simp
qed (use r in simp_all)

lemma exec_scan_answer:
  "exec X s tr s' \<Longrightarrow> map_of (readers s) i = Some (Scanning rng m hs) \<Longrightarrow> scan_answer i (map snd tr) = Some r
     \<Longrightarrow> r = scan_snapshot X rng m hs"
proof (induction rule: exec.induct)
  case (exec_Cons s a ev s' tr s'')
  from scanning_step [OF exec_Cons.prems(1) exec_Cons.hyps(2)]
  show ?case
  proof
    assume "ev = ScanDone i (scan_snapshot X rng m hs)"
    with exec_Cons.prems(2) show ?thesis by simp
  next
    assume l: "map_of (readers s') i = Some (Scanning rng m hs) \<and> (\<forall>r. ev \<noteq> ScanDone i r)"
    then have "scan_answer i (map snd tr) = Some r" using exec_Cons.prems(2) by (auto split: event.splits if_splits)
    with exec_Cons.IH l show ?thesis by blast
  qed
qed simp

lemma scan_answer_snapshot:
  assumes ex: "exec X s ((BeginScan i rng, ev) # tr) s'"
    and an: "scan_answer i (map snd ((BeginScan i rng, ev) # tr)) = Some r"
  shows "r = engine_scan X rng (eng s)"
proof -
  from ex obtain s1 where st: "sys_step X s (BeginScan i rng) ev s1" and tl: "exec X s1 tr s'" by (elim exec_ConsE)
  from st have s1: "s1 = begin_scan i rng s" "ev = Quiet" by (auto elim: sys_step.cases)
  let ?m = "filter (\<lambda>e. position rng (fst e) = In) (memtable_iter (mem (eng s)))"
  have "map_of (readers s1) i = Some (Scanning rng ?m (runs (eng s)))" by (simp add: s1 begin_scan_def Let_def)
  from exec_scan_answer [OF tl this] an s1(2) show ?thesis
    by (simp add: scan_snapshot_def engine_scan_def Let_def)
qed

section \<open>The compactor alone\<close>

fun ticks :: "'f externals \<Rightarrow> nat \<Rightarrow> 'f sys \<Rightarrow> 'f sys" where
  "ticks X 0 s = s"
| "ticks X (Suc n) s = (case thread_step X (thread s) s of None \<Rightarrow> s | Some s' \<Rightarrow> ticks X n s')"

text \<open>The thread is never stuck: it waits for work or for the shutdown, or it has exited.\<close>

lemma thread_blocked:
  "thread_step X (thread s) s = None \<longleftrightarrow>
     thread s = Exited \<or> thread s = Waiting \<and> \<not> pending (compaction (eng s)) \<and> \<not> shutdown (compaction (eng s))"
  by (cases "thread s") (simp_all add: wait_step_def Let_def)

text \<open>A bound on the steps left once the shutdown is requested.\<close>

fun rank :: "'f externals \<Rightarrow> 'f sys \<Rightarrow> 'f thread \<Rightarrow> nat" where
  "rank X s Exited = 0"
| "rank X s Waiting = 1"
| "rank X s (Reporting r) = 2"
| "rank X s (Releasing r) = 3"
| "rank X s (Dropping inputs) = 4"
| "rank X s (Swapping inputs out) = 5"
| "rank X s (Sealing inputs seq w fo) = 6"
| "rank X s (Merging inputs seq sources w fo) = 7 + src.weight X sources"
| "rank X s (Reserving inputs) = 8 + src.weight X (merge_new [] (map cursor_new inputs))"
| "rank X s Snapshotting = 9 + src.weight X (merge_new [] (map cursor_new (runs (eng s))))"
| "rank X s Claiming = 10 + src.weight X (merge_new [] (map cursor_new (runs (eng s))))"

lemma leave_simps: "thread (leave hs r s) = Releasing r" "compaction (eng (leave hs r s)) = compaction (eng s)"
  by (simp_all add: leave_def release_fields release_eng drop_inputs_fields)

lemma merge_step_rank:
  "rank X (merge_step X inputs seq sources w fo s) (thread (merge_step X inputs seq sources w fo s))
     < 7 + src.weight X sources"
  using merge_next_weight [of X sources]
  by (auto simp: merge_step_def leave_simps split: prod.splits option.splits sum.splits)

lemma thread_step_rank:
  assumes "shutdown (compaction (eng s))" and "thread_step X (thread s) s = Some s'"
  shows "rank X s' (thread s') < rank X s (thread s) \<and> shutdown (compaction (eng s'))"
proof (cases "thread s")
  case (Merging inputs seq sources w fo)
  have "shutdown (compaction (eng (merge_step X inputs seq sources w fo s)))"
    using assms(1) by (auto simp: merge_step_def leave_simps split: prod.splits option.splits sum.splits)
  with merge_step_rank [of X inputs seq sources w fo s] assms(2) Merging show ?thesis by simp
next
  case (Swapping inputs out)
  have "compaction (eng (swap_step X inputs out s)) = compaction (eng s)"
    using compact_swap_fields(4) by (auto simp: swap_step_def leave_simps split: prod.splits sum.splits)
  moreover have "rank X s' (thread s') < 5"
    using assms(2) Swapping by (auto simp: swap_step_def leave_simps split: prod.splits sum.splits)
  ultimately show ?thesis using assms Swapping by simp
qed (use assms in \<open>auto simp: wait_step_def claim_step_def snapshot_step_def compact_snapshot_def reserve_step_def
    seal_step_def report_step_def leave_simps set_state_def Let_def split: if_splits prod.splits sum.splits\<close>)

lemma ticks_exit:
  "shutdown (compaction (eng s)) \<Longrightarrow> rank X s (thread s) \<le> n \<Longrightarrow> thread (ticks X n s) = Exited"
proof (induction n arbitrary: s)
  case 0
  then show ?case by (cases "thread s") simp_all
next
  case (Suc n)
  show ?case
  proof (cases "thread_step X (thread s) s")
    case None
    with Suc.prems thread_blocked [of X s] show ?thesis by simp
  next
    case (Some s')
    with thread_step_rank [OF Suc.prems(1) Some] Suc show ?thesis by simp
  qed
qed

section \<open>The steps of the thread add up to \<open>compact_inner\<close>\<close>

definition reaches :: "'f externals \<Rightarrow> 'f sys \<Rightarrow> 'f sys \<Rightarrow> bool" where
  "reaches X s s' \<longleftrightarrow> (\<exists>n. ticks X n s = s')"

lemma ticks_add: "ticks X (m + n) s = ticks X n (ticks X m s)"
proof (induction m arbitrary: s)
  case (Suc m)
  show ?case
  proof (cases "thread_step X (thread s) s")
    case None
    then show ?thesis by (cases n) simp_all
  next
    case (Some s')
    with Suc show ?thesis by simp
  qed
qed simp

lemma reaches_refl: "reaches X s s"
  unfolding reaches_def by (rule exI [of _ 0]) simp

lemma reaches_step:
  assumes "thread_step X (thread s) s = Some s1" and "reaches X s1 s'"
  shows "reaches X s s'"
proof -
  from assms(2) obtain n where "ticks X n s1 = s'" by (auto simp: reaches_def)
  with assms(1) have "ticks X (Suc n) s = s'" by simp
  then show ?thesis unfolding reaches_def by blast
qed

lemma reaches_trans: "reaches X s s1 \<Longrightarrow> reaches X s1 s' \<Longrightarrow> reaches X s s'"
  unfolding reaches_def using ticks_add by metis

lemma leave_nothing:
  assumes "\<forall>t \<in> set hs. run_id t \<notin> set (dead s)"
  shows "leave hs r s = s\<lparr>thread := Releasing r\<rparr>"
proof -
  have "filter (\<lambda>t. run_id t \<in> set (dead s) \<and> P t) hs = []" for P using assms by (simp add: filter_empty_conv)
  then show ?thesis by (simp add: leave_def release_def drop_inputs_def)
qed

lemma merge_run:
  assumes "thread s = Merging inputs seq sources w fo" and "\<forall>t \<in> set inputs. run_id t \<notin> set (dead s)"
  shows "reaches X s (case compact_loop X sources (w, fo) (disk (eng s)) of
      (Inl err, d) \<Rightarrow> s\<lparr>eng := (eng s)\<lparr>disk := d\<rparr>, thread := Releasing (Inl err)\<rparr>
    | (Inr (w, fo), d) \<Rightarrow> s\<lparr>eng := (eng s)\<lparr>disk := d\<rparr>, thread := Sealing inputs seq w fo\<rparr>)"
  using assms
proof (induction "src.weight X sources" arbitrary: sources w fo s rule: less_induct)
  case less
  note step = compact_loop.simps [of X sources "(w, fo)" "disk (eng s)"]
  obtain o' s1 where nx: "merge_next X sources = (o', s1)" by fastforce
  consider "o' = None" | err where "o' = Some (Inl err)" | k v where "o' = Some (Inr (k, v))"
    by (metis option.exhaust sum.exhaust prod.exhaust)
  then show ?case
  proof cases
    case 1
    with nx less.prems show ?thesis
      by (intro reaches_step [OF _ reaches_refl]) (simp add: merge_step_def step)
  next
    case (2 err)
    with nx less.prems show ?thesis
      by (intro reaches_step [OF _ reaches_refl]) (simp add: merge_step_def step leave_nothing)
  next
    case (3 k v)
    obtain r d where p: "writer_push X w k (Value v) (disk (eng s)) = (r, d)" by fastforce
    show ?thesis
    proof (cases r)
      case (Inl err)
      with 3 nx p less.prems show ?thesis
        by (intro reaches_step [OF _ reaches_refl]) (simp add: merge_step_def step leave_nothing)
    next
      case (Inr w')
      let ?s = "s\<lparr>eng := (eng s)\<lparr>disk := d\<rparr>, thread := Merging inputs seq s1 w' (filter_add X fo k)\<rparr>"
      have t: "thread_step X (thread s) s = Some ?s" using 3 nx p Inr less.prems by (simp add: merge_step_def)
      have "reaches X ?s (case compact_loop X s1 (w', filter_add X fo k) (disk (eng ?s)) of
          (Inl err, d) \<Rightarrow> ?s\<lparr>eng := (eng ?s)\<lparr>disk := d\<rparr>, thread := Releasing (Inl err)\<rparr>
        | (Inr (w, fo), d) \<Rightarrow> ?s\<lparr>eng := (eng ?s)\<lparr>disk := d\<rparr>, thread := Sealing inputs seq w fo\<rparr>)"
        using merge_next_weight nx 3 less.prems by (intro less.hyps) simp_all
      from reaches_step [OF t this] show ?thesis
        using 3 nx p Inr by (simp add: step split: prod.splits sum.splits)
    qed
  qed
qed

lemma seal_alone:
  assumes th: "thread s = Sealing inputs seq w fo" and alive: "\<forall>t \<in> set inputs. run_id t \<notin> set (dead s)"
  shows "reaches X s (case seal_run X ''install compacted run'' (run_filename seq @ ''.tmp'') (run_filename seq)
        (next_run_id (eng s)) (w, fo) (disk (eng s)) of
      (Inl err, d) \<Rightarrow> s\<lparr>eng := (eng s)\<lparr>disk := d\<rparr>, thread := Releasing (Inl err)\<rparr>
    | (Inr out, d) \<Rightarrow> s\<lparr>eng := (eng s)\<lparr>disk := d, next_run_id := next_run_id (eng s) + 1\<rparr>, thread := Swapping inputs out\<rparr>)"
  using th alive
  by (intro reaches_step [OF _ reaches_refl])
    (auto simp: seal_step_def Let_def leave_nothing split: prod.splits sum.splits)

lemma build_alone:
  assumes th: "thread s = Reserving inputs" and alive: "\<forall>t \<in> set inputs. run_id t \<notin> set (dead s)"
  shows "reaches X s (case compact_merge X inputs (eng s) of
      (Inl err, e) \<Rightarrow> s\<lparr>eng := e, thread := Releasing (Inl err)\<rparr>
    | (Inr out, e) \<Rightarrow> s\<lparr>eng := e, thread := Swapping inputs out\<rparr>)"
proof -
  let ?n = "next_seq (eng s)" and ?i = "next_run_id (eng s)"
  let ?name = "run_filename ?n" and ?fo = "builder X (compact_capacity inputs)" and ?src = "merge_new [] (map cursor_new inputs)"
  note defs = compact_merge_def compact_run_def Let_def act_then_def
  obtain rw d1 where wc: "writer_create (?name @ ''.tmp'') (disk (eng s)) = (rw, d1)" by fastforce
  show ?thesis
  proof (cases rw)
    case (Inl err)
    with th wc alive show ?thesis
      by (intro reaches_step [OF _ reaches_refl]) (simp add: reserve_step_def leave_nothing defs)
  next
    case (Inr w)
    let ?s = "s\<lparr>eng := (eng s)\<lparr>next_seq := ?n + 1, disk := d1\<rparr>, thread := Merging inputs ?n ?src w ?fo\<rparr>"
    have t: "thread_step X (thread s) s = Some ?s" using th wc Inr by (simp add: reserve_step_def Let_def)
    obtain rl d2 where cl: "compact_loop X ?src (w, ?fo) d1 = (rl, d2)" by fastforce
    have m: "reaches X ?s (case compact_loop X ?src (w, ?fo) (disk (eng ?s)) of
        (Inl err, d) \<Rightarrow> ?s\<lparr>eng := (eng ?s)\<lparr>disk := d\<rparr>, thread := Releasing (Inl err)\<rparr>
      | (Inr (w, fo), d) \<Rightarrow> ?s\<lparr>eng := (eng ?s)\<lparr>disk := d\<rparr>, thread := Sealing inputs ?n w fo\<rparr>)"
      by (rule merge_run) (use alive in simp_all)
    show ?thesis
    proof (cases rl)
      case (Inl err)
      with reaches_step [OF t m] cl wc Inr show ?thesis by (simp add: defs)
    next
      case Rl: (Inr p)
      obtain w' fo' where p: "p = (w', fo')" by fastforce
      let ?s3 = "s\<lparr>eng := (eng s)\<lparr>next_seq := ?n + 1, disk := d2\<rparr>, thread := Sealing inputs ?n w' fo'\<rparr>"
      have m3: "reaches X s ?s3" using reaches_step [OF t m] cl Rl p by simp
      show ?thesis
        using reaches_trans [OF m3 seal_alone [of ?s3 inputs ?n w' fo']] wc Inr cl Rl p alive
        by (simp add: defs split: prod.splits sum.splits)
    qed
  qed
qed

lemma swap_alone:
  assumes th: "thread s = Swapping inputs out" and alive: "\<forall>t \<in> set (out # inputs). run_id t \<notin> set (dead s)"
    and rd: "readers s = []" and id: "run_id out \<notin> run_id ` set inputs"
  shows "\<exists>dd. reaches X s (case compact_swap X inputs out (eng s) of
      (Inl err, e) \<Rightarrow> s\<lparr>eng := e, dead := dd, thread := Releasing (Inl err)\<rparr>
    | (Inr _, e) \<Rightarrow> s\<lparr>eng := drop_inputs inputs e, dead := dd, thread := Releasing (Inr ())\<rparr>)"
proof -
  obtain r e where cs: "compact_swap X inputs out (eng s) = (r, e)" by fastforce
  show ?thesis
  proof (cases r)
    case (Inl err)
    have "thread_step X (thread s) s = Some (s\<lparr>eng := e, thread := Releasing (Inl err)\<rparr>)"
      using th cs Inl alive by (simp add: swap_step_def leave_nothing)
    from reaches_step [OF this reaches_refl] have "reaches X s (s\<lparr>eng := e, dead := dead s, thread := Releasing (Inl err)\<rparr>)"
      by simp
    with cs Inl show ?thesis by (intro exI [of _ "dead s"]) simp
  next
    case (Inr x)
    let ?dd = "map run_id inputs @ dead s"
    let ?s = "s\<lparr>eng := e, dead := ?dd, thread := Dropping inputs\<rparr>" and ?t = "s\<lparr>eng := e, dead := ?dd, thread := Releasing (Inr ())\<rparr>"
    have "runs e = filter (\<lambda>r. \<not> (\<exists>i \<in> set inputs. ptr_eq i r)) (runs (eng s)) @ [out]"
      using cs Inr by (auto simp: compact_swap_def Let_def split: prod.splits sum.splits)
    then have "run_id ` set (held ?t) \<inter> run_id ` set inputs = {}"
      using rd id by (auto simp: held_def ptr_eq_def)
    then have "gone inputs ?t = inputs" by (auto simp: gone_def filter_id_conv)
    then have "leave inputs (Inr ()) ?s = ?t\<lparr>eng := drop_inputs inputs e\<rparr>"
      by (simp add: leave_def release_def gone_def)
    then have "thread_step X (thread ?s) ?s = Some (?t\<lparr>eng := drop_inputs inputs e\<rparr>)" by simp
    from reaches_step [OF _ reaches_step [OF this reaches_refl], of s]
    have "reaches X s (?t\<lparr>eng := drop_inputs inputs e\<rparr>)" using th cs Inr by (simp add: swap_step_def)
    moreover have "?t\<lparr>eng := drop_inputs inputs e\<rparr> = s\<lparr>eng := drop_inputs inputs e, dead := ?dd, thread := Releasing (Inr ())\<rparr>"
      by (cases s) simp
    ultimately show ?thesis using cs Inr by (intro exI [of _ ?dd]) simp
  qed
qed

lemma compact_merge_id: "compact_merge X inputs e = (Inr out, e') \<Longrightarrow> run_id out = next_run_id e"
  by (auto simp: compact_merge_def compact_run_def seal_run_def sstable_open_def attach_cache_def attach_filter_def Let_def
      elim!: act_then_InrE split: prod.splits sum.splits if_splits)

text \<open>
  Left alone, from the snapshot to the release of its flag, the thread does to the engine
  what the uninterrupted \<^verbatim>\<open>compact_inner\<close> does, result included.
\<close>

lemma round_alone:
  assumes inv: "sys_inv X s" and th: "thread s = Snapshotting" and rd: "readers s = []"
    and ci: "compact_inner X (eng s) = (r, e')"
  shows "\<exists>dd. reaches X s (s\<lparr>eng := e', dead := dd, thread := Releasing r\<rparr>)"
proof (cases "length (runs (eng s)) < 2")
  case True
  then have "reaches X s (s\<lparr>thread := Releasing (Inr ())\<rparr>)"
    using th by (intro reaches_step [OF _ reaches_refl]) (simp add: snapshot_step_def compact_snapshot_def)
  moreover have "r = Inr ()" "e' = eng s" using ci True by (simp_all add: compact_inner_def compact_snapshot_def)
  ultimately show ?thesis by (intro exI [of _ "dead s"]) simp
next
  case False
  let ?in = "runs (eng s)"
  have alive: "\<forall>t \<in> set ?in. run_id t \<notin> set (dead s)" and old: "\<forall>i \<in> set (dead s). i < next_run_id (eng s)"
    using inv by (auto simp: sys_inv_def flags_ok_def)
  have ids: "\<forall>t \<in> set ?in. run_id t < next_run_id (eng s)"
    using inv by (simp add: sys_inv_def store_inv_def engine_inv_def handles_ok_def)
  let ?s = "s\<lparr>thread := Reserving ?in\<rparr>"
  have t: "thread_step X (thread s) s = Some ?s" using th False by (simp add: snapshot_step_def compact_snapshot_def)
  note b = reaches_step [OF t build_alone [of ?s ?in X]]
  obtain rm e1 where cm: "compact_merge X ?in (eng s) = (rm, e1)" by fastforce
  show ?thesis
  proof (cases rm)
    case (Inl err)
    with b cm alive ci False show ?thesis
      by (intro exI [of _ "dead s"]) (simp add: compact_inner_def compact_snapshot_def)
  next
    case (Inr out)
    let ?s1 = "s\<lparr>eng := e1, thread := Swapping ?in out\<rparr>"
    have m: "reaches X s ?s1" using b cm Inr alive by simp
    have id: "run_id out = next_run_id (eng s)" using compact_merge_id cm Inr by blast
    have "run_id out \<notin> run_id ` set ?in" "run_id out \<notin> set (dead s)" using id ids old by auto
    with swap_alone [of ?s1 ?in out X] alive rd obtain dd where
      "reaches X ?s1 (case compact_swap X ?in out (eng ?s1) of
        (Inl err, e) \<Rightarrow> ?s1\<lparr>eng := e, dead := dd, thread := Releasing (Inl err)\<rparr>
      | (Inr _, e) \<Rightarrow> ?s1\<lparr>eng := drop_inputs ?in e, dead := dd, thread := Releasing (Inr ())\<rparr>)" by auto
    from reaches_trans [OF m this] ci cm Inr False show ?thesis
      by (intro exI [of _ dd]) (auto simp: compact_inner_def compact_snapshot_def split: prod.splits sum.splits)
  qed
qed

end
