(* ===== verification/Durable_Process.thy ===== *)
theory Durable_Process
  imports Crash_Safety Process
begin

text \<open>
  Power failures of the running process. \<^verbatim>\<open>durable X e\<close> says that the log on disk, forced
  to stable storage, replays over the live runs to exactly what the engine shows. Every
  step of every thread keeps it as long as no write has failed, so a failure of the power
  between any two steps loses no acknowledged write.
\<close>

definition durable :: "'f externals \<Rightarrow> 'f engine \<Rightarrow> bool" where
  "durable X e \<longleftrightarrow> (\<exists>groups. logged X e groups \<and> fs_lookup (disk e) WAL_FILE \<noteq> None)"

text \<open>The log replays to a buffer that fits one run, as the reopen flushes it.\<close>

definition replay_fits :: "'f externals \<Rightarrow> fs \<Rightarrow> bool" where
  "replay_fits X d \<longleftrightarrow> (\<forall>groups. log_found X d groups \<longrightarrow> sized (entries (apply_all (concat groups) memtable_new)))"

section \<open>Reopening\<close>

lemma durable_reopen:
  assumes s: "store_inv X e" and w: "wal_laws X" and du: "durable X e" and rf: "replay_fits X (disk e)"
    and cr: "crashes X (disk e) d" and rm: "room rid d (length (runs e))" and op: "open_with X cfg rid d = (Inr e', d')"
  shows "store_inv X e' \<and> view X e' = view X e"
proof -
  have X: "bloom_laws X" and inv: "engine_inv X e" using s by (simp_all add: store_inv_def)
  from du obtain groups where l: "log_found X (disk e) groups" "wal_synced (disk e)"
    and v: "replayed X groups (runs e) = view X e" by (auto simp: durable_def logged_def)
  have "sized (entries (apply_all (concat groups) memtable_new))" using rf l(1) by (simp add: replay_fits_def)
  from crash_reopen [OF X w inv l this cr rm op] v show ?thesis by simp
qed

section \<open>Writes and flushes\<close>

lemma flush_log_present:
  assumes on: "durability_on X" and wp: "wal_path (dur e) = WAL_FILE" and fl: "flush_locked X e = (Inr (), e')"
  shows "fs_lookup (disk e') WAL_FILE \<noteq> None"
proof -
  have "\<exists>d x. wal_open_file X WAL_FILE d = (Inr x, disk e')"
    using fl on wp by (auto simp: flush_locked_def Let_def rotate_log_def memtable_take_def signal_compaction_def
        split: prod.splits sum.splits if_splits)
  then obtain d x where "wal_open_file X WAL_FILE d = (Inr x, disk e')" by blast
  moreover have "fs_lookup d1 WAL_FILE \<noteq> None" if "wal_open_file X WAL_FILE d = (Inr x, d1)" for d1
    using that by (auto simp: wal_open_file_def split: option.splits sum.splits)
  ultimately show ?thesis by blast
qed

lemma durable_flush:
  assumes X: "bloom_laws X" and w: "wal_laws X" and on: "durability_on X" and inv: "engine_inv X e"
    and hr: "headroom e" and sz: "sized (entries (mem e))" and wp: "wal_path (dur e) = WAL_FILE"
    and du: "durable X e" and fl: "flush_locked X e = (Inr (), e')"
  shows "durable X e'"
proof -
  from du obtain groups where l: "logged X e groups" by (auto simp: durable_def)
  have "view X e' = view X e"
    using flush_locked_post [OF X inv hr sz wp] fl flushed_view [of X e e'] by (simp add: flush_post_def)
  with logged_flush [OF X w on inv hr sz wp l fl] flush_log_present [OF on wp fl] show ?thesis
    by (auto simp: durable_def logged_def)
qed

lemma durable_write:
  assumes X: "bloom_laws X" and w: "wal_laws X" and on: "durability_on X" and inv: "engine_inv X e"
    and ad: "admits_ops e ws" and lg: "loggable ws" and du: "durable X e" and wr: "write_ops X ws e = (Inr (), e')"
  shows "durable X e'"
proof -
  from du obtain groups where l: "logged X e groups" and p: "fs_lookup (disk e) WAL_FILE \<noteq> None"
    by (auto simp: durable_def)
  have wp: "wal_path (dur e) = WAL_FILE" using ad by (simp add: admits_ops_def)
  from logged_write [OF X w on inv ad lg l p wr] obtain gs where g: "logged X e' gs" by blast
  obtain d1 where lb: "log_batch X (dur e) ws (disk e) = (Inr (), d1)"
    and mf: "maybe_flush X (e\<lparr>disk := d1, mem := apply_all ws (mem e)\<rparr>) = (Inr (), e')"
    using wr by (auto simp: write_ops_def split: prod.splits sum.splits)
  have "logs X d1 (groups @ [ws])" by (rule log_batch_ok(1) [OF w on logged_logs [OF l on p] wp lb])
  then have p1: "fs_lookup d1 WAL_FILE \<noteq> None" by (auto simp: logs_def)
  have "fs_lookup (disk e') WAL_FILE \<noteq> None"
  proof (cases "maybe_flush X (e\<lparr>disk := d1, mem := apply_all ws (mem e)\<rparr>) = (Inr (), e\<lparr>disk := d1, mem := apply_all ws (mem e)\<rparr>)")
    case True
    with mf p1 show ?thesis by auto
  next
    case False
    with mf have "flush_locked X (e\<lparr>disk := d1, mem := apply_all ws (mem e)\<rparr>) = (Inr (), e')"
      by (simp add: maybe_flush_def split: if_splits)
    from flush_log_present [OF on _ this] wp show ?thesis by simp
  qed
  with g show ?thesis by (auto simp: durable_def)
qed

lemma durable_client:
  assumes s: "store_inv X e" and w: "wal_laws X" and on: "durability_on X" and ad: "admits_op X e a"
    and a: "a \<noteq> CompactOp" "loggable (op_records a)" and du: "durable X e" and r: "run_op X a e = (Inr (), e')"
  shows "durable X e'"
proof -
  have X: "bloom_laws X" and inv: "engine_inv X e" and aw: "admits_ops e (op_records a)"
    using s ad by (simp_all add: store_inv_def admits_op_def)
  show ?thesis
  proof (cases "a = FlushOp")
    case True
    have "headroom e" "sized (entries (mem e))" "wal_path (dur e) = WAL_FILE"
      using aw True by (simp_all add: admits_ops_def)
    from durable_flush [OF X w on inv this du] r True du show ?thesis
      by (auto simp: engine_flush_def split: if_splits)
  next
    case False
    then have "run_op X a e = write_ops X (op_records a) e" using a(1) by (cases a) (simp_all add: writes_are_write_ops)
    with durable_write [OF X w on inv aw a(2) du] r show ?thesis by simp
  qed
qed

section \<open>The compactor\<close>

text \<open>
  The thread does not look at the buffer: it takes the same step whatever the buffer
  holds. With an empty one, that no step of it changes the view says that none changes
  what the runs show.
\<close>

definition rebuffer :: "memtable \<Rightarrow> 'f sys \<Rightarrow> 'f sys" where
  "rebuffer m s = s\<lparr>eng := (eng s)\<lparr>mem := m\<rparr>\<rparr>"

lemma rebuffer_simps [simp]:
  "thread (rebuffer m s) = thread s" "held (rebuffer m s) = held s" "dead (rebuffer m s) = dead s"
  "readers (rebuffer m s) = readers s" "closed (rebuffer m s) = closed s"
  "runs (eng (rebuffer m s)) = runs (eng s)" "disk (eng (rebuffer m s)) = disk (eng s)"
  "next_seq (eng (rebuffer m s)) = next_seq (eng s)" "next_run_id (eng (rebuffer m s)) = next_run_id (eng s)"
  "compaction (eng (rebuffer m s)) = compaction (eng s)" "compacting (eng (rebuffer m s)) = compacting (eng s)"
  "cache (eng (rebuffer m s)) = cache (eng s)"
  by (simp_all add: rebuffer_def held_def)

lemma rebuffer_release: "release hs (rebuffer m s) = rebuffer m (release hs s)"
  by (simp add: release_def) (simp add: rebuffer_def drop_inputs_def)

lemma rebuffer_leave: "leave hs r (rebuffer m s) = rebuffer m (leave hs r s)"
proof -
  have "(rebuffer m s)\<lparr>thread := Releasing r\<rparr> = rebuffer m (s\<lparr>thread := Releasing r\<rparr>)" by (simp add: rebuffer_def)
  then show ?thesis by (simp add: leave_def rebuffer_release)
qed

lemma rebuffer_disk:
  "(rebuffer m s)\<lparr>eng := (eng (rebuffer m s))\<lparr>disk := d\<rparr>\<rparr> = rebuffer m (s\<lparr>eng := (eng s)\<lparr>disk := d\<rparr>\<rparr>)"
  "(rebuffer m s)\<lparr>eng := (eng (rebuffer m s))\<lparr>next_seq := n, disk := d\<rparr>\<rparr>
     = rebuffer m (s\<lparr>eng := (eng s)\<lparr>next_seq := n, disk := d\<rparr>\<rparr>)"
  by (simp_all add: rebuffer_def)

lemma rebuffer_step: "thread_step X (thread s) (rebuffer m s) = map_option (rebuffer m) (thread_step X (thread s) s)"
proof (cases "thread s")
  case Waiting
  then show ?thesis by (simp add: wait_step_def Let_def) (simp add: rebuffer_def set_state_def)
next
  case Claiming
  then show ?thesis by (simp add: claim_step_def) (simp add: rebuffer_def)
next
  case Snapshotting
  then show ?thesis
    by (simp add: snapshot_step_def compact_snapshot_def) (simp add: rebuffer_def)
next
  case (Reserving inputs)
  then show ?thesis
    by (simp add: reserve_step_def Let_def rebuffer_disk rebuffer_leave split: prod.splits sum.splits) (simp add: rebuffer_def)
next
  case (Merging inputs seq sources w fo)
  then show ?thesis
    by (simp add: merge_step_def rebuffer_disk rebuffer_leave split: prod.splits sum.splits option.splits) (simp add: rebuffer_def)
next
  case (Sealing inputs seq w fo)
  then show ?thesis
    by (simp add: seal_step_def Let_def rebuffer_disk rebuffer_leave split: prod.splits sum.splits) (simp add: rebuffer_def)
next
  case (Swapping inputs out)
  obtain r e where cs: "compact_swap X inputs out (eng s) = (r, e)" by fastforce
  have "compact_swap X inputs out (eng (rebuffer m s)) = (r, e\<lparr>mem := m\<rparr>)"
    using cs by (auto simp: compact_swap_def rebuffer_def Let_def split: prod.splits sum.splits)
  moreover have "(rebuffer m s)\<lparr>eng := e\<lparr>mem := m\<rparr>\<rparr> = rebuffer m (s\<lparr>eng := e\<rparr>)" by (simp add: rebuffer_def)
  ultimately show ?thesis using cs Swapping
    by (simp add: swap_step_def rebuffer_leave split: sum.splits) (simp add: rebuffer_def)
next
  case (Releasing r)
  then show ?thesis by simp (simp add: rebuffer_def)
next
  case (Reporting r)
  then show ?thesis by (simp add: report_step_def Let_def) (simp add: rebuffer_def set_state_def split: sum.splits)
qed (simp_all add: rebuffer_leave)

lemma rebuffer_inv:
  assumes "sys_inv X s"
  shows "sys_inv X (rebuffer memtable_new s)"
proof -
  have "engine_inv X (eng (rebuffer memtable_new s))"
    using assms memtable_new_inv by (simp add: sys_inv_def store_inv_def engine_inv_def rebuffer_def memtable_new_def)
  moreover have "thread_inv X (rebuffer memtable_new s) (thread s)"
    by (rule thread_inv_still) (use assms thread_held [of s] in \<open>simp_all add: sys_inv_def\<close>)
  ultimately show ?thesis
    using assms by (simp add: sys_inv_def store_inv_def flags_ok_def readers_ok_def fleet_ok_def)
qed

lemma view_rebuffer: "view X (eng (rebuffer memtable_new s)) = resolve (map (run_entries X) (runs (eng s)))"
  by (simp add: view_def rebuffer_def memtable_new_def memtable_iter_def resolve_Cons fun_eq_iff)

lemma tick_runs:
  assumes inv: "sys_inv X s" and ad: "admissible X s Tick" and st: "thread_step X (thread s) s = Some s'"
  shows "resolve (map (run_entries X) (runs (eng s'))) = resolve (map (run_entries X) (runs (eng s)))"
proof -
  let ?s = "rebuffer memtable_new s" and ?s' = "rebuffer memtable_new s'"
  have "admissible X ?s Tick" using ad by (simp add: admissible_def headroom_def)
  moreover have "thread_step X (thread ?s) ?s = Some ?s'" using st by (simp add: rebuffer_step)
  ultimately have "kept X ?s ?s'" by (rule tick_ok [OF rebuffer_inv [OF inv]])
  then show ?thesis by (simp add: kept_def view_rebuffer)
qed

text \<open>Nor does the thread touch the log.\<close>

lemma run_log_apart: "touches (run_names (run_filename q)) d d' \<Longrightarrow> fs_lookup d' WAL_FILE = fs_lookup d WAL_FILE"
  using touchesD run_names_fixed(3) by blast

lemma release_log:
  assumes "\<forall>t \<in> set hs. \<exists>q. tbl_path t = run_filename q"
  shows "fs_lookup (disk (eng (release hs s))) WAL_FILE = fs_lookup (disk (eng s)) WAL_FILE"
proof -
  let ?gone = "gone hs s"
  have "WAL_FILE \<noteq> tbl_path t \<and> WAL_FILE \<noteq> sidecar_path (tbl_path t)" if t: "t \<in> set ?gone" for t
  proof -
    from t assms obtain q where q: "tbl_path t = run_filename q" by (auto simp: gone_def)
    show ?thesis unfolding q using run_names_fixed(3) [of q] sidecar_run_names [of "run_filename q"] by metis
  qed
  then have "fs_lookup (disk (drop_inputs ?gone (eng s))) WAL_FILE = fs_lookup (disk (eng s)) WAL_FILE"
    using touchesD [OF drop_inputs_touches [of ?gone "eng s"], of WAL_FILE] by blast
  then show ?thesis by (simp add: release_eng)
qed

lemma leave_log:
  "\<forall>t \<in> set hs. \<exists>q. tbl_path t = run_filename q \<Longrightarrow>
     fs_lookup (disk (eng (leave hs r s))) WAL_FILE = fs_lookup (disk (eng s)) WAL_FILE"
  by (simp add: leave_def release_log)

lemma tick_log:
  assumes inv: "sys_inv X s" and st: "thread_step X (thread s) s = Some s'"
  shows "fs_lookup (disk (eng s')) WAL_FILE = fs_lookup (disk (eng s)) WAL_FILE"
proof -
  have names: "\<forall>t \<in> set (thread_handles (thread s)). \<exists>q. tbl_path t = run_filename q"
    using inv thread_held [of s] by (auto simp: sys_inv_def fleet_ok_def)
  show ?thesis
  proof (cases "thread s")
    case (Reserving inputs)
    obtain r d where "writer_create (run_filename (next_seq (eng s)) @ ''.tmp'') (disk (eng s)) = (r, d)" by fastforce
    moreover from this have "fs_lookup d WAL_FILE = fs_lookup (disk (eng s)) WAL_FILE"
      by (intro run_log_apart writer_touches act_keepsD [OF writer_create_keeps]) simp_all
    ultimately show ?thesis
      using st Reserving names by (cases r) (auto simp: reserve_step_def Let_def leave_log)
  next
    case (Merging inputs seq sources w fo)
    have "w_path w = run_filename seq @ ''.tmp''" using inv Merging by (simp add: sys_inv_def copied_def)
    then have "fs_lookup d WAL_FILE = fs_lookup (disk (eng s)) WAL_FILE"
      if "writer_push X w k v (disk (eng s)) = (r, d)" for k v r d
      using act_keepsD [OF writer_push_keeps that] by (intro run_log_apart writer_touches) simp_all
    then show ?thesis
      using st Merging names by (auto simp: merge_step_def leave_log split: prod.splits sum.splits option.splits)
  next
    case (Sealing inputs seq w fo)
    have wp: "w_path w = run_filename seq @ ''.tmp''" using inv Sealing by (simp add: sys_inv_def copied_def)
    obtain r d where sl: "seal_run X ''install compacted run'' (run_filename seq @ ''.tmp'') (run_filename seq)
        (next_run_id (eng s)) (w, fo) (disk (eng s)) = (r, d)" by fastforce
    from act_keepsD [OF seal_run_touches [OF wp] sl] have "touches (run_names (run_filename seq)) (disk (eng s)) d"
      by (rule touches_mono) (auto simp: names_of_run sidecar_run_names)
    then have "fs_lookup d WAL_FILE = fs_lookup (disk (eng s)) WAL_FILE" by (rule run_log_apart)
    with sl show ?thesis
      using st Sealing names by (cases r) (auto simp: seal_step_def Let_def leave_log)
  next
    case (Swapping inputs out)
    have "fs_lookup (disk e) WAL_FILE = fs_lookup (disk (eng s)) WAL_FILE"
      if "compact_swap X inputs out (eng s) = (r, e)" for r e
      using that touchesD [OF act_keepsD [OF manifest_store_keeps]]
      by (auto simp: compact_swap_def Let_def WAL_FILE_def MANIFEST_def MANIFEST_TMP_def split: prod.splits sum.splits)
    moreover have "\<forall>t \<in> set (out # inputs). \<exists>q. tbl_path t = run_filename q" using names Swapping by simp
    note leave_log [OF this]
    ultimately show ?thesis
      using st Swapping by (auto simp: swap_step_def split: prod.splits sum.splits)
  qed (use st names in \<open>auto simp: wait_step_def claim_step_def snapshot_step_def report_step_def set_state_def leave_log Let_def
      split: if_splits option.splits sum.splits\<close>)
qed

lemma tick_mem: "thread_step X (thread s) s = Some s' \<Longrightarrow> mem (eng s') = mem (eng s)"
proof -
  assume st: "thread_step X (thread s) s = Some s'"
  have "rebuffer (mem (eng s)) s = s" by (simp add: rebuffer_def)
  with rebuffer_step [of X s "mem (eng s)"] st have "s' = rebuffer (mem (eng s)) s'" by simp
  then have "mem (eng s') = mem (eng (rebuffer (mem (eng s)) s'))" by simp
  then show ?thesis by (simp add: rebuffer_def)
qed

section \<open>Executions\<close>

lemma durable_cong:
  assumes "fs_lookup (disk e') WAL_FILE = fs_lookup (disk e) WAL_FILE" and "mem e' = mem e"
    and "resolve (map (run_entries X) (runs e')) = resolve (map (run_entries X) (runs e))"
  shows "durable X e' = durable X e"
proof -
  have "resolve (m # map (run_entries X) (runs e')) = resolve (m # map (run_entries X) (runs e))" for m
    by (rule ext) (simp only: resolve_Cons assms(3))
  then show ?thesis
    using log_found_cong [OF assms(1), of X] wal_synced_cong [OF assms(1)] assms(1,2)
    by (simp add: durable_def logged_def replayed_def view_def)
qed

lemma durable_end_read:
  assumes "\<forall>t \<in> set hs. \<exists>q. tbl_path t = run_filename q"
  shows "durable X (eng (end_read i hs s)) = durable X (eng s)"
  using release_log [OF assms, of "s\<lparr>readers := filter (\<lambda>r. fst r \<noteq> i) (readers s)\<rparr>"]
  by (intro durable_cong) (simp_all add: end_read_def release_eng drop_inputs_fields)

lemma durable_get_step:
  assumes hs: "\<forall>t \<in> set hs. \<exists>q. tbl_path t = run_filename q" and st: "get_step X i k hs rest s = (ev, s')"
  shows "durable X (eng s') = durable X (eng s)"
proof -
  have c: "durable X ((eng s)\<lparr>cache := c\<rparr>) = durable X (eng s)" for c by (rule durable_cong) simp_all
  show ?thesis
    using st durable_end_read [OF hs, of X i] c
    by (auto simp: get_step_def keep_reading_def Let_def
        split: list.splits if_splits prod.splits sum.splits option.splits record_v.splits)
qed

lemma durable_step:
  assumes inv: "sys_inv X s" and ad: "admissible X s a" and st: "sys_step X s a ev s'" and w: "wal_laws X"
    and on: "durability_on X" and lg: "\<And>op. a = Client op \<Longrightarrow> loggable (op_records op)" and ok: "\<not> failed ev"
    and du: "durable X (eng s)"
  shows "durable X (eng s')"
proof -
  have hs: "\<forall>t \<in> set (reader_handles r). \<exists>q. tbl_path t = run_filename q" if "map_of (readers s) i = Some r" for i r
    using inv reader_held [OF that] by (auto simp: sys_inv_def fleet_ok_def)
  show ?thesis
    using st
  proof (cases rule: sys_step.cases)
    case (client op r e)
    with inv ad ok lg durable_client [OF _ w on _ _ _ du, of op e] show ?thesis
      by (simp add: sys_inv_def admissible_def)
  next
    case (get i k)
    with du show ?thesis by (auto simp: begin_get_def split: option.splits record_v.splits)
  next
    case (scan i rng)
    with du show ?thesis by (simp add: begin_scan_def Let_def)
  next
    case (get_more i k hs' rest)
    with durable_get_step [OF _ get_more(3)] hs [OF get_more(2)] du show ?thesis by simp
  next
    case (scan_end i rng m hs')
    with durable_end_read [of hs' X i s] hs [OF scan_end(4)] du show ?thesis by simp
  next
    case compactor
    with tick_runs [OF inv] tick_log [OF inv] tick_mem ad du durable_cong show ?thesis by metis
  next
    case close
    have "durable X (eng s') = durable X (eng s)" by (rule durable_cong) (simp_all add: close set_state_def)
    with du show ?thesis by simp
  qed
qed

lemma exec_durable:
  assumes w: "wal_laws X" and on: "durability_on X"
  shows "exec X s tr s' \<Longrightarrow> sys_inv X s \<Longrightarrow> durable X (eng s) \<Longrightarrow> \<forall>(a, ev) \<in> set tr. \<not> failed ev \<Longrightarrow>
     \<forall>op ev. (Client op, ev) \<in> set tr \<longrightarrow> loggable (op_records op) \<Longrightarrow> durable X (eng s')"
proof (induction rule: exec.induct)
  case (exec_Cons s a ev s' tr s'')
  have "durable X (eng s')"
    by (rule durable_step [OF exec_Cons.prems(1) exec_Cons.hyps(1,2) w on]) (use exec_Cons.prems in auto)
  moreover have "sys_inv X s'" by (rule step_ok(1) [OF exec_Cons.prems(1) exec_Cons.hyps(1,2)])
  ultimately show ?case using exec_Cons.IH exec_Cons.prems(3,4) by auto
qed simp

section \<open>From open to open\<close>

lemma open_files_synced:
  assumes w: "wal_laws X" and on: "durability_on X" and op: "open_files X cfg rid d = (Inr e, d')"
  shows "wal_synced d' \<and> fs_lookup d' WAL_FILE \<noteq> None"
proof -
  from open_files_steps [OF op] obtain d4 du d5 m
    where o: "durability_open X d4 = (Inr du, d5)" and r: "replay_log X du memtable_new d5 = (Inr m, d')" by metis
  from o on have "\<exists>x. wal_open_file X WAL_FILE d4 = (Inr x, d5)"
    by (auto simp: durability_open_def act_map_err_Inr_iff elim!: act_then_InrE)
  then have "wal_synced d5 \<and> fs_lookup d5 WAL_FILE \<noteq> None"
    using w by (auto simp: wal_laws_def wal_open_file_def wal_synced_def split: option.splits sum.splits)
  with touchesD [OF act_keepsD [OF replay_log_keeps r], of WAL_FILE] show ?thesis by (simp add: wal_synced_def)
qed

lemma open_files_idle:
  "open_files X cfg rid d = (Inr e, d') \<Longrightarrow> compacting e = False \<and> compaction e = compaction_default"
  by (auto simp: open_files_def Let_def elim!: act_then_InrE)

text \<open>
  A store just opened: the process starts in its invariant, the map is the replay of the
  log over the runs, and with the log feature on the state is durable.
\<close>

lemma open_started:
  assumes X: "bloom_laws X" and w: "wal_laws X" and oa: "openable X rid d rs groups"
    and sz: "sized (entries (apply_all (concat groups) memtable_new))" and op: "open_with X cfg rid d = (Inr e, d')"
  shows "sys_inv X (started e)" "view X e = replayed X groups rs" "durability_on X \<Longrightarrow> durable X e"
proof -
  from op obtain e0 d0 e1 where o1: "open_files X cfg rid d = (Inr e0, d0)"
    and fl: "engine_flush X e0 = (Inr (), e1)" and e: "e = e1\<lparr>disk := tick (disk e1)\<rparr>"
    by (auto simp: open_with_def fs_call_def split: prod.splits sum.splits option.splits)
  note of = open_files_ok [OF X w oa o1] and idle = open_files_idle [OF o1]
  have e0: "engine_inv X e0" "headroom e0" "sized (entries (mem e0))" "wal_path (dur e0) = WAL_FILE"
    using of sz by (simp_all add: wal_ready_def)
  have "same_flags e0 e1"
    using fl flush_frame [OF X e0] by (auto simp: engine_flush_def client_frame_def same_flags_def split: if_splits)
  with idle have flags: "compacting e = False" "running (compaction e) = False" "shutdown (compaction e) = False"
    by (simp_all add: same_flags_def e compaction_default_def)
  note ow = open_with_ok [OF X w oa sz op]
  from ow show "view X e = replayed X groups rs" by simp
  show "sys_inv X (started e)" by (rule started_inv) (use ow X flags in \<open>simp_all add: store_inv_def\<close>)
  show "durable X e" if on: "durability_on X"
  proof -
    have "\<forall>g \<in> set groups. loggable g" using oa by (simp add: openable_def log_found_def)
    then have "durable X e0"
      using of on open_files_synced [OF w on o1] unfolding durable_def logged_def log_found_def replayed_def by auto
    with fl durable_flush [OF X w on e0] have "durable X e1" by (auto simp: engine_flush_def split: if_splits)
    moreover have "durable X e = durable X e1" by (rule durable_cong) (simp_all add: e)
    ultimately show ?thesis by simp
  qed
qed

lemma log_found_unique:
  assumes "log_found X d gs" and "log_found X d gs'"
  shows "gs = gs'"
proof (cases "durability_on X \<and> fs_lookup d WAL_FILE \<noteq> None")
  case True
  then obtain f where "wal_iter X (fdata f) = Inr (map Inr (map log_encode gs))"
    "wal_iter X (fdata f) = Inr (map Inr (map log_encode gs'))"
    using assms by (auto simp: log_found_def logs_def holds_records_def)
  then have "map log_encode gs = map log_encode gs'" by (metis inj_map_eq_map inj_Inr sum.inject(2))
  moreover have "inj_on log_encode (set gs \<union> set gs')"
  proof (rule inj_onI)
    fix x y assume "x \<in> set gs \<union> set gs'" "y \<in> set gs \<union> set gs'" "log_encode x = log_encode y"
    moreover from this assms have "loggable x" "loggable y" by (auto simp: log_found_def)
    ultimately show "x = y" using log_roundtrip by (metis sum.inject(2))
  qed
  ultimately show ?thesis by (simp add: inj_on_map_eq_map)
next
  case False
  with assms show ?thesis by (auto simp: log_found_def logs_def split: if_splits)
qed

lemma durable_reopens:
  assumes s: "store_inv X e" and w: "wal_laws X" and pc: "pc_total X" and du: "durable X e" and rf: "replay_fits X (disk e)"
    and cr: "crashes X (disk e) d" and ff: "fault_free d" and rm: "room rid d (length (runs e))"
  shows "\<exists>e' d'. open_with X cfg rid d = (Inr e', d') \<and> store_inv X e' \<and> view X e' = view X e"
proof -
  have X: "bloom_laws X" and inv: "engine_inv X e" using s by (simp_all add: store_inv_def)
  from du obtain groups where l: "log_found X (disk e) groups" "wal_synced (disk e)" by (auto simp: durable_def logged_def)
  have "recoverable X (disk e) (runs e)" using inv disk_ok_recoverable by (auto simp: engine_inv_def)
  from crash_openable [OF this l cr rm] have oa: "openable X rid d (runs e) groups" .
  have "sized (entries (apply_all (concat groups) memtable_new))" using rf l(1) by (simp add: replay_fits_def)
  from open_with_total [OF ff X w pc oa this, of cfg] obtain e' d' where "open_with X cfg rid d = (Inr e', d')" by blast
  with durable_reopen [OF s w du rf cr rm this] show ?thesis by blast
qed

lemma recovers_reopen:
  assumes s: "store_inv X e" and w: "wal_laws X" and rc: "recovers X e m" and rm: "room rid (disk e) (length (runs e))"
    and rf: "replay_fits X (disk e)" and op: "open_with X cfg rid (disk e) = (Inr e', d')"
  shows "view X e' = m"
proof -
  have X: "bloom_laws X" and inv: "engine_inv X e" using s by (simp_all add: store_inv_def)
  from rc obtain groups where l: "log_found X (disk e) groups" and m: "replayed X groups (runs e) = m"
    by (auto simp: recovers_def)
  have "recoverable X (disk e) (runs e)" using inv disk_ok_recoverable by (auto simp: engine_inv_def)
  with l rm have "openable X rid (disk e) (runs e) groups" by (simp add: openable_def room_def)
  from open_with_ok [OF X w this _ op] rf l m show ?thesis by (simp add: replay_fits_def)
qed

lemma rotate_empties:
  assumes "durability_on X" and "wal_laws X" and "wal_path du = WAL_FILE" and "fault_free d" and "rotate_log X du d = (Inr x, du', d')"
  shows "logs X d' [] \<and> wal_synced d'"
proof -
  obtain r1 d1 where rm: "fs_remove_file WAL_FILE d = (r1, d1)" by fastforce
  have "fs_lookup d1 WAL_FILE = None" using rm assms(4) by (auto simp: fs_remove_file_def split: option.splits)
  moreover obtain y where op: "wal_open_file X WAL_FILE d1 = (Inr y, d')"
    using assms rm by (auto simp: rotate_log_def Let_def split: if_splits sum.splits prod.splits)
  ultimately have "logs X d' []" by (intro wal_open_logs(1) [OF assms(2)])
  moreover have "wal_synced d'" using op assms(2) by (auto simp: wal_laws_def wal_open_file_def wal_synced_def split: option.splits sum.splits)
  ultimately show ?thesis by simp
qed

text \<open>A successful flush on a disk without faults makes any state durable: what the engine shows is what is on disk.\<close>

lemma flush_log_empty:
  assumes on: "durability_on X" and w: "wal_laws X" and wp: "wal_path (dur e) = WAL_FILE"
    and ff: "fault_free (disk e)" and fl: "flush_locked X e = (Inr (), e')"
  shows "logs X (disk e') [] \<and> wal_synced (disk e')"
proof -
  let ?n = "next_seq e"
  note defs = flush_locked_def Let_def memtable_take_def memtable_iter_def
  from fl obtain t d1 where fr: "flush_run X (run_filename ?n) (next_run_id e) (memtable_iter (mem e)) (disk e) = (Inr t, d1)"
    by (auto simp: defs split: prod.splits sum.splits)
  with fl obtain d2 where ms: "manifest_store (?n + 1) (map file_name (t # runs e)) d1 = (Inr (), d2)"
    by (auto simp: defs split: prod.splits sum.splits)
  with fl fr obtain x du d3 where ro: "rotate_log X (dur e) d2 = (Inr x, du, d3)" and d3: "disk e' = d3"
    by (auto simp: defs signal_compaction_def split: prod.splits sum.splits if_splits)
  have "fault_free d1" using fault_free_touches [OF flush_run_touches [OF fr]] ff by simp
  then have "fault_free d2" by (rule fault_free_keeps [OF manifest_store_keeps ms])
  from rotate_empties [OF on w wp this ro] d3 show ?thesis by simp
qed

lemma flush_makes_durable:
  assumes X: "bloom_laws X" and w: "wal_laws X" and on: "durability_on X" and inv: "engine_inv X e"
    and hr: "headroom e" and sz: "sized (entries (mem e))" and wp: "wal_path (dur e) = WAL_FILE"
    and ff: "fault_free (disk e)" and fl: "flush_locked X e = (Inr (), e')"
  shows "durable X e' \<and> view X e' = view X e"
proof -
  note l = flush_log_empty [OF on w wp ff fl]
  have p: "flush_post X e (Inr (), e')" using flush_locked_post [OF X inv hr sz wp] fl by simp
  then have "memtable_iter (mem e') = []" by (simp add: flush_post_def memtable_is_empty_def memtable_iter_def)
  then have "replayed X [] (runs e') = view X e'" by (simp add: replayed_def view_def memtable_new_def memtable_iter_def)
  moreover have "fs_lookup (disk e') WAL_FILE \<noteq> None" using l by (auto simp: logs_def)
  ultimately have "durable X e'"
    using l on unfolding durable_def logged_def log_found_def by (intro exI [of _ "[]"]) simp
  moreover have "view X e' = view X e" using p flushed_view [of X e e'] by (simp add: flush_post_def)
  ultimately show ?thesis by simp
qed

text \<open>After a flush that failed before the new run was in the list, the buffered writes show nowhere.\<close>

lemma flush_failed_view:
  assumes "store_inv X e" and "admits_op X e FlushOp" and "flush_locked X e = (Inl err, e')" and "runs e' = runs e"
  shows "store_inv X e'" "view X e' = resolve (map (run_entries X) (runs e))" "memtable_is_empty (mem e')"
proof -
  have "flush_post X e (flush_locked X e)"
    using assms(1,2) by (intro flush_locked_post) (simp_all add: store_inv_def admits_op_def admits_ops_def)
  then show i: "store_inv X e'" and m: "memtable_is_empty (mem e')"
    using assms(1,3) by (simp_all add: flush_post_def store_inv_def)
  then show "view X e' = resolve (map (run_entries X) (runs e))"
    using assms(4) by (simp add: view_def memtable_is_empty_def memtable_iter_def resolve_Cons fun_eq_iff)
qed

end
