(* ===== verification/Instances.thy ===== *)
theory Instances
  imports Durable_Process
begin

text \<open>
  A concrete choice of the external crates and a concrete store, on which the
  properties with hypotheses are applied: the laws assumed of checksum, filter and log
  hold for it, and the store is reached from an empty directory by real operations.

  The filter is the list of the keys added to it. A log file, and a serialised filter, hold
  each record or key as its bytes, each behind a one, closed by a zero.
\<close>

fun unframe :: "bytes \<Rightarrow> bytes \<Rightarrow> bytes list" where
  "unframe acc [] = []"
| "unframe acc [x] = (if x = 0 then [rev acc] else [])"
| "unframe acc (x # b # rest) = (if x = 0 then rev acc # unframe [] (b # rest) else unframe (b # acc) rest)"

definition frame :: "bytes \<Rightarrow> bytes" where
  "frame r = concat (map (\<lambda>b. [1, b]) r) @ [0]"

lemma unframe_frame: "unframe acc (frame r @ rest) = rev (rev r @ acc) # unframe [] rest"
proof (induction r arbitrary: acc)
  case Nil
  then show ?case by (cases rest) (simp_all add: frame_def)
next
  case (Cons b r)
  then show ?case by (simp add: frame_def)
qed

lemma unframe_frames: "unframe [] (concat (map frame rs)) = rs"
  by (induction rs) (simp_all add: unframe_frame)

definition demo :: "bytes list externals" where
  "demo = \<lparr>crc32c = (\<lambda>bs. of_nat (sum_list (map unat bs))), bloom_on = True, bf_new = (\<lambda>n. Some []),
     bf_insert = (\<lambda>f k. k # f), bf_contains = (\<lambda>f k. k \<in> set f), pc_to_bytes = (\<lambda>f. Some (concat (map frame f))),
     pc_from_bytes = (\<lambda>bs. Some (unframe [] bs)), durability_on = True,
     wal_open = (\<lambda>fo. case fo of None \<Rightarrow> Inr [] | Some bs \<Rightarrow> Inr bs),
     wal_open_syncs = True, wal_append = (\<lambda>bs r. concat (map frame (unframe [] bs @ [r]))), wal_torn = (\<lambda>bs r m. bs),
     wal_iter = (\<lambda>bs. Inr (map Inr (unframe [] bs))), wal_msg = (\<lambda>e. ''log i/o error'')\<rparr>"

lemma demo_bloom: "bloom_laws demo"
  by (simp add: bloom_laws_def demo_def unframe_frames)

lemma demo_wal: "wal_laws demo"
proof -
  have inj: "inj (Inr :: bytes \<Rightarrow> string + bytes)" by (simp add: inj_def)
  have rec: "map Inr (unframe [] bs) = (map Inr recs :: (string + bytes) list) \<longleftrightarrow> unframe [] bs = recs" for bs recs
    using inj by (simp add: inj_map_eq_map)
  show ?thesis
    unfolding wal_laws_def holds_records_def demo_def by (simp add: rec unframe_frames del: map_append concat_append)
qed

lemma demo_pc: "pc_total demo" and demo_on: "durability_on demo"
  by (simp_all add: pc_total_def demo_def)

text \<open>An empty directory, and the store that opening it gives.\<close>

definition demo_dir :: fs where
  "demo_dir = \<lparr>dir = [], plan = (\<lambda>n. None), clock = 0, undo = []\<rparr>"

definition demo_disk :: fs where
  "demo_disk = \<lparr>dir = [(WAL_FILE, File [] True)], plan = (\<lambda>n. None), clock = 6, undo = [(WAL_FILE, None)]\<rparr>"

definition demo_engine :: "bytes list engine" where
  "demo_engine = \<lparr>eng_config = config_default, mem = memtable_new, runs = [],
     dur = \<lparr>wal_is_open = True, wal_path = WAL_FILE\<rparr>, next_seq = 0, compacting = False,
     compaction = compaction_default, last_error = None,
     cache = cache_new (block_cache_capacity_bytes config_default), disk = demo_disk, next_run_id = 1\<rparr>"

lemma demo_open: "open_with demo config_default 1 demo_dir = (Inr demo_engine, demo_disk)"
proof -
  have "open_files demo config_default 1 demo_dir = (Inr (demo_engine\<lparr>disk := demo_disk\<lparr>clock := 5\<rparr>\<rparr>), demo_disk\<lparr>clock := 5\<rparr>)"
    by (simp add: open_files_def act_then_def act_map_err_def fs_call_def demo_dir_def manifest_load_def fs_exists_def
        fs_lookup_def btree_get_def fs_read_dir_def tick_def Let_def durability_open_def wal_open_file_def demo_on)
      (simp add: demo_def replay_log_def act_then_def act_map_err_def wal_handle_def wal_iter_file_def set_file_def note_new_def note_entry_def
        fs_lookup_def btree_get_def tick_def demo_engine_def demo_disk_def numeral_eq_Suc)
  then show ?thesis
    by (simp add: open_with_def engine_flush_def memtable_is_empty_def demo_engine_def memtable_new_def fs_call_def
        demo_disk_def tick_def numeral_eq_Suc)
qed

lemma demo_lookup: "fs_lookup demo_disk n = (if n = WAL_FILE then Some (File [] True) else None)"
  by (simp add: fs_lookup_def demo_disk_def btree_get_def)

lemma demo_disk_ok: "disk_ok demo demo_disk 0 []"
proof -
  have "fresh demo_disk 0"
    unfolding fresh_def demo_lookup using run_names_fixed(3) by auto
  then show ?thesis
    by (simp add: disk_ok_def runs_ok_def manifest_ok_def demo_lookup)
      (simp add: fs_inv_def demo_disk_def WAL_FILE_def MANIFEST_def)
qed

lemma demo_inv: "store_inv demo demo_engine"
  using demo_disk_ok demo_bloom cache_new_coherent memtable_new_inv
  by (simp add: store_inv_def engine_inv_def handles_ok_def demo_engine_def memtable_new_def)

lemma demo_healthy: "healthy demo demo_engine"
  by (simp add: healthy_def demo_wal demo_pc demo_engine_def fault_free_def demo_disk_def wal_ready_def)

lemma demo_openable: "openable demo 1 demo_dir [] []"
  by (simp add: openable_def recoverable_def fs_inv_def log_found_def demo_on numbered_def fs_lookup_def btree_get_def demo_dir_def)

lemma demo_durable: "durable demo demo_engine" and demo_start: "sys_inv demo (started demo_engine)"
  using open_started [OF demo_bloom demo_wal demo_openable _ demo_open] demo_on
  by (simp_all add: memtable_new_def sized_def)

text \<open>Small stores admit small writes.\<close>

lemma sized_small:
  "\<forall>(k, r) \<in> set es. length k \<le> 1000 \<and> value_len r \<le> 1000 \<Longrightarrow> length es \<le> 1000 \<Longrightarrow> sized es"
proof -
  assume a: "\<forall>(k, r) \<in> set es. length k \<le> 1000 \<and> value_len r \<le> 1000" and n: "length es \<le> 1000"
  have "length (enc_block es) \<le> 2009 * length es"
    using a by (induction es) (auto simp: length_enc_entry)
  with n have "length (enc_block es) < 2 ^ 44" by simp
  with a show ?thesis by (auto simp: sized_def fits_def)
qed

lemma admits_small:
  assumes "healthy X e" and "headroom e"
    and "entries (apply_all (op_records a) (mem e)) = es" "sized es"
    and "a = CompactOp \<Longrightarrow> sized (concat (map (run_entries X) (runs e)))"
  shows "admits_op X e a"
  using assms by (simp add: admits_op_def admits_ops_def healthy_def wal_ready_def)

lemma put_unflushed:
  assumes h: "healthy X e" and m: "mem e = memtable_new" and c: "eng_config e = config_default"
  shows "\<exists>d. log_batch X (dur e) [([a], Value [b])] (disk e) = (Inr (), d)
     \<and> run_op X (PutOp [a] [b]) e = (Inr (), e\<lparr>disk := d, mem := memtable_apply memtable_new [a] (Value [b])\<rparr>)"
proof -
  obtain d where lb: "log_batch X (dur e) [([a], Value [b])] (disk e) = (Inr (), d)"
    using log_batch_total [of "disk e" X "dur e"] h by (auto simp: healthy_def)
  let ?e = "e\<lparr>disk := d, mem := memtable_apply memtable_new [a] (Value [b])\<rparr>"
  have "memtable_approx_size (mem ?e) = 2" "memtable_capacity_bytes (eng_config ?e) = 4 * 1024 * 1024"
    by (simp_all add: c memtable_apply_def memtable_insert_def memtable_new_def btree_get_def
        memtable_approx_size_def config_default_def memtable_capacity_bytes_def DEFAULT_MEMTABLE_CAPACITY_def)
  then have "maybe_flush X ?e = (Inr (), ?e)" by (simp add: maybe_flush_def)
  with lb m show ?thesis by (simp add: writes_are_write_ops write_ops_def)
qed

lemma admits_put:
  assumes "healthy X e" and "mem e = memtable_new" and "headroom e"
  shows "admits_op X e (PutOp [a] [b])"
proof -
  have "sized (entries (apply_all [([a], Value [b])] memtable_new))"
    by (rule sized_small) (simp_all add: entries_memtable_apply memtable_new_def)
  with assms show ?thesis by (simp add: admits_op_def admits_ops_def healthy_def wal_ready_def)
qed

text \<open>One put on an empty buffer, and the flush after it.\<close>

lemma put_step:
  assumes "store_inv X e" and h: "healthy X e" and m: "mem e = memtable_new" "eng_config e = config_default" "headroom e"
    and e': "e' = snd (run_op X (PutOp [a] [b]) e)"
  shows "store_inv X e'" "healthy X e'" "view X e' = (view X e)([a] \<mapsto> [b])" "entries (mem e') = [([a], Value [b])]"
    "runs e' = runs e" "next_seq e' = next_seq e" "next_run_id e' = next_run_id e" "eng_config e' = config_default"
    "admits_op X e' FlushOp"
proof -
  have ad: "admits_op X e (PutOp [a] [b])" by (rule admits_put [OF h m(1,3)])
  show inv: "store_inv X e'" and h': "healthy X e'" and "view X e' = (view X e)([a] \<mapsto> [b])"
    using run_op_good [OF assms(1) ad h] by (simp_all add: e' op_effect_def spec_apply_def)
  from put_unflushed [OF h m(1,2), of a b] obtain d where
    eq: "e' = e\<lparr>disk := d, mem := memtable_apply memtable_new [a] (Value [b])\<rparr>" by (auto simp: e')
  show f: "entries (mem e') = [([a], Value [b])]" "runs e' = runs e" "next_seq e' = next_seq e"
    "next_run_id e' = next_run_id e" "eng_config e' = config_default"
    using m(2) by (simp_all add: eq entries_memtable_apply memtable_new_def)
  show "admits_op X e' FlushOp"
  proof (rule admits_small [OF h'])
    show "headroom e'" using m(3) f by (simp add: headroom_def)
    show "sized [([a], Value [b])]" by (rule sized_small) simp_all
  qed (use f in simp_all)
qed

lemma flush_step:
  assumes "store_inv X e" and h: "healthy X e" and ad: "admits_op X e FlushOp" and m: "entries (mem e) = [([a], Value [b])]"
    and e': "e' = snd (run_op X FlushOp e)"
  shows "flush_locked X e = (Inr (), e')" "store_inv X e'" "healthy X e'" "view X e' = view X e" "mem e' = memtable_new"
    "next_seq e' = next_seq e + 1" "next_run_id e' = next_run_id e + 1" "eng_config e' = eng_config e"
    "map (run_entries X) (runs e') = [([a], Value [b])] # map (run_entries X) (runs e)"
proof -
  note good = run_op_good [OF assms(1) ad h]
  show "store_inv X e'" "healthy X e'" "view X e' = view X e" using good by (simp_all add: e' op_effect_def)
  have "\<not> memtable_is_empty (mem e)" by (simp add: memtable_is_empty_def m)
  then have "run_op X FlushOp e = flush_locked X e" by (simp add: engine_flush_def)
  with good(3) show fl: "flush_locked X e = (Inr (), e')" by (simp add: e' prod_eq_iff)
  from flush_counters [OF fl] show "mem e' = memtable_new" "next_seq e' = next_seq e + 1" "next_run_id e' = next_run_id e + 1"
    by (simp_all add: memtable_take_def memtable_new_def)
  have "flush_post X e (flush_locked X e)"
    using assms(1) ad by (intro flush_locked_post) (simp_all add: store_inv_def admits_op_def admits_ops_def)
  then show "eng_config e' = eng_config e" "map (run_entries X) (runs e') = [([a], Value [b])] # map (run_entries X) (runs e)"
    by (auto simp: fl flush_post_def flushed_def m memtable_iter_def)
qed
text \<open>The store after one write, after its flush, and after a second write and flush.\<close>

definition demo_put :: "bytes list engine" where
  "demo_put = snd (run_op demo (PutOp [1] [2]) demo_engine)"

definition demo_flushed :: "bytes list engine" where
  "demo_flushed = snd (run_op demo FlushOp demo_put)"

definition demo_second :: "bytes list engine" where
  "demo_second = snd (run_op demo (PutOp [3] [4]) demo_flushed)"

definition demo_two :: "bytes list engine" where
  "demo_two = snd (run_op demo FlushOp demo_second)"

lemma demo_fields:
  "mem demo_engine = memtable_new" "eng_config demo_engine = config_default" "headroom demo_engine"
  "runs demo_engine = []" "next_seq demo_engine = 0" "next_run_id demo_engine = 1"
  by (simp_all add: demo_engine_def headroom_def)

lemma demo_engine_empty: "view demo demo_engine = Map.empty"
  by (simp add: view_def demo_engine_def memtable_new_def memtable_iter_def resolve_def fun_eq_iff)

lemma demo_admits_put: "admits_op demo demo_engine (PutOp [1] [2])"
  by (rule admits_put [OF demo_healthy demo_fields(1,3)])

lemmas demo_put_step = put_step [OF demo_inv demo_healthy demo_fields(1-3) demo_put_def]

lemma demo_put_eq:
  "\<exists>d. log_batch demo (dur demo_engine) [([1], Value [2])] demo_disk = (Inr (), d)
     \<and> demo_put = demo_engine\<lparr>disk := d, mem := memtable_apply memtable_new [1] (Value [2])\<rparr>"
  using put_unflushed [OF demo_healthy demo_fields(1,2), of 1 2] by (auto simp: demo_put_def) (simp add: demo_engine_def)

lemma demo_put_fields:
  "entries (mem demo_put) = [([1], Value [2])]" "runs demo_put = []" "next_seq demo_put = 0"
  "next_run_id demo_put = 1" "eng_config demo_put = config_default"
  using demo_put_step demo_fields by simp_all

lemma demo_put_ok: "store_inv demo demo_put" "healthy demo demo_put" "view demo demo_put = [[1] \<mapsto> [2]]"
  using demo_put_step demo_engine_empty by simp_all

lemma demo_admits_flush: "admits_op demo demo_put FlushOp"
  by (rule demo_put_step(9))

lemmas demo_flush_step = flush_step [OF demo_put_ok(1,2) demo_admits_flush demo_put_fields(1) demo_flushed_def]

lemma demo_flush: "flush_locked demo demo_put = (Inr (), demo_flushed)"
  by (rule demo_flush_step(1))

lemma demo_flushed_fields:
  "mem demo_flushed = memtable_new" "next_seq demo_flushed = 1" "next_run_id demo_flushed = 2"
  "map (run_entries demo) (runs demo_flushed) = [[([1], Value [2])]]" "eng_config demo_flushed = config_default"
  "headroom demo_flushed"
  using demo_flush_step demo_put_fields by (simp_all add: headroom_def)

lemma demo_flushed_ok:
  "store_inv demo demo_flushed" "healthy demo demo_flushed" "view demo demo_flushed = [[1] \<mapsto> [2]]"
  using demo_flush_step demo_put_ok by simp_all

lemmas demo_second_step = put_step [OF demo_flushed_ok(1,2) demo_flushed_fields(1,5,6) demo_second_def]
lemmas demo_two_step = flush_step [OF demo_second_step(1,2,9,4) demo_two_def]

lemma demo_two_fields:
  "mem demo_two = memtable_new" "next_seq demo_two = 2" "next_run_id demo_two = 3" "headroom demo_two"
  "map (run_entries demo) (runs demo_two) = [[([3], Value [4])], [([1], Value [2])]]"
  using demo_two_step demo_second_step demo_flushed_fields by (simp_all add: headroom_def)

lemma demo_two_ok: "store_inv demo demo_two" "healthy demo demo_two" "view demo demo_two = [[1] \<mapsto> [2], [3] \<mapsto> [4]]"
  using demo_two_step demo_second_step demo_flushed_ok by simp_all

lemma demo_two_sized: "sized (concat (map (run_entries demo) (runs demo_two)))"
  unfolding demo_two_fields(5) by (rule sized_small) simp_all

lemma demo_admits_compact: "admits_op demo demo_two CompactOp"
proof (rule admits_small [OF demo_two_ok(2) demo_two_fields(4)])
  show "sized []" by (rule sized_small) simp_all
qed (use demo_two_sized in \<open>simp_all add: demo_two_fields memtable_new_def\<close>)

text \<open>A process started on that store.\<close>

lemma demo_idle:
  assumes "store_inv demo e" and "admits_op demo e a" and "a \<noteq> CompactOp"
    and "compacting e = False \<and> running (compaction e) = False \<and> shutdown (compaction e) = False"
    and "e' = snd (run_op demo a e)"
  shows "compacting e' = False \<and> running (compaction e') = False \<and> shutdown (compaction e') = False"
proof -
  have "client_frame e e'" by (rule run_op_frame [OF assms(1,2,3), of "fst (run_op demo a e)"]) (simp add: assms(5))
  with assms(4) show ?thesis by (simp add: client_frame_def same_flags_def)
qed

lemma demo_flags:
  "compacting demo_put = False \<and> running (compaction demo_put) = False \<and> shutdown (compaction demo_put) = False"
  "compacting demo_flushed = False \<and> running (compaction demo_flushed) = False \<and> shutdown (compaction demo_flushed) = False"
  "compacting demo_two = False \<and> running (compaction demo_two) = False \<and> shutdown (compaction demo_two) = False"
proof -
  note put = demo_idle [OF demo_inv demo_admits_put _ _ demo_put_def]
  show p: "compacting demo_put = False \<and> running (compaction demo_put) = False \<and> shutdown (compaction demo_put) = False"
    by (rule put) (simp_all add: demo_engine_def compaction_default_def)
  show f: "compacting demo_flushed = False \<and> running (compaction demo_flushed) = False \<and> shutdown (compaction demo_flushed) = False"
    by (rule demo_idle [OF demo_put_ok(1) demo_admits_flush _ p demo_flushed_def]) simp
  have "admits_op demo demo_flushed (PutOp [3] [4])"
    by (rule admits_put [OF demo_flushed_ok(2) demo_flushed_fields(1,6)])
  note s = demo_idle [OF demo_flushed_ok(1) this _ f demo_second_def]
  show "compacting demo_two = False \<and> running (compaction demo_two) = False \<and> shutdown (compaction demo_two) = False"
    by (rule demo_idle [OF demo_second_step(1,9) _ s demo_two_def]) simp_all
qed

lemma demo_started:
  "sys_inv demo (started demo_put)" "sys_inv demo (started demo_flushed)" "sys_inv demo (started demo_two)"
  by (rule started_inv, simp_all add: demo_put_ok demo_flushed_ok demo_two_ok demo_flags)+

text \<open>The process after that one write, and its directory at a power failure.\<close>

lemma demo_exec:
  "exec demo (started demo_engine) [(Client (PutOp [1] [2]), Done (PutOp [1] [2]) (Inr ()))] (started demo_put)"
proof -
  have "run_op demo (PutOp [1] [2]) (eng (started demo_engine)) = (Inr (), demo_put)"
    using run_op_good(3) [OF demo_inv demo_admits_put demo_healthy] by (simp add: started_def demo_put_def prod_eq_iff)
  from sys_step.client [OF _ _ this] have "sys_step demo (started demo_engine) (Client (PutOp [1] [2]))
      (Done (PutOp [1] [2]) (Inr ())) (started demo_put)" by (simp add: started_def)
  moreover have "admissible demo (started demo_engine) (Client (PutOp [1] [2]))"
    using demo_admits_put by (simp add: admissible_def started_def headroom_def demo_engine_def)
  ultimately show ?thesis by (blast intro: exec.intros)
qed

lemma demo_loggable: "loggable [([1], Value [2])]"
  by (simp add: loggable_def fits_def MAX_RECORD_LEN_def enc_entry_def)

lemma demo_put_disk:
  "logs demo (disk demo_put) [[([1], Value [2])]]" "touches (\<lambda>n. n = WAL_FILE) demo_disk (disk demo_put)"
proof -
  from demo_put_eq obtain d where lb: "log_batch demo (dur demo_engine) [([1], Value [2])] demo_disk = (Inr (), d)"
    and e: "demo_put = demo_engine\<lparr>disk := d, mem := memtable_apply memtable_new [1] (Value [2])\<rparr>" by blast
  have d: "disk demo_put = d" unfolding e by simp
  have l: "logs demo demo_disk []" and wp: "wal_path (dur demo_engine) = WAL_FILE"
    by (simp_all add: logs_def demo_lookup holds_records_def demo_def demo_engine_def)
  from log_batch_ok(1) [OF demo_wal demo_on l wp lb] show "logs demo (disk demo_put) [[([1], Value [2])]]" by (simp add: d)
  from act_keepsD [OF log_batch_keeps [OF wp] lb] show "touches (\<lambda>n. n = WAL_FILE) demo_disk (disk demo_put)" by (simp add: d)
qed

lemma demo_put_files:
  "fs_inv (disk demo_put)" "fault_free (disk demo_put)" "n \<noteq> WAL_FILE \<Longrightarrow> fs_lookup (disk demo_put) n = None"
proof -
  show "fs_inv (disk demo_put)" using touches_inv [OF demo_put_disk(2)] demo_disk_ok by (simp add: disk_ok_def)
  show "fault_free (disk demo_put)"
    using fault_free_touches [OF demo_put_disk(2)] by (simp add: fault_free_def demo_disk_def)
  show "fs_lookup (disk demo_put) n = None" if "n \<noteq> WAL_FILE"
    using touchesD [OF demo_put_disk(2) that] that by (simp add: demo_lookup)
qed

lemma crashes_refl: "fs_inv d \<Longrightarrow> crashes X d d"
  by (auto simp: crashes_def)

lemma demo_crash:
  "crashes demo (disk demo_put) (disk demo_put)" "room 1 (disk demo_put) (length (runs demo_put))"
  "replay_fits demo (disk demo_put)"
proof -
  show "crashes demo (disk demo_put) (disk demo_put)" by (rule crashes_refl [OF demo_put_files(1)])
  have "fs_lookup (disk demo_put) MANIFEST = None"
    by (rule demo_put_files(3)) (simp add: MANIFEST_def WAL_FILE_def)
  moreover have "seq_of WAL_FILE = None" by (simp add: seq_of_def WAL_FILE_def strip_prefix_def)
  then have "seq_of name = None" if "fs_lookup (disk demo_put) name \<noteq> None" for name
    using that demo_put_files(3) by metis
  ultimately have "numbered (disk demo_put)" by (auto simp: numbered_def)
  then show "room 1 (disk demo_put) (length (runs demo_put))"
    using demo_put_files(2) by (simp add: room_def demo_put_fields fault_free_def)
  have found: "log_found demo (disk demo_put) [[([1], Value [2])]]"
    using demo_put_disk(1) demo_loggable demo_on by (simp add: log_found_def)
  have "sized (entries (apply_all (concat [[([1], Value [2])]]) memtable_new))"
    by (rule sized_small) (simp_all add: entries_memtable_apply memtable_new_def)
  with log_found_unique [OF found] show "replay_fits demo (disk demo_put)" unfolding replay_fits_def by blast
qed

lemma demo_put_durable: "durable demo demo_put"
  using exec_durable [OF demo_wal demo_on demo_exec demo_start] demo_durable demo_loggable by (simp add: started_def)

lemma demo_reopens: "\<exists>e d. open_with demo config_default 1 (disk demo_put) = (Inr e, d)"
  using durable_reopens [OF demo_put_ok(1) demo_wal demo_pc demo_put_durable demo_crash(3,1) demo_put_files(2) demo_crash(2)]
  by blast

text \<open>Readers at work on it while a client writes.\<close>

lemma demo_run: "\<exists>t. runs demo_flushed = [t] \<and> run_entries demo t = [([1], Value [2])]"
  using demo_flushed_fields(4) by auto

lemma demo_admits_overwrite: "admits_op demo demo_flushed (PutOp [1] [9])"
  by (rule admits_put [OF demo_flushed_ok(2) demo_flushed_fields(1,6)])

definition demo_over :: "bytes list engine" where
  "demo_over = snd (run_op demo (PutOp [1] [9]) demo_flushed)"

lemmas demo_over_step = put_step [OF demo_flushed_ok(1,2) demo_flushed_fields(1,5,6) demo_over_def]

definition demo_reading :: "bytes list engine \<Rightarrow> bytes list reader \<Rightarrow> bytes list sys" where
  "demo_reading e r = (started e)\<lparr>readers := [(0, r)]\<rparr>"

lemma demo_write_step:
  "exec demo (demo_reading demo_over r) tr s' \<Longrightarrow>
     exec demo (demo_reading demo_flushed r) ((Client (PutOp [1] [9]), Done (PutOp [1] [9]) (Inr ())) # tr) s'"
proof -
  let ?s = "demo_reading demo_flushed r"
  have "run_op demo (PutOp [1] [9]) (eng ?s) = (Inr (), demo_over)"
    using run_op_good(3) [OF demo_flushed_ok(1) demo_admits_overwrite demo_flushed_ok(2)]
    by (simp add: demo_reading_def started_def demo_over_def prod_eq_iff)
  from sys_step.client [OF _ _ this] have st: "sys_step demo ?s (Client (PutOp [1] [9])) (Done (PutOp [1] [9]) (Inr ())) (demo_reading demo_over r)"
    by (simp add: demo_reading_def started_def)
  have "admissible demo ?s (Client (PutOp [1] [9]))"
    using demo_admits_overwrite demo_flushed_fields(6) by (simp add: admissible_def demo_reading_def started_def)
  then show "exec demo (demo_reading demo_over r) tr s' \<Longrightarrow>
     exec demo ?s ((Client (PutOp [1] [9]), Done (PutOp [1] [9]) (Inr ())) # tr) s'"
    using st by (blast intro: exec_Cons)
qed

lemma demo_scan_run:
  "\<exists>r s'. exec demo (started demo_flushed)
     [(BeginScan 0 rng, Quiet), (Client (PutOp [1] [9]), Done (PutOp [1] [9]) (Inr ())), (Step 0, ScanDone 0 r)] s'"
proof -
  let ?r = "Scanning rng [] (runs demo_flushed)"
  have "begin_scan 0 rng (started demo_flushed) = demo_reading demo_flushed ?r"
    using demo_flushed_fields(1) by (simp add: begin_scan_def demo_reading_def started_def memtable_iter_def memtable_new_def)
  with sys_step.scan [of "started demo_flushed" 0 demo rng]
  have b: "sys_step demo (started demo_flushed) (BeginScan 0 rng) Quiet (demo_reading demo_flushed ?r)" by (simp add: started_def)
  have "sys_step demo (demo_reading demo_over ?r) (Step 0) (ScanDone 0 (scan_snapshot demo rng [] (runs demo_flushed)))
      (end_read 0 (runs demo_flushed) (demo_reading demo_over ?r))" by (rule sys_step.scan_end) (simp add: demo_reading_def)
  moreover have "admissible demo (demo_reading demo_over ?r) (Step 0)" "admissible demo (started demo_flushed) (BeginScan 0 rng)"
    using demo_flushed_fields(6) demo_over_step(6,7) by (simp_all add: admissible_def demo_reading_def started_def headroom_def)
  ultimately show ?thesis using b by (blast intro: exec.intros demo_write_step)
qed

lemma demo_get_run:
  "\<exists>r s'. exec demo (started demo_flushed)
     [(BeginGet 0 [1], Quiet), (Client (PutOp [1] [9]), Done (PutOp [1] [9]) (Inr ())), (Step 0, GetDone 0 r)] s'"
proof -
  obtain t where t: "runs demo_flushed = [t]" "run_entries demo t = [([1], Value [2])]" using demo_run by blast
  let ?r = "Getting [1] [t] [t]" and ?s = "demo_reading demo_over (Getting [1] [t] [t])"
  have "begin_get 0 [1] (started demo_flushed) = (Quiet, demo_reading demo_flushed ?r)"
    using demo_flushed_fields(1) t(1)
    by (simp add: begin_get_def demo_reading_def started_def memtable_get_def memtable_new_def btree_get_def)
  from sys_step.get [OF _ _ this] have b: "sys_step demo (started demo_flushed) (BeginGet 0 [1]) Quiet (demo_reading demo_flushed ?r)"
    by (simp add: started_def)
  have ad: "admissible demo ?s (Step 0)" "admissible demo (started demo_flushed) (BeginGet 0 [1])"
    using demo_flushed_fields(6) demo_over_step(6,7) by (simp_all add: admissible_def demo_reading_def started_def headroom_def)
  have "sys_inv demo ?s"
    using exec_inv [OF exec_Cons [OF ad(2) b demo_write_step [OF exec_Nil]] demo_started(2)] .
  moreover have "t \<in> set (held ?s)" by (simp add: held_def demo_reading_def)
  moreover obtain o' c where l: "sstable_lookup demo t [1] (cache (eng ?s)) = (o', c)" by fastforce
  ultimately have "o' = Inr (Some (Value [2]))" using lookup_step_ok(3) [of demo ?s t "[1]"] t(2) by simp
  moreover have "good_run demo t"
    using engine_inv_reads [of demo demo_flushed] demo_flushed_ok(1) t(1) by (simp add: reads_inv_def store_inv_def)
  then have "might_contain demo t [1]" using might_contain_keys [of demo t "[1]"] t(2) by fastforce
  ultimately obtain s' where g: "get_step demo 0 [1] [t] [t] ?s = (GetDone 0 (Inr (Some [2])), s')"
    using l by (simp add: get_step_def Let_def)
  have "sys_step demo ?s (Step 0) (GetDone 0 (Inr (Some [2]))) s'"
    by (rule sys_step.get_more [OF _ g]) (simp add: demo_reading_def)
  then show ?thesis using b ad by (blast intro: exec.intros demo_write_step)
qed

text \<open>A run on disk that only a reader holds.\<close>

definition demo_orphan :: "bytes list engine" where
  "demo_orphan = demo_put\<lparr>mem := memtable_new, next_seq := 1, next_run_id := 2,
     disk := snd (flush_run demo (run_filename 0) 1 [([1], Value [2])] (disk demo_put))\<rparr>"

lemma demo_orphan_reader:
  "\<exists>t. sys_inv demo ((started demo_orphan)\<lparr>readers := [(0, Scanning rng [] [t])], dead := [run_id t]\<rparr>)
     \<and> fault_free (disk demo_orphan)"
proof -
  have es: "asc_keys [([1], Value [2])]" "sized [([1], Value [2])]" by (simp, rule sized_small, simp_all)
  have ok: "disk_ok demo (disk demo_put) 0 []" using demo_put_ok(1) demo_put_fields by (simp add: store_inv_def engine_inv_def)
  obtain t d where f: "flush_run demo (run_filename 0) 1 [([1], Value [2])] (disk demo_put) = (Inr t, d)"
    using flush_run_total [OF demo_put_files(2) demo_pc es] by blast
  note t = flush_run_ok [OF demo_bloom es fresh_sidecar [OF ok] f]
  have d: "disk_ok demo d 1 []" using disk_ok_build [OF ok flush_run_touches [OF f]] by simp
  have e: "disk demo_orphan = d" "runs demo_orphan = []" "mem demo_orphan = memtable_new" "next_seq demo_orphan = 1"
    "next_run_id demo_orphan = 2" "cache demo_orphan = cache demo_put"
    "compacting demo_orphan = False" "running (compaction demo_orphan) = False" "shutdown (compaction demo_orphan) = False"
    using f demo_put_fields demo_flags(1) by (simp_all add: demo_orphan_def)
  from demo_put_eq obtain d0 where
    p: "demo_put = demo_engine\<lparr>disk := d0, mem := memtable_apply memtable_new [1] (Value [2])\<rparr>" by blast
  have "cache demo_put = cache_new (block_cache_capacity_bytes config_default)" unfolding p by (simp add: demo_engine_def)
  with cache_new_coherent have co: "cache_coherent demo T n (cache demo_put)" for T n by simp
  let ?s = "(started demo_orphan)\<lparr>readers := [(0, Scanning rng [] [t])], dead := [run_id t]\<rparr>"
  have "store_inv demo demo_orphan"
    using d demo_bloom co memtable_new_inv by (simp add: store_inv_def engine_inv_def handles_ok_def e) (simp add: memtable_new_def)
  moreover have "fleet_ok demo demo_orphan {t}" using t co by (auto simp: fleet_ok_def e intro!: exI [of _ 0])
  ultimately have "sys_inv demo ?s"
    using t e by (simp add: sys_inv_def flags_ok_def readers_ok_def held_def started_def)
  moreover have "fault_free (disk demo_orphan)"
    using fault_free_touches [OF flush_run_touches [OF f]] demo_put_files(2) e(1) by simp
  ultimately show ?thesis by blast
qed

text \<open>The compactor about to take its snapshot.\<close>

definition demo_busy :: "bytes list engine \<Rightarrow> bytes list sys" where
  "demo_busy e = (started (e\<lparr>compacting := True, compaction := (compaction e)\<lparr>running := True\<rparr>\<rparr>))\<lparr>thread := Snapshotting\<rparr>"

lemma demo_busy_inv: "sys_inv demo (demo_busy demo_two)"
proof -
  have i: "sys_inv demo (started demo_two)" by (rule demo_started(3))
  have h: "held (demo_busy demo_two) = held (started demo_two)" by (simp add: held_def demo_busy_def started_def)
  show ?thesis
    using i demo_flags(3) unfolding sys_inv_def h
    by (simp add: demo_busy_def started_def flags_ok_def readers_ok_def store_inv_def engine_inv_def fleet_ok_def)
qed

text \<open>
  The store with one buffered write on a disk whose next call fails and no other, its
  failed flush, and a write and a flush that then succeed.
\<close>

definition demo_glitch :: "bytes list engine" where
  "demo_glitch = demo_put\<lparr>disk := (disk demo_put)\<lparr>plan :=
     (\<lambda>n. if n = clock (disk demo_put) then Some (Other ''device busy'', 0) else None)\<rparr>\<rparr>"

definition demo_failed :: "bytes list engine" where
  "demo_failed = demo_glitch\<lparr>mem := memtable_new, next_seq := 1, disk := tick (disk demo_glitch)\<rparr>"

definition demo_later :: "bytes list engine" where
  "demo_later = snd (run_op demo (PutOp [3] [4]) demo_failed)"

definition demo_lossy :: "bytes list engine" where
  "demo_lossy = snd (run_op demo FlushOp demo_later)"

lemma replan_lookup: "fs_lookup (d\<lparr>plan := p\<rparr>) n = fs_lookup d n" "fs_inv (d\<lparr>plan := p\<rparr>) = fs_inv d"
  by (simp_all add: fs_lookup_def fs_inv_def)

lemma demo_glitch_ok: "store_inv demo demo_glitch" "admits_op demo demo_glitch FlushOp" "durable demo demo_glitch"
  "view demo demo_glitch = [[1] \<mapsto> [2]]" "runs demo_glitch = []"
proof -
  have "disk_ok demo (d\<lparr>plan := p\<rparr>) n rs = disk_ok demo d n rs" for d p n rs
    by (simp add: disk_ok_def runs_ok_def fresh_def manifest_ok_def committed_def committed_at_def replan_lookup)
  then show "store_inv demo demo_glitch" using demo_put_ok(1) by (simp add: demo_glitch_def store_inv_def engine_inv_def)
  show "admits_op demo demo_glitch FlushOp"
    using demo_admits_flush by (simp add: demo_glitch_def admits_op_def admits_ops_def headroom_def)
  have "durable demo demo_glitch = durable demo demo_put" by (rule durable_cong) (simp_all add: demo_glitch_def replan_lookup)
  with demo_put_durable show "durable demo demo_glitch" by simp
  show "view demo demo_glitch = [[1] \<mapsto> [2]]" using demo_put_ok(3) by (simp add: demo_glitch_def view_def)
  show "runs demo_glitch = []" using demo_put_fields by (simp add: demo_glitch_def)
qed

lemma demo_failed_eq: "flush_locked demo demo_glitch = (Inl (io ''create sorted run'' (Other ''device busy'')), demo_failed)"
  "runs demo_failed = []" "fs_lookup (disk demo_failed) n = fs_lookup (disk demo_put) n"
  using demo_put_fields
  by (simp_all add: demo_failed_def demo_glitch_def flush_locked_def memtable_take_def memtable_new_def flush_run_def
      writer_create_def fs_create_def act_then_def act_map_err_def Let_def replan_lookup)

lemma demo_failed_ok: "store_inv demo demo_failed" "healthy demo demo_failed" "mem demo_failed = memtable_new"
  "eng_config demo_failed = config_default" "headroom demo_failed"
proof -
  show "store_inv demo demo_failed"
    using flush_failed_view(1) [OF demo_glitch_ok(1,2) demo_failed_eq(1)] demo_failed_eq(2) demo_glitch_ok(5) by simp
  show "healthy demo demo_failed"
    using demo_put_ok(2) by (auto simp: healthy_def demo_failed_def demo_glitch_def fault_free_def tick_def)
qed (simp_all add: demo_failed_def demo_glitch_def demo_put_fields headroom_def)

lemmas demo_later_step = put_step [OF demo_failed_ok demo_later_def]
lemmas demo_lossy_step = flush_step [OF demo_later_step(1,2,9,4) demo_lossy_def]

text \<open>A directory with a manifest and its run, where the check for the manifest fails.\<close>

definition demo_unread :: fs where
  "demo_unread = \<lparr>dir = [(MANIFEST, manifest_file 1 [run_filename 0]), (run_filename 0, File [] True)],
     plan = (\<lambda>n. if n = 1 then Some (PermissionDenied, 0) else None), clock = 0, undo = []\<rparr>"

end
