(* ===== verification/Client_Logic.thy ===== *)
theory Client_Logic
  imports Durable_Process
begin

text \<open>
  A logic for client programs. A program that opens a database, calls its methods one after
  another and drops it is an action on the engine; \<^verbatim>\<open>does\<close> states its total correctness
  against an abstract database with two maps, what the store shows and what its runs hold.
  The budget says how many runs and how many bytes the program may add before the counters,
  the buffer or the compaction trigger would come into play; within it the background
  thread has nothing to do, so the program runs alone.
\<close>

section \<open>Names and numbers of a directory\<close>

lemma takeWhile_line:
  assumes "NL \<notin> set a" and "NL \<notin> set b" and "a @ NL # x = b @ NL # y"
  shows "a = b"
proof -
  have "takeWhile (\<lambda>c. c \<noteq> NL) (a @ NL # x) = a" "takeWhile (\<lambda>c. c \<noteq> NL) (b @ NL # y) = b"
    using assms(1,2) by (simp_all add: takeWhile_tail) (metis takeWhile_eq_all_conv)+
  with assms(3) show ?thesis by simp
qed

lemma manifest_file_seq: "manifest_file a xs = manifest_file b ys \<Longrightarrow> a = b"
proof -
  assume "manifest_file a xs = manifest_file b ys"
  then have "manifest_body a xs = manifest_body b ys"
    unfolding manifest_file_def by (metis fnode.inject text_of_ascii)
  then have "u64_to_string a @ NL # concat (map (\<lambda>run. run @ [NL]) xs) = u64_to_string b @ NL # concat (map (\<lambda>run. run @ [NL]) ys)"
    by (simp add: manifest_body_def)
  moreover have "NL \<notin> set (u64_to_string n)" for n
    using plain_digits by (auto simp: u64_to_string_def plain_def)
  ultimately have "u64_to_string a = u64_to_string b" by (blast intro: takeWhile_line)
  then have "run_filename a = run_filename b" by (simp add: run_filename_def)
  then show ?thesis by (simp add: run_filename_inj)
qed

lemma seq_of_client_names:
  assumes "client_names n name" and "seq_of name = Some s"
  shows "s = n \<and> run_names (run_filename n) name"
proof -
  have "strip_suffix ''.sst'' (p @ ''.tmp'') = None" "strip_suffix ''.sst'' (p @ ''.bloom'') = None"
    "strip_suffix ''.sst'' (p @ ''.bloom.tmp'') = None" for p
    by (rule strip_suffix_other; simp)+
  moreover obtain q where "run_filename n = ''run-'' @ q" using run_filename_stem by blast
  then have "seq_of (run_filename n @ x) = Option.bind (strip_suffix ''.sst'' (q @ x)) parse_u64" for x
    by (simp only: append.assoc seq_of_def strip_prefix_append bind.bind_lunit)
  ultimately have "seq_of (run_filename n @ ''.tmp'') = None" "seq_of (run_filename n @ ''.bloom'') = None"
    "seq_of (run_filename n @ ''.bloom.tmp'') = None" by simp_all
  moreover have "seq_of WAL_FILE = None" "seq_of MANIFEST = None" "seq_of MANIFEST_TMP = None"
    by (simp_all add: seq_of_def strip_prefix_def WAL_FILE_def MANIFEST_def MANIFEST_TMP_def)
  ultimately show ?thesis using assms seq_of_run_filename by (auto simp: client_names_def run_names_def)
qed

lemma below_step:
  assumes b: "below N d" and t: "touches (client_names n) d d'" and n: "unat n \<le> N" "unat n' \<le> N + 1"
    and ok: "disk_ok X d' n' rs"
  shows "below (N + 1) d'"
proof -
  have "unat s < N + 1" if "fs_lookup d' name \<noteq> None" "seq_of name = Some s" for name s
  proof (cases "client_names n name")
    case True
    then have "s = n" using seq_of_client_names [OF True that(2)] by simp
    with n(1) show ?thesis by simp
  next
    case False
    then have "fs_lookup d name \<noteq> None" using touchesD [OF t] that(1) by simp
    with b that(2) show ?thesis by (fastforce simp: below_def)
  qed
  moreover have "unat seq \<le> N + 1" if "fs_lookup d' MANIFEST = Some (manifest_file seq xs)" for seq xs
    using ok that n(2) manifest_file_seq by (fastforce simp: disk_ok_def manifest_ok_def word_le_nat_alt)
  ultimately show ?thesis unfolding below_def by blast
qed

section \<open>Sessions\<close>

text \<open>The log holds exactly the writes of the buffer.\<close>

definition log_in_step :: "'f externals \<Rightarrow> 'f engine \<Rightarrow> bool" where
  "log_in_step X e \<longleftrightarrow> (durability_on X \<longrightarrow> (\<exists>groups. logs X (disk e) groups \<and> (\<forall>g \<in> set groups. loggable g)
     \<and> wal_synced (disk e) \<and> mem e = apply_all (concat groups) memtable_new))"

text \<open>
  \<^verbatim>\<open>session X cfg j n b e\<close>: an open database on a working disk, with room for \<^verbatim>\<open>n\<close> more runs and
  \<^verbatim>\<open>b\<close> more bytes in the buffer, the compactor asleep.
\<close>

definition session :: "'f externals \<Rightarrow> lsm_config \<Rightarrow> nat \<Rightarrow> nat \<Rightarrow> nat \<Rightarrow> 'f engine \<Rightarrow> bool" where
  "session X cfg j n b e \<longleftrightarrow> store_inv X e \<and> healthy X e \<and> log_in_step X e \<and> eng_config e = cfg
     \<and> (\<exists>N. unat (next_seq e) \<le> N \<and> below N (disk e) \<and> N + n < 2 ^ 64)
     \<and> unat (next_run_id e) + n + j * unat (compaction_trigger_runs cfg) < 2 ^ 64
     \<and> length (runs e) + n < unat (compaction_trigger_runs cfg) \<and> \<not> pending (compaction e)
     \<and> length (enc_block (entries (mem e))) + b < min (unat (memtable_capacity_bytes cfg)) (2 ^ 44)"

text \<open>What the store shows, and what its runs hold.\<close>

type_synonym contents = "bytes \<Rightarrow> bytes option"

definition shows_db :: "'f externals \<Rightarrow> 'f engine \<Rightarrow> contents \<times> contents \<Rightarrow> bool" where
  "shows_db X e m \<longleftrightarrow> view X e = fst m \<and> resolve (map (run_entries X) (runs e)) = snd m"

definition does :: "'f externals \<Rightarrow> lsm_config \<Rightarrow> nat \<Rightarrow> nat \<Rightarrow> ('f, 'a) engact \<Rightarrow> contents \<times> contents \<Rightarrow> 'a \<Rightarrow> contents \<times> contents \<Rightarrow> bool" where
  "does X cfg n b prog m v m' \<longleftrightarrow> (\<forall>e j n' b'. session X cfg j (n + n') (b + b') e \<longrightarrow> shows_db X e m \<longrightarrow>
     (\<exists>e'. prog e = (Inr v, e') \<and> session X cfg j n' b' e' \<and> shows_db X e' m'))"

lemma does_return: "does X cfg 0 0 (act_ok v) m v m"
  by (simp add: does_def)

lemma does_then:
  assumes "does X cfg n1 b1 p m v m1" and "does X cfg n2 b2 (f v) m1 v' m2"
  shows "does X cfg (n1 + n2) (b1 + b2) (act_then p f) m v' m2"
  unfolding does_def
proof (intro allI impI)
  fix e j n' b' assume "session X cfg j (n1 + n2 + n') (b1 + b2 + b') e" and m: "shows_db X e m"
  then have "session X cfg j (n1 + (n2 + n')) (b1 + (b2 + b')) e" by (simp add: add.assoc)
  with assms(1) m obtain e1 where "p e = (Inr v, e1)" "session X cfg j (n2 + n') (b2 + b') e1" "shows_db X e1 m1"
    unfolding does_def by blast
  with assms(2) show "\<exists>e'. act_then p f e = (Inr v', e') \<and> session X cfg j n' b' e' \<and> shows_db X e' m2"
    unfolding does_def by (simp add: act_then_def)
qed

lemma session_mono: "session X cfg j n b e \<Longrightarrow> n' \<le> n \<Longrightarrow> b' \<le> b \<Longrightarrow> session X cfg j n' b' e"
proof -
  assume s: "session X cfg j n b e" and le: "n' \<le> n" "b' \<le> b"
  have "\<exists>N. unat (next_seq e) \<le> N \<and> below N (disk e) \<and> N + n' < 2 ^ 64"
    using s le(1) unfolding session_def by (meson add_left_mono order.strict_trans1)
  with s le show ?thesis unfolding session_def by auto
qed

lemma does_more: "does X cfg n b p m v m' \<Longrightarrow> n \<le> n' \<Longrightarrow> b \<le> b' \<Longrightarrow> does X cfg n' b' p m v m'"
  unfolding does_def
proof (intro allI impI)
  fix e j k c
  assume d: "\<forall>e j k c. session X cfg j (n + k) (b + c) e \<longrightarrow> shows_db X e m \<longrightarrow> (\<exists>e'. p e = (Inr v, e') \<and> session X cfg j k c e' \<and> shows_db X e' m')"
    and le: "n \<le> n'" "b \<le> b'" and s: "session X cfg j (n' + k) (b' + c) e" and m: "shows_db X e m"
  have "session X cfg j (n + k) (b + c) e" using s by (rule session_mono) (use le in simp_all)
  with d m show "\<exists>e'. p e = (Inr v, e') \<and> session X cfg j k c e' \<and> shows_db X e' m'" by blast
qed

section \<open>Writes\<close>

lemma enc_insert: "length (enc_block (btree_insert k r es)) \<le> length (enc_block es) + length (enc_entry (k, r))"
  by (induction es) auto

lemma enc_apply_all:
  "length (enc_block (entries (apply_all ws m))) \<le> length (enc_block (entries m)) + length (enc_block ws)"
proof (induction ws arbitrary: m)
  case (Cons w ws)
  obtain k r where w: "w = (k, r)" by fastforce
  have "length (enc_block (entries (memtable_apply m k r))) \<le> length (enc_block (entries m)) + length (enc_entry (k, r))"
    by (simp add: entries_memtable_apply enc_insert)
  with Cons.IH [of "memtable_apply m k r"] show ?case by (simp add: w)
qed simp

lemma btree_insert_entries: "set (btree_insert k r es) \<subseteq> insert (k, r) (set es)"
  by (induction es) auto

lemma apply_all_entries: "set (entries (apply_all ws m)) \<subseteq> set ws \<union> set (entries m)"
proof (induction ws arbitrary: m)
  case (Cons w ws)
  obtain k r where w: "w = (k, r)" by fastforce
  have "set (entries (memtable_apply m k r)) \<subseteq> insert (k, r) (set (entries m))"
    by (simp add: entries_memtable_apply btree_insert_entries)
  with Cons.IH [of "memtable_apply m k r"] show ?case by (auto simp: w)
qed simp

lemma approx_size_enc:
  assumes "memtable_inv m" and "length (enc_block (entries m)) < 2 ^ 64"
  shows "unat (memtable_approx_size m) \<le> length (enc_block (entries m))"
proof -
  have "live_bytes es \<le> length (enc_block es)" for es
    by (induction es) (auto simp: length_enc_entry)
  from this [of "entries m"] show ?thesis
    using memtable_size_exact [OF assms(1)] order.strict_trans1 [OF _ assms(2)] by simp
qed

lemma log_in_step_write:
  assumes on: "wal_laws X" "wal_path (dur e) = WAL_FILE" and l: "log_in_step X e" and lg: "loggable ws"
    and lb: "log_batch X (dur e) ws (disk e) = (Inr (), d)"
  shows "log_in_step X (e\<lparr>disk := d, mem := apply_all ws (mem e)\<rparr>)"
  unfolding log_in_step_def
proof
  assume d: "durability_on X"
  with l obtain groups where g: "logs X (disk e) groups" "\<forall>g \<in> set groups. loggable g"
    "mem e = apply_all (concat groups) memtable_new" by (auto simp: log_in_step_def)
  have "logs X d (groups @ [ws])" by (rule log_batch_ok(1) [OF on(1) d g(1) on(2) lb])
  moreover have "wal_synced d" by (rule log_batch_synced [OF d on(2) lb])
  moreover have "apply_all ws (mem e) = apply_all (concat (groups @ [ws])) memtable_new"
    by (simp add: g(3) apply_all_def)
  ultimately show "\<exists>groups. logs X (disk (e\<lparr>disk := d, mem := apply_all ws (mem e)\<rparr>)) groups \<and> (\<forall>g \<in> set groups. loggable g)
      \<and> wal_synced (disk (e\<lparr>disk := d, mem := apply_all ws (mem e)\<rparr>))
      \<and> mem (e\<lparr>disk := d, mem := apply_all ws (mem e)\<rparr>) = apply_all (concat groups) memtable_new"
    using g(2) lg by (intro exI [of _ "groups @ [ws]"]) auto
qed

text \<open>Within the budget a write is logged and buffered, and nothing else happens.\<close>

lemma write_buffered:
  assumes s: "session X cfg j n (length (enc_block ws) + b) e" and f: "\<forall>w \<in> set ws. fits w" and lg: "loggable ws"
  shows "\<exists>d. write_ops X ws e = (Inr (), e\<lparr>disk := d, mem := apply_all ws (mem e)\<rparr>)
     \<and> session X cfg j n b (e\<lparr>disk := d, mem := apply_all ws (mem e)\<rparr>)"
proof -
  have X: "bloom_laws X" and inv: "engine_inv X e" and h: "healthy X e" and ls: "log_in_step X e"
    using s by (simp_all add: session_def store_inv_def)
  have wp: "wal_path (dur e) = WAL_FILE" and w: "wal_laws X" using h by (simp_all add: healthy_def wal_ready_def)
  obtain d where lb: "log_batch X (dur e) ws (disk e) = (Inr (), d)"
    using log_batch_total h by (metis healthy_def)
  let ?e = "e\<lparr>disk := d, mem := apply_all ws (mem e)\<rparr>"
  have len: "length (enc_block (entries (mem ?e))) + b < min (unat (memtable_capacity_bytes cfg)) (2 ^ 44)"
    using enc_apply_all [of ws "mem e"] s by (simp add: session_def)
  have ok: "disk_ok X d (next_seq e) (runs e)" using inv disk_ok_log [OF _ wp lb] by (simp add: engine_inv_def)
  have mi: "memtable_inv (mem ?e)" using inv apply_all_inv by (simp add: engine_inv_def)
  have "\<forall>x \<in> set (entries (mem ?e)). fits x" using inv f apply_all_entries [of ws "mem e"] by (auto simp: engine_inv_def)
  then have "engine_inv X ?e" using inv ok mi by (simp add: engine_inv_def)
  moreover have tw: "touches (\<lambda>n. n = WAL_FILE) (disk e) d" by (rule act_keepsD [OF log_batch_keeps [OF wp] lb])
  then have "fault_free d" using h by (auto simp: healthy_def dest: fault_free_touches)
  then have "healthy X ?e" using h by (simp add: healthy_def)
  moreover have "\<exists>N. unat (next_seq e) \<le> N \<and> below N d \<and> N + n < 2 ^ 64"
    using s below_log [OF _ tw] unfolding session_def by blast
  ultimately have "session X cfg j n b ?e"
    using s X len log_in_step_write [OF w wp ls lg lb] by (simp add: session_def store_inv_def)
  moreover have "unat (memtable_approx_size (mem ?e)) < unat (memtable_capacity_bytes (eng_config ?e))"
    using approx_size_enc [OF mi] len s by (simp add: session_def)
  then have "maybe_flush X ?e = (Inr (), ?e)" by (simp add: maybe_flush_def word_le_nat_alt)
  ultimately show ?thesis using lb by (auto simp: write_ops_def)
qed

lemma does_write:
  assumes "\<forall>w \<in> set ws. fits w" and "loggable ws"
  shows "does X cfg 0 (length (enc_block ws)) (write_ops X ws) (m, m0) () (fold spec_apply ws m, m0)"
  unfolding does_def
proof (intro allI impI)
  fix e j n b assume "session X cfg j (0 + n) (length (enc_block ws) + b) e" and m: "shows_db X e (m, m0)"
  then obtain d where "write_ops X ws e = (Inr (), e\<lparr>disk := d, mem := apply_all ws (mem e)\<rparr>)"
    "session X cfg j n b (e\<lparr>disk := d, mem := apply_all ws (mem e)\<rparr>)"
    using write_buffered [OF _ assms, of X cfg j n b e] by auto
  with m show "\<exists>e'. write_ops X ws e = (Inr (), e') \<and> session X cfg j n b e' \<and> shows_db X e' (fold spec_apply ws m, m0)"
    by (auto simp: shows_db_def view_def resolve_apply)
qed

text \<open>A key and a value that the record format takes.\<close>

lemma small_loggable:
  assumes "\<forall>w \<in> set ws. fits w" and "length (enc_block ws) < 2 ^ 31"
  shows "loggable ws"
proof -
  have "length ws \<le> length (enc_block ws)" by (induction ws) (auto simp: length_enc_entry)
  with assms show ?thesis by (simp add: loggable_def)
qed

lemma does_put:
  assumes "fits (k, Value v)" and "9 + length k + length v < 2 ^ 31"
  shows "does X cfg 0 (9 + length k + length v) (lsm_put X k v) (m, m0) () (m(k \<mapsto> v), m0)"
proof -
  have "loggable [(k, Value v)]" using assms by (intro small_loggable) (simp_all add: length_enc_entry)
  from does_write [OF _ this, of X cfg m m0] assms show ?thesis
    by (simp add: lsm_put_def writes_are_write_ops length_enc_entry spec_apply_def add.assoc)
qed

lemma does_delete:
  assumes "fits (k, Tombstone)" and "9 + length k < 2 ^ 31"
  shows "does X cfg 0 (9 + length k) (lsm_delete X k) (m, m0) () (m(k := None), m0)"
proof -
  have "loggable [(k, Tombstone)]" using assms by (intro small_loggable) (simp_all add: length_enc_entry)
  from does_write [OF _ this, of X cfg m m0] assms show ?thesis
    by (simp add: lsm_delete_def writes_are_write_ops length_enc_entry spec_apply_def)
qed

section \<open>Flushes and reads\<close>

lemma empty_view:
  assumes "memtable_is_empty (mem e)"
  shows "view X e = resolve (map (run_entries X) (runs e))"
  using assms by (simp add: view_def memtable_is_empty_def memtable_iter_def resolve_Cons fun_eq_iff)

lemma flush_quiet:
  assumes "flush_locked X e = (Inr (), e')" and "length (runs e) + 1 < unat (compaction_trigger_runs (eng_config e))"
  shows "compaction e' = compaction e" "length (runs e') = length (runs e) + 1" "eng_config e' = eng_config e"
  using assms by (auto simp: flush_locked_def Let_def split: prod.splits sum.splits if_splits)

lemma session_flush:
  assumes s: "session X cfg j (Suc n) b e" and ne: "\<not> memtable_is_empty (mem e)"
  shows "\<exists>e'. engine_flush X e = (Inr (), e') \<and> session X cfg j n b e' \<and> view X e' = view X e
     \<and> resolve (map (run_entries X) (runs e')) = view X e"
proof -
  let ?t = "unat (compaction_trigger_runs cfg)"
  have cf: "eng_config e = cfg" using s by (simp add: session_def)
  have si: "store_inv X e" and X: "bloom_laws X" and inv: "engine_inv X e" and h: "healthy X e"
    using s by (simp_all add: session_def store_inv_def)
  have wp: "wal_path (dur e) = WAL_FILE" and w: "wal_laws X" and ff: "fault_free (disk e)"
    using h by (simp_all add: healthy_def wal_ready_def)
  obtain N where N: "unat (next_seq e) \<le> N" "below N (disk e)" "N + 1 + n < 2 ^ 64"
    using s by (auto simp: session_def)
  then have room: "unat (next_seq e) + 1 < 2 ^ 64" "unat (next_run_id e) + 1 + n + j * ?t < 2 ^ 64" "length (runs e) + 1 + n < ?t"
    using s by (simp_all add: session_def)
  then have hr: "headroom e" unfolding headroom_def by (intro conjI succ_nonzero_u64) simp_all
  then have up: "unat (next_seq e + 1) = unat (next_seq e) + 1" "unat (next_run_id e + 1) = unat (next_run_id e) + 1"
    using unat_succ_u64 by (simp_all add: headroom_def)
  have sz: "sized (entries (mem e))" using inv s by (simp add: engine_inv_def sized_def session_def)
  have ad: "admits_op X e FlushOp" using hr sz wp by (simp add: admits_op_def admits_ops_def)
  have eq: "run_op X FlushOp e = flush_locked X e" using ne by (simp add: engine_flush_def)
  define e' where "e' = snd (flush_locked X e)"
  note good = run_op_good [OF si ad h, unfolded eq, folded e'_def]
  have fl: "flush_locked X e = (Inr (), e')" using good(3) by (simp add: e'_def prod_eq_iff)
  note q = flush_quiet [OF fl]
  have c: "next_seq e' = next_seq e + 1" "next_run_id e' = next_run_id e + 1" and m: "mem e' = memtable_new"
    using flush_counters [OF fl] by (simp_all add: memtable_take_def memtable_new_def)
  have q: "compaction e' = compaction e" "length (runs e') = length (runs e) + 1" "eng_config e' = eng_config e"
    using q room(3) by (simp_all add: cf)
  have ok': "disk_ok X (disk e') (next_seq e') (runs e')" using good(1) by (simp add: store_inv_def engine_inv_def)
  have t: "touches (client_names (next_seq e)) (disk e) (disk e')"
    using run_op_frame [OF si ad _ eq [unfolded fl]] by (simp add: client_frame_def)
  have "below (N + 1) (disk e')"
    by (rule below_step [OF N(2) t N(1) _ ok']) (use N c up in simp)
  then have "\<exists>N. unat (next_seq e') \<le> N \<and> below N (disk e') \<and> N + n < 2 ^ 64"
    using N c up by (intro exI [of _ "N + 1"]) simp
  moreover have "log_in_step X e'"
    using flush_log_empty [OF _ w wp ff fl] m unfolding log_in_step_def by (intro impI exI [of _ "[]"]) simp
  ultimately have "session X cfg j n b e'"
    using s good(1,2) q c up(2) room by (simp add: session_def m memtable_new_def)
  moreover have "view X e' = view X e" using good(4) by (simp add: op_effect_def)
  moreover have "memtable_is_empty (mem e')" by (simp add: m memtable_new_def memtable_is_empty_def)
  ultimately show ?thesis using fl eq empty_view [of e' X] by simp
qed

lemma does_flush: "does X cfg 1 0 (lsm_flush X) (m, m0) () (m, m)"
  unfolding does_def
proof (intro allI impI)
  fix e j n b assume s: "session X cfg j (1 + n) (0 + b) e" and m: "shows_db X e (m, m0)"
  show "\<exists>e'. lsm_flush X e = (Inr (), e') \<and> session X cfg j n b e' \<and> shows_db X e' (m, m)"
  proof (cases "memtable_is_empty (mem e)")
    case True
    moreover have "session X cfg j n b e" using s by (rule session_mono) simp_all
    ultimately show ?thesis
      using m empty_view [OF True, of X] by (simp add: lsm_flush_def engine_flush_def shows_db_def)
  next
    case False
    with session_flush [of X cfg j n b e] s m show ?thesis by (auto simp: lsm_flush_def shows_db_def)
  qed
qed

lemma does_get: "does X cfg 0 0 (lsm_get X k) (m, m0) (m k) (m, m0)"
  unfolding does_def
proof (intro allI impI)
  fix e j n b assume s: "session X cfg j (0 + n) (0 + b) e" and m: "shows_db X e (m, m0)"
  then have si: "store_inv X e" by (simp add: session_def)
  obtain r e' where g: "engine_get X k e = (r, e')" by fastforce
  then have "\<exists>c. e' = e\<lparr>cache := c\<rparr>"
    by (auto simp: engine_get_def split: option.splits record_v.splits prod.splits intro: exI [of _ "cache e"])
  then obtain c where c: "e' = e\<lparr>cache := c\<rparr>" by blast
  have "store_inv X e'" using lsm.lookup_inv [OF si, of k] g by simp
  then have "session X cfg j n b e'" using s by (simp add: session_def c healthy_def log_in_step_def)
  moreover have "r = Inr (m k)" using lsm.lookup_contents [OF si, of k] g m by (simp add: shows_db_def)
  moreover have "shows_db X e' (m, m0)" using m by (simp add: shows_db_def c view_def)
  ultimately show "\<exists>e'. lsm_get X k e = (Inr (m k), e') \<and> session X cfg j n b e' \<and> shows_db X e' (m, m0)"
    using g by (simp add: lsm_get_def)
qed

text \<open>A scan borrows the database and changes nothing.\<close>

definition scanning :: "'f externals \<Rightarrow> range \<Rightarrow> ('f, scan_iter) engact" where
  "scanning X rng e = (lsm_scan X rng e, e)"

lemma does_scan:
  assumes "asc_keys out" and "map_of out = (\<lambda>k. if in_range rng k then m k else None)"
  shows "does X cfg 0 0 (scanning X rng) (m, m0) (scan_new out) (m, m0)"
  unfolding does_def
proof (intro allI impI)
  fix e j n b assume s: "session X cfg j (0 + n) (0 + b) e" and m: "shows_db X e (m, m0)"
  have "reads_inv X e" by (rule engine_inv_reads) (use s in \<open>simp add: session_def store_inv_def\<close>)
  from scan_correct [OF this, of rng] obtain out' where o: "engine_scan X rng e = Inr (scan_new out')" "asc_keys out'"
    "map_of out' = (\<lambda>k. if position rng k = In then view X e k else None)" by blast
  have "map_of out' = map_of out" using o(3) m assms(2) by (auto simp: shows_db_def position_In)
  then have "out' = out" using asc_keys_unique o(2) assms(1) by blast
  with o(1) s m show "\<exists>e'. scanning X rng e = (Inr (scan_new out), e') \<and> session X cfg j n b e' \<and> shows_db X e' (m, m0)"
    by (simp add: scanning_def lsm_scan_def)
qed

section \<open>Opening and dropping\<close>

text \<open>
  A process holds the run id counter of \<^verbatim>\<open>sstable.rs\<close> beside the directory. \<^verbatim>\<open>with_db\<close> opens the
  database, runs the body and drops the handle, which joins the compactor and flushes nothing.
\<close>

type_synonym world = "u64 \<times> fs"

definition with_db :: "'f externals \<Rightarrow> lsm_config \<Rightarrow> ('f, 'a) engact \<Rightarrow> (world, error, 'a) act" where
  "with_db X cfg body w =
     (case open_with X cfg (fst w) (snd w) of
        (Inl err, d) \<Rightarrow> (Inl err, (fst w, d))
      | (Inr e, _) \<Rightarrow> (case body e of (r, e) \<Rightarrow> (r, (next_run_id e, lsm_drop e))))"

text \<open>A directory nobody has open: \<^verbatim>\<open>m\<close> is what opening it shows.\<close>

definition at_rest :: "'f externals \<Rightarrow> lsm_config \<Rightarrow> nat \<Rightarrow> nat \<Rightarrow> nat \<Rightarrow> world \<Rightarrow> contents \<Rightarrow> bool" where
  "at_rest X cfg j n b w m \<longleftrightarrow> bloom_laws X \<and> wal_laws X \<and> pc_total X \<and> fault_free (snd w) \<and>
     (\<exists>rs groups N. recoverable X (snd w) rs \<and> log_found X (snd w) groups \<and> replayed X groups rs = m
        \<and> below N (snd w) \<and> N + n < 2 ^ 64
        \<and> unat (fst w) + n + j * unat (compaction_trigger_runs cfg) < 2 ^ 64
        \<and> length rs + n < unat (compaction_trigger_runs cfg)
        \<and> length (enc_block (entries (apply_all (concat groups) memtable_new))) + b
             < min (unat (memtable_capacity_bytes cfg)) (2 ^ 44))"

lemma session_tick: "session X cfg j n b e \<Longrightarrow> session X cfg j n b (e\<lparr>disk := tick (disk e)\<rparr>)"
  using committed_lookups [of "tick (disk e)" "disk e" X]
  by (simp add: session_def store_inv_def engine_inv_def disk_ok_def runs_ok_def fresh_def manifest_ok_def
      healthy_def log_in_step_def logs_def wal_synced_def below_def)

lemma open_session:
  assumes r: "at_rest X cfg (Suc j) (Suc n) b (rid, d) m"
  shows "\<exists>e d'. open_with X cfg rid d = (Inr e, d') \<and> session X cfg j n b e \<and> shows_db X e (m, m)"
proof -
  let ?t = "unat (compaction_trigger_runs cfg)"
  have X: "bloom_laws X" and w: "wal_laws X" and pc: "pc_total X" and ff: "fault_free d" using r by (simp_all add: at_rest_def)
  from r obtain rs groups N where rec: "recoverable X d rs" and lf: "log_found X d groups" and m: "replayed X groups rs = m"
    and N: "below N d" "N + 1 + n < 2 ^ 64" and rid: "unat rid + 1 + n + ?t + j * ?t < 2 ^ 64" and t: "length rs + 1 + n < ?t"
    and len: "length (enc_block (entries (apply_all (concat groups) memtable_new))) + b < min (unat (memtable_capacity_bytes cfg)) (2 ^ 44)"
    by (auto simp: at_rest_def)
  have oa: "openable X rid d rs groups"
    using rec lf rid t N ff below_numbered [OF N(1)] by (simp add: openable_def)
  from open_files_total [OF ff w oa, of cfg] obtain e0 d0 where o: "open_files X cfg rid d = (Inr e0, d0)" and f0: "fault_free d0" by blast
  note of = open_files_ok [OF X w oa o] and oc = open_files_counters [OF X oa N(1) _ o]
  have oc: "unat (next_seq e0) \<le> N" "unat (next_run_id e0) = unat rid + length rs" "length (runs e0) = length rs"
    "eng_config e0 = cfg" "below N (disk e0)" using oc N(2) by simp_all
  have "log_in_step X e0"
    unfolding log_in_step_def using of lf open_files_synced [OF w _ o] by (auto simp: log_found_def)
  then have s0: "session X cfg j (Suc n) b e0"
    using of oc X f0 w pc N rid t len open_files_idle [OF o]
    by (auto simp: session_def store_inv_def healthy_def compaction_default_def intro!: exI [of _ N])
  have v0: "view X e0 = m" using of m by simp
  have "\<exists>e1. engine_flush X e0 = (Inr (), e1) \<and> session X cfg j n b e1 \<and> shows_db X e1 (m, m)"
    using does_flush [of X cfg m "resolve (map (run_entries X) (runs e0))"] s0 v0
    by (auto simp: does_def lsm_flush_def shows_db_def)
  then obtain e1 where fl: "engine_flush X e0 = (Inr (), e1)" and s1: "session X cfg j n b e1" "shows_db X e1 (m, m)" by blast
  let ?e = "e1\<lparr>disk := tick (disk e1)\<rparr>"
  have "fs_call (Inr ()) (disk e1) = (Inr (), tick (disk e1))"
    using s1 by (intro fs_call_fault_free) (simp add: session_def healthy_def)
  with o fl have "open_with X cfg rid d = (Inr ?e, tick (disk e1))" by (simp add: open_with_def)
  moreover have "session X cfg j n b ?e" using s1(1) by (rule session_tick)
  moreover have "shows_db X ?e (m, m)" using s1(2) by (simp add: shows_db_def view_def)
  ultimately show ?thesis by auto
qed

text \<open>Dropping the handle: the log, where there is one, keeps what the buffer held.\<close>

lemma drop_session:
  assumes s: "session X cfg j n b e" and m: "shows_db X e (m, m0)"
  shows "at_rest X cfg j n b (next_run_id e, lsm_drop e) (if durability_on X then m else m0)"
proof -
  let ?t = "unat (compaction_trigger_runs cfg)"
  obtain groups where g: "durability_on X \<Longrightarrow> logs X (disk e) groups \<and> (\<forall>g \<in> set groups. loggable g)
      \<and> mem e = apply_all (concat groups) memtable_new" and off: "\<not> durability_on X \<Longrightarrow> groups = []"
    using s by (cases "durability_on X") (auto simp: session_def log_in_step_def intro: that)
  have d: "lsm_drop e = disk e" by (simp add: lsm_drop_def)
  obtain N where N: "below N (disk e)" "N + n < 2 ^ 64" using s by (auto simp: session_def)
  have "recoverable X (disk e) (runs e)"
    using s disk_ok_recoverable by (auto simp: session_def store_inv_def engine_inv_def)
  moreover have "log_found X (disk e) groups" using g off by (auto simp: log_found_def)
  moreover have "replayed X groups (runs e) = (if durability_on X then m else m0)"
    using g off m by (auto simp: replayed_def shows_db_def view_def memtable_new_def memtable_iter_def resolve_Cons fun_eq_iff)
  moreover have "unat (next_run_id e) + n + j * ?t < 2 ^ 64" "length (runs e) + n < ?t"
    using s by (simp_all add: session_def)
  moreover have "length (enc_block (entries (apply_all (concat groups) memtable_new))) + b < min (unat (memtable_capacity_bytes cfg)) (2 ^ 44)"
    using s g off by (cases "durability_on X") (auto simp: session_def memtable_new_def)
  moreover have "bloom_laws X \<and> wal_laws X \<and> pc_total X \<and> fault_free (disk e)"
    using s by (simp add: session_def store_inv_def healthy_def)
  ultimately show ?thesis using N unfolding at_rest_def fst_conv snd_conv d by blast
qed

lemma with_db_does:
  assumes r: "at_rest X cfg (Suc j) (Suc (n + k)) (b + c) w m" and body: "does X cfg n b body (m, m) v (m1, m2)"
  shows "\<exists>w'. with_db X cfg body w = (Inr v, w') \<and> at_rest X cfg j k c w' (if durability_on X then m1 else m2)"
proof -
  obtain rid d where w: "w = (rid, d)" by fastforce
  from open_session [of X cfg j "n + k" "b + c" rid d m] r obtain e d' where o: "open_with X cfg rid d = (Inr e, d')"
    and s: "session X cfg j (n + k) (b + c) e" "shows_db X e (m, m)" by (auto simp: w)
  from body s obtain e' where "body e = (Inr v, e')" "session X cfg j k c e'" "shows_db X e' (m1, m2)"
    unfolding does_def by blast
  with o drop_session [of X cfg j k c e' m1 m2] show ?thesis by (auto simp: with_db_def w)
qed

lemma at_rest_empty:
  assumes "bloom_laws X" and "wal_laws X" and "pc_total X" and "fault_free d" and "dir d = []"
    and "n < unat (compaction_trigger_runs cfg)" and "unat rid + n + j * unat (compaction_trigger_runs cfg) < 2 ^ 64"
    and "b < min (unat (memtable_capacity_bytes cfg)) (2 ^ 44)" and "n < 2 ^ 64"
  shows "at_rest X cfg j n b (rid, d) Map.empty"
proof -
  have none: "fs_lookup d name = None" for name using assms(5) by (simp add: fs_lookup_def btree_get_def)
  have "recoverable X d []" "log_found X d []" "below 0 d"
    using assms(5) by (simp_all add: recoverable_def log_found_def below_def none fs_inv_def)
  moreover have "replayed X [] [] = (Map.empty :: contents)"
    by (simp add: replayed_def memtable_new_def memtable_iter_def resolve_def fun_eq_iff)
  ultimately show ?thesis
    using assms unfolding at_rest_def
    by (intro conjI exI [of _ "[]"] exI [of _ 0]) (simp_all add: memtable_new_def)
qed

text \<open>The budgets of the default configuration.\<close>

lemma default_room [simp]:
  "compaction_trigger_runs config_default = 4" "memtable_capacity_bytes config_default = 4194304"
  by (simp_all add: compaction_trigger_runs_def memtable_capacity_bytes_def config_default_def
      DEFAULT_COMPACTION_TRIGGER_def DEFAULT_MEMTABLE_CAPACITY_def)

end
