(* ===== verification/Client_Programs.thy ===== *)
theory Client_Programs
  imports Client_Logic Instances
begin

text \<open>
  The example programs of the repository (src/examples), each as the calls its \<^verbatim>\<open>main\<close> makes,
  in order, on a fresh temporary directory; one database handle is one \<^verbatim>\<open>with_db\<close>. A program
  that runs to its end returns the values it passes to \<^verbatim>\<open>println!\<close>, in order; fixed headings,
  the formatting, and what is printed before an error ends a program are left out. The
  programs are proved with the rules of \<^verbatim>\<open>Client_Logic\<close>, call by call.
\<close>

datatype line = Shown string "bytes option" | Total nat | Item bytes bytes

section \<open>Iterating over a scan\<close>

text \<open>A \<^verbatim>\<open>for\<close> loop over a \<^verbatim>\<open>Scan\<close> calls \<^verbatim>\<open>next\<close> until it returns nothing; \<^verbatim>\<open>count\<close> does the same and counts.\<close>

function scan_collect :: "scan_iter \<Rightarrow> (bytes \<times> bytes) list" where
  "scan_collect s = (case scan_next s of (None, _) \<Rightarrow> [] | (Some kv, s) \<Rightarrow> kv # scan_collect s)"
  by pat_completeness auto
termination
  by (relation "measure scan_len") (auto simp: scan_next_def scan_len_def split: list.splits)

declare scan_collect.simps [simp del]

lemma scan_collect_new [simp]: "scan_collect (scan_new kvs) = kvs"
proof (induction kvs)
  case Nil
  show ?case by (subst scan_collect.simps) (simp add: scan_next_def scan_new_def)
next
  case (Cons kv kvs)
  then show ?case by (subst scan_collect.simps) (simp add: scan_next_def scan_new_def)
qed

definition scan_count :: "scan_iter \<Rightarrow> nat" where
  "scan_count s = length (scan_collect s)"

lemma scan_count_new [simp]: "scan_count (scan_new kvs) = length kvs"
  by (simp add: scan_count_def)

section \<open>Loops\<close>

primrec act_for :: "'a list \<Rightarrow> ('a \<Rightarrow> ('s, 'e, unit) act) \<Rightarrow> ('s, 'e, unit) act" where
  "act_for [] f = act_ok ()"
| "act_for (x # xs) f = act_then (f x) (\<lambda>_. act_for xs f)"

lemma does_for:
  assumes "\<And>m x. x \<in> set xs \<Longrightarrow> does X cfg n b (f x) m () (g x m)"
  shows "does X cfg (length xs * n) (length xs * b) (act_for xs f) m () (fold g xs m)"
  using assms
proof (induction xs arbitrary: m)
  case (Cons x xs)
  have "does X cfg n b (f x) m () (g x m)" by (rule Cons.prems) simp
  moreover have "does X cfg (length xs * n) (length xs * b) (act_for xs f) (g x m) () (fold g xs (g x m))"
    by (rule Cons.IH) (simp add: Cons.prems)
  ultimately show ?case using does_then by fastforce
qed (simp add: does_return)

section \<open>The programs\<close>

abbreviation everything :: range where
  "everything \<equiv> \<lparr>start_bound = Unbounded, end_bound = Unbounded\<rparr>"

definition embedded_kv :: "'f externals \<Rightarrow> (world, error, line list) act" where
  "embedded_kv X = with_db X config_default (
     act_then (lsm_put X (ascii ''config:theme'') (ascii ''dark'')) (\<lambda>_.
     act_then (lsm_put X (ascii ''config:lang'') (ascii ''en'')) (\<lambda>_.
     act_then (lsm_get X (ascii ''config:theme'')) (\<lambda>theme.
     act_then (lsm_get X (ascii ''config:lang'')) (\<lambda>lang.
     act_then (lsm_put X (ascii ''config:theme'') (ascii ''light'')) (\<lambda>_.
     act_then (lsm_get X (ascii ''config:theme'')) (\<lambda>theme'.
     act_then (lsm_delete X (ascii ''config:lang'')) (\<lambda>_.
     act_then (lsm_get X (ascii ''config:lang'')) (\<lambda>lang'.
     act_then (lsm_flush X) (\<lambda>_.
     act_then (scanning X everything) (\<lambda>s.
     act_ok [Shown ''theme'' theme, Shown ''lang'' lang, Shown ''theme'' theme', Shown ''lang'' lang',
       Total (scan_count s)])))))))))))"

definition durable_store :: "'f externals \<Rightarrow> (world, error, line list) act" where
  "durable_store X =
     act_then (with_db X config_default (
       act_then (lsm_put X (ascii ''account:alice'') (ascii ''100'')) (\<lambda>_.
       lsm_put X (ascii ''account:bob'') (ascii ''250'')))) (\<lambda>_.
     with_db X config_default (
       act_then (lsm_get X (ascii ''account:alice'')) (\<lambda>alice.
       act_then (lsm_get X (ascii ''account:bob'')) (\<lambda>bob.
       act_then (scanning X everything) (\<lambda>s.
       act_ok [Shown ''alice'' alice, Shown ''bob'' bob, Total (scan_count s)])))))"

definition batch_writes :: "'f externals \<Rightarrow> (world, error, line list) act" where
  "batch_writes X =
     act_then (with_db X config_default (
       let batch = fold (\<lambda>i b. batch_put b (ascii (''account:'' @ digits i)) (ascii ''active'')) [1..<6] batch_new;
           batch = batch_put batch (ascii ''account:3'') (ascii ''suspended'');
           batch = batch_delete batch (ascii ''account:5'') in
       act_then (lsm_write X batch) (\<lambda>_.
       act_then (lsm_flush X) (\<lambda>_.
       act_ok [Total (batch_len batch)])))) (\<lambda>printed.
     with_db X config_default (
       act_then (lsm_get X (ascii ''account:1'')) (\<lambda>a.
       act_then (lsm_get X (ascii ''account:3'')) (\<lambda>b.
       act_then (lsm_get X (ascii ''account:5'')) (\<lambda>c.
       act_then (scanning X everything) (\<lambda>s.
       act_ok (printed @ [Shown ''account:1'' a, Shown ''account:3'' b, Shown ''account:5'' c, Total (scan_count s)])))))))"

definition range_scan :: "'f externals \<Rightarrow> (world, error, line list) act" where
  "range_scan X = with_db X config_default (
     act_then (lsm_put X (ascii ''event:2026-06-01'') (ascii ''deploy'')) (\<lambda>_.
     act_then (lsm_put X (ascii ''event:2026-06-02'') (ascii ''scale-up'')) (\<lambda>_.
     act_then (lsm_put X (ascii ''event:2026-06-03'') (ascii ''incident'')) (\<lambda>_.
     act_then (lsm_put X (ascii ''event:2026-06-04'') (ascii ''resolved'')) (\<lambda>_.
     act_then (lsm_put X (ascii ''meta:owner'') (ascii ''platform-team'')) (\<lambda>_.
     act_then (scanning X everything) (\<lambda>all.
     act_then (scanning X \<lparr>start_bound = Included (ascii ''event:2026-06-02''),
                           end_bound = Excluded (ascii ''event:2026-06-04'')\<rparr>) (\<lambda>some.
     act_then (scanning X \<lparr>start_bound = Included (ascii ''event:''), end_bound = Excluded (ascii ''event;'')\<rparr>) (\<lambda>prefix.
     act_ok (map (\<lambda>(k, v). Item k v) (scan_collect all) @ map (\<lambda>(k, v). Item k v) (scan_collect some)
       @ [Total (scan_count prefix)]))))))))))"

text \<open>\<^verbatim>\<open>format!("user:{:06}", n)\<close>.\<close>

definition user_key :: "nat \<Rightarrow> bytes" where
  "user_key n = ascii (''user:'' @ zero_pad 6 (digits n))"

primrec count_misses :: "'f externals \<Rightarrow> nat list \<Rightarrow> nat \<Rightarrow> ('f, nat) engact" where
  "count_misses X [] misses = act_ok misses"
| "count_misses X (i # is) misses =
     act_then (lsm_get X (user_key (i * 2 + 1))) (\<lambda>found.
     count_misses X is (if found = None then misses + 1 else misses))"

definition bloom_point_reads :: "'f externals \<Rightarrow> (world, error, line list) act" where
  "bloom_point_reads X = with_db X (compaction_trigger config_new 64) (
     act_then (act_for [0..<8] (\<lambda>run.
       act_then (act_for [0..<1000] (\<lambda>i. lsm_put X (user_key (i * 2)) (ascii (''r'' @ digits run)))) (\<lambda>_.
       lsm_flush X))) (\<lambda>_.
     act_then (lsm_get X (ascii ''user:000010'')) (\<lambda>found.
     act_then (count_misses X [0..<10000] 0) (\<lambda>misses.
     act_ok [Shown ''user:000010'' found, Total misses]))))"

section \<open>What they print\<close>

lemma does_result:
  assumes "does X cfg n b p m v m'" and "n \<le> n'" and "b \<le> b'" and "v = v'" and "m' = m''"
  shows "does X cfg n' b' p m v' m''"
  using does_more [OF assms(1-3)] assms(4,5) by simp

lemma ascii_inject [simp]: "ascii a = ascii b \<longleftrightarrow> a = b"
  by (metis text_of_ascii)

lemma does_put_text:
  assumes "length k < 2 ^ 10" and "length v < 2 ^ 10"
  shows "does X cfg 0 (2 ^ 12) (lsm_put X (ascii k) (ascii v)) (m, m0) () (m(ascii k \<mapsto> ascii v), m0)"
  by (rule does_more [OF does_put]) (use assms in \<open>simp_all add: fits_def\<close>)

lemma does_delete_text:
  assumes "length k < 2 ^ 10"
  shows "does X cfg 0 (2 ^ 12) (lsm_delete X (ascii k)) (m, m0) () (m(ascii k := None), m0)"
  by (rule does_more [OF does_delete]) (use assms in \<open>simp_all add: fits_def\<close>)

lemma does_scan_all:
  assumes "asc_keys out" and "map_of out = m"
  shows "does X cfg 0 0 (scanning X everything) (m, m0) (scan_new out) (m, m0)"
  by (rule does_scan) (use assms in \<open>simp_all add: in_range_def\<close>)

lemmas does_text = does_put_text does_delete_text does_flush does_get does_scan_all

lemmas does_rules = does_then does_put_text does_delete_text does_flush does_get does_return

lemma with_db_then:
  assumes "at_rest X cfg (Suc j) (Suc (n + k)) (b + c) w m" and "does X cfg n b body (m, m) v (m1, m2)"
    and "\<And>w'. at_rest X cfg j k c w' (if durability_on X then m1 else m2) \<Longrightarrow> fst (f v w') = r"
  shows "fst (act_then (with_db X cfg body) f w) = r"
  using with_db_does [OF assms(1,2)] assms(3) by (auto simp: act_then_def)

lemma with_db_prints:
  assumes "at_rest X cfg (Suc j) (Suc n) b w m" and "does X cfg n b body (m, m) v m'"
  shows "fst (with_db X cfg body w) = Inr v"
  using with_db_does [of X cfg j n 0 b 0 w m body v "fst m'" "snd m'"] assms by auto

lemma start_default:
  assumes "bloom_laws X" "wal_laws X" "pc_total X" "fault_free d" "dir d = []" "unat rid + 11 < 2 ^ 64"
  shows "at_rest X config_default (Suc (Suc 0)) (Suc (1 + Suc 0)) (2 ^ 14 + 2 ^ 14) (rid, d) Map.empty"
  by (rule at_rest_empty) (use assms in simp_all)

lemma embedded_kv_prints:
  assumes "bloom_laws X" "wal_laws X" "pc_total X" "fault_free d" "dir d = []" "unat rid + 11 < 2 ^ 64"
  shows "fst (embedded_kv X (rid, d)) = Inr [Shown ''theme'' (Some (ascii ''dark'')), Shown ''lang'' (Some (ascii ''en'')),
      Shown ''theme'' (Some (ascii ''light'')), Shown ''lang'' None, Total 1]"
  unfolding embedded_kv_def
  by (rule with_db_prints [OF start_default [OF assms]], rule does_result,
      (rule does_rules does_scan_all [of "[(ascii ''config:theme'', ascii ''light'')]"] | simp add: fun_eq_iff)+)

text \<open>
  C14: The crash-safety example, from an empty directory on a working disk: the writes of
  the first session, which ends without a flush, are read by the second one when the log
  is on, and are gone when it is off.
\<close>

theorem durable_store_prints:
  assumes "bloom_laws X" "wal_laws X" "pc_total X" "fault_free d" "dir d = []" "unat rid + 11 < 2 ^ 64"
  shows "fst (durable_store X (rid, d)) = Inr (if durability_on X
     then [Shown ''alice'' (Some (ascii ''100'')), Shown ''bob'' (Some (ascii ''250'')), Total 2]
     else [Shown ''alice'' None, Shown ''bob'' None, Total 0])"
proof -
  let ?m = "[ascii ''account:alice'' \<mapsto> ascii ''100'', ascii ''account:bob'' \<mapsto> ascii ''250'']"
  let ?out = "if durability_on X then [(ascii ''account:alice'', ascii ''100''), (ascii ''account:bob'', ascii ''250'')] else []"
  have o: "asc_keys ?out" "map_of ?out = (if durability_on X then ?m else Map.empty)" by (auto simp: ascii_def)
  show ?thesis unfolding durable_store_def
  proof (rule with_db_then [OF start_default [OF assms], where v = "()" and ?m1.0 = ?m and ?m2.0 = Map.empty], goal_cases)
    case 1
    show ?case by (rule does_result, (rule does_rules | simp)+)
  next
    case (2 w)
    show ?case by (rule with_db_prints [OF 2], rule does_result, (rule does_rules does_scan_all [OF o] | simp)+)
  qed
qed

theorem durable_store_prints_witness:
  "fst (durable_store demo (1, demo_dir)) = Inr [Shown ''alice'' (Some (ascii ''100'')), Shown ''bob'' (Some (ascii ''250'')), Total 2]"
  using durable_store_prints [OF demo_bloom demo_wal demo_pc, of demo_dir 1]
  by (simp add: demo_on demo_dir_def fault_free_def)

text \<open>
  C31: The batch example: seven operations are applied as one write, the last write to a
  key wins, and the group is read back by the next session.
\<close>

theorem batch_writes_prints:
  assumes "bloom_laws X" "wal_laws X" "pc_total X" "fault_free d" "dir d = []" "unat rid + 11 < 2 ^ 64"
  shows "fst (batch_writes X (rid, d)) = Inr [Total 7, Shown ''account:1'' (Some (ascii ''active'')),
     Shown ''account:3'' (Some (ascii ''suspended'')), Shown ''account:5'' None, Total 4]"
proof -
  let ?out = "[(ascii ''account:1'', ascii ''active''), (ascii ''account:2'', ascii ''active''),
    (ascii ''account:3'', ascii ''suspended''), (ascii ''account:4'', ascii ''active'')]"
  define batch where "batch = batch_delete (batch_put (fold (\<lambda>i b. batch_put b (ascii (''account:'' @ digits i)) (ascii ''active'')) [1..<6] batch_new)
    (ascii ''account:3'') (ascii ''suspended'')) (ascii ''account:5'')"
  have r: "batch_records batch = map (\<lambda>(k, r). (ascii k, r)) [(''account:1'', Value (ascii ''active'')), (''account:2'', Value (ascii ''active'')),
    (''account:3'', Value (ascii ''active'')), (''account:4'', Value (ascii ''active'')), (''account:5'', Value (ascii ''active'')),
    (''account:3'', Value (ascii ''suspended'')), (''account:5'', Tombstone)]"
    by (simp add: batch_def upt_rec digits.simps digit_char_def char_of_def bit_Suc_0_iff)
  have fw: "\<forall>x \<in> set (batch_records batch). fits x" "length (enc_block (batch_records batch)) < 2 ^ 10"
    by (simp_all add: r fits_def length_enc_entry)
  then have "loggable (batch_records batch)" by (intro small_loggable) simp_all
  note w = does_write [OF fw(1) this, of X config_default Map.empty Map.empty]
  have w: "does X config_default 0 (2 ^ 10) (lsm_write X batch) (Map.empty, Map.empty) () (map_of ?out, Map.empty)"
    unfolding lsm_write_def writes_are_write_ops
    by (rule does_result [OF w]) (use fw(2) in \<open>simp_all add: r spec_apply_def fun_eq_iff\<close>)
  have o: "asc_keys ?out" by (simp add: ascii_def)
  show ?thesis unfolding batch_writes_def Let_def batch_def [symmetric]
  proof (rule with_db_then [OF start_default [OF assms], where v = "[Total 7]" and ?m1.0 = "map_of ?out" and ?m2.0 = "map_of ?out"], goal_cases)
    case 1
    show ?case by (rule does_result, (rule does_rules w | simp add: batch_len_records r)+)
  next
    case (2 w)
    then have r: "at_rest X config_default (Suc 0) (Suc 0) (2 ^ 14) w (map_of ?out)" by simp
    show ?case by (rule with_db_prints [OF r], rule does_result, (rule does_rules does_scan_all [OF o refl] | simp)+)
  qed
qed

theorem batch_writes_prints_witness:
  "fst (batch_writes demo (1, demo_dir)) = Inr [Total 7, Shown ''account:1'' (Some (ascii ''active'')),
     Shown ''account:3'' (Some (ascii ''suspended'')), Shown ''account:5'' None, Total 4]"
  using batch_writes_prints [OF demo_bloom demo_wal demo_pc, of demo_dir 1]
  by (simp add: demo_on demo_dir_def fault_free_def)

text \<open>
  C24: The range-scan example prints all entries in key order, then the two events of the
  half-open range, and counts the four keys under the prefix and not the one after it.
\<close>

theorem range_scan_prints:
  assumes "bloom_laws X" "wal_laws X" "pc_total X" "fault_free d" "dir d = []" "unat rid + 11 < 2 ^ 64"
  shows "fst (range_scan X (rid, d)) = Inr
    [Item (ascii ''event:2026-06-01'') (ascii ''deploy''), Item (ascii ''event:2026-06-02'') (ascii ''scale-up''),
     Item (ascii ''event:2026-06-03'') (ascii ''incident''), Item (ascii ''event:2026-06-04'') (ascii ''resolved''),
     Item (ascii ''meta:owner'') (ascii ''platform-team''),
     Item (ascii ''event:2026-06-02'') (ascii ''scale-up''), Item (ascii ''event:2026-06-03'') (ascii ''incident''), Total 4]"
proof -
  let ?ev = "[(ascii ''event:2026-06-01'', ascii ''deploy''), (ascii ''event:2026-06-02'', ascii ''scale-up''),
    (ascii ''event:2026-06-03'', ascii ''incident''), (ascii ''event:2026-06-04'', ascii ''resolved'')]"
  let ?all = "?ev @ [(ascii ''meta:owner'', ascii ''platform-team'')]"
  let ?some = "[(ascii ''event:2026-06-02'', ascii ''scale-up''), (ascii ''event:2026-06-03'', ascii ''incident'')]"
  let ?m = "[ascii ''event:2026-06-01'' \<mapsto> ascii ''deploy'', ascii ''event:2026-06-02'' \<mapsto> ascii ''scale-up'',
    ascii ''event:2026-06-03'' \<mapsto> ascii ''incident'', ascii ''event:2026-06-04'' \<mapsto> ascii ''resolved'',
    ascii ''meta:owner'' \<mapsto> ascii ''platform-team'']"
  have asc: "asc_keys ?all" "asc_keys ?some" "asc_keys ?ev" by (simp_all add: ascii_def)
  have all: "map_of ?all = ?m" by (simp add: fun_eq_iff)
  have some: "map_of ?some = (\<lambda>k. if in_range \<lparr>start_bound = Included (ascii ''event:2026-06-02''),
      end_bound = Excluded (ascii ''event:2026-06-04'')\<rparr> k then ?m k else None)"
    by (simp add: fun_eq_iff in_range_def ascii_def)
  have ev: "map_of ?ev = (\<lambda>k. if in_range \<lparr>start_bound = Included (ascii ''event:''), end_bound = Excluded (ascii ''event;'')\<rparr> k
      then ?m k else None)"
    by (simp add: fun_eq_iff in_range_def ascii_def)
  note scans = does_scan_all [OF asc(1) all] does_scan [OF asc(2) some] does_scan [OF asc(3) ev]
  show ?thesis unfolding range_scan_def
    by (rule with_db_prints [OF start_default [OF assms]], rule does_result, (rule does_rules scans | simp)+)
qed

theorem range_scan_prints_witness:
  "fst (range_scan demo (1, demo_dir)) = Inr
    [Item (ascii ''event:2026-06-01'') (ascii ''deploy''), Item (ascii ''event:2026-06-02'') (ascii ''scale-up''),
     Item (ascii ''event:2026-06-03'') (ascii ''incident''), Item (ascii ''event:2026-06-04'') (ascii ''resolved''),
     Item (ascii ''meta:owner'') (ascii ''platform-team''),
     Item (ascii ''event:2026-06-02'') (ascii ''scale-up''), Item (ascii ''event:2026-06-03'') (ascii ''incident''), Total 4]"
  using range_scan_prints [OF demo_bloom demo_wal demo_pc, of demo_dir 1]
  by (simp add: demo_dir_def fault_free_def)

lemma length_digits: "n < 10 ^ Suc k \<Longrightarrow> length (digits n) \<le> Suc k"
proof (induction k arbitrary: n)
  case 0
  then show ?case by (subst digits.simps) simp
next
  case (Suc k)
  then have "n div 10 < 10 ^ Suc k" by simp
  then show ?case using Suc.IH [of "n div 10"] by (subst digits.simps) simp
qed

lemma length_user_key: "n < 10 ^ 6 \<Longrightarrow> length (user_key n) = 11"
  using length_digits [of n 5] by (simp add: user_key_def zero_pad_def)

lemma user_key_inject:
  assumes "a < 2 ^ 64" and "b < 2 ^ 64"
  shows "user_key a = user_key b \<longleftrightarrow> a = b"
proof
  assume "user_key a = user_key b"
  then have "zero_pad 6 (digits a) = zero_pad 6 (digits b)" by (simp add: user_key_def)
  then have "(of_nat a :: u64) = of_nat b"
    using parse_u64_digits [OF assms(1), of "6 - length (digits a)"] parse_u64_digits [OF assms(2), of "6 - length (digits b)"]
    by (simp add: zero_pad_def)
  then have "unat (of_nat a :: u64) = unat (of_nat b :: u64)" by simp
  with assms show "a = b" by (simp add: unsigned_of_nat take_bit_nat_eq_self)
qed simp

lemma user_key_10: "user_key 10 = ascii ''user:000010''"
proof -
  have "digits 10 = ''10''"
    by (subst digits.simps, subst digits.simps) (simp add: digit_char_def char_of_def bit_Suc_0_iff)
  then show ?thesis by (simp add: user_key_def zero_pad_def eval_nat_numeral)
qed

lemma fold_upd: "fold (\<lambda>i m. m(f i \<mapsto> v)) is m k = (if k \<in> f ` set is then Some v else m k)"
  by (induction "is" arbitrary: m) auto


lemma does_put_key:
  assumes "n < 10 ^ 6" and "length v < 2 ^ 10"
  shows "does X cfg 0 (20 + length v) (lsm_put X (user_key n) (ascii v)) (m, m0) () (m(user_key n \<mapsto> ascii v), m0)"
  by (rule does_more [OF does_put]) (use assms length_user_key [OF assms(1)] in \<open>simp_all add: fits_def\<close>)

definition bloom_run :: "nat \<Rightarrow> contents \<times> contents \<Rightarrow> contents \<times> contents" where
  "bloom_run run m = (let m' = fold (\<lambda>i m. m(user_key (i * 2) \<mapsto> ascii (''r'' @ digits run))) [0..<1000] (fst m) in (m', m'))"

lemma does_bloom_run:
  assumes "run < 10"
  shows "does X cfg 1 22000 (act_then (act_for [0..<1000] (\<lambda>i. lsm_put X (user_key (i * 2)) (ascii (''r'' @ digits run)))) (\<lambda>_.
       lsm_flush X)) m () (bloom_run run m)"
proof -
  let ?g = "\<lambda>i (m, m0). (m(user_key (i * 2) \<mapsto> ascii (''r'' @ digits run)), m0)"
  have "does X cfg 0 22 (lsm_put X (user_key (i * 2)) (ascii (''r'' @ digits run))) m () (?g i m)" if "i \<in> set [0..<1000]" for i m
  proof (cases m)
    case (Pair m1 m0)
    have "length (''r'' @ digits run) = 2" using assms by (subst digits.simps) simp
    with does_put_key [of "i * 2" "''r'' @ digits run" X cfg m1 m0] that show ?thesis by (simp add: Pair)
  qed
  from does_for [OF this, of "[0..<1000]" "\<lambda>i. i" m]
  have "does X cfg 0 22000 (act_for [0..<1000] (\<lambda>i. lsm_put X (user_key (i * 2)) (ascii (''r'' @ digits run)))) m () (fold ?g [0..<1000] m)"
    by simp
  moreover have "fold ?g is (m1, m0) = (fold (\<lambda>i m. m(user_key (i * 2) \<mapsto> ascii (''r'' @ digits run))) is m1, m0)" for "is" m1 m0
    by (induction "is" arbitrary: m1) auto
  then have "fold ?g [0..<1000] m = (fst (bloom_run run m), snd m)" by (cases m) (simp add: bloom_run_def Let_def del: upt_Suc)
  ultimately have "does X cfg 0 22000 (act_for [0..<1000] (\<lambda>i. lsm_put X (user_key (i * 2)) (ascii (''r'' @ digits run)))) m () (fst (bloom_run run m), snd m)"
    by simp
  from does_then [OF this does_flush] show ?thesis by (simp add: bloom_run_def Let_def)
qed

lemma bloom_runs:
  assumes "ids \<noteq> []"
  shows "fst (fold bloom_run ids m) k = (if k \<in> (\<lambda>i. user_key (i * 2)) ` {0..<1000} then Some (ascii (''r'' @ digits (last ids))) else fst m k)"
  using assms
proof (induction ids arbitrary: m rule: rev_induct)
  case (snoc x xs)
  show ?case by (cases "xs = []") (use snoc.IH [of m] in \<open>simp_all add: bloom_run_def Let_def fold_upd\<close>)
qed simp

lemma bloom_runs_saved: "ids \<noteq> [] \<Longrightarrow> snd (fold bloom_run ids m) = fst (fold bloom_run ids m)"
  by (cases ids rule: rev_cases) (simp_all add: bloom_run_def Let_def)

lemma does_count_misses:
  assumes "\<forall>i \<in> set is. m (user_key (i * 2 + 1)) = None"
  shows "does X cfg 0 0 (count_misses X is c) (m, m0) (c + length is) (m, m0)"
  using assms
proof (induction "is" arbitrary: c)
  case (Cons i "is")
  have "does X cfg 0 0 (count_misses X is (c + 1)) (m, m0) (c + 1 + length is) (m, m0)" by (rule Cons.IH) (use Cons.prems in simp)
  with Cons.prems show ?case using does_then [OF does_get [of X cfg "user_key (i * 2 + 1)" m m0], of 0 0 _ "c + 1 + length is" "(m, m0)"]
    by simp
qed (simp add: does_return)

text \<open>
  C25: The point-read example: after eight runs of a thousand even keys each, whatever the
  filters say, the even key is found with the value of the newest run and each of the ten
  thousand lookups of an odd key misses.
\<close>

theorem bloom_point_reads_prints:
  assumes "bloom_laws X" "wal_laws X" "pc_total X" "fault_free d" "dir d = []" "unat rid + 73 < 2 ^ 64"
  shows "fst (bloom_point_reads X (rid, d)) = Inr [Shown ''user:000010'' (Some (ascii ''r7'')), Total 10000]"
proof -
  let ?m = "fst (fold bloom_run [0..<8] (Map.empty, Map.empty))"
  have start: "at_rest X (compaction_trigger config_new 64) (Suc 0) (Suc 8) (2 ^ 20) (rid, d) Map.empty"
    by (rule at_rest_empty) (use assms in \<open>simp_all add: compaction_trigger_runs_def compaction_trigger_def config_new_def
        memtable_capacity_bytes_def config_default_def DEFAULT_MEMTABLE_CAPACITY_def\<close>)
  have m: "?m k = (if k \<in> (\<lambda>i. user_key (i * 2)) ` {0..<1000} then Some (ascii (''r'' @ digits 7)) else None)" for k
    using bloom_runs [of "[0..<8]" "(Map.empty, Map.empty)" k] by simp
  have "user_key 10 \<in> (\<lambda>i. user_key (i * 2)) ` {0..<1000}" by (rule image_eqI [of _ _ 5]) simp_all
  then have "?m (user_key 10) = Some (ascii ''r7'')" 
    unfolding m by (simp add: digits.simps digit_char_def char_of_def bit_Suc_0_iff)
  then have found: "?m (ascii ''user:000010'') = Some (ascii ''r7'')" by (simp add: user_key_10)
  have "?m (user_key (i * 2 + 1)) = None" if "i \<in> set [0..<10000]" for i
  proof -
    have "user_key (i * 2 + 1) \<noteq> user_key (l * 2)" if "l < 1000" for l
    proof -
      have "i * 2 + 1 \<noteq> l * 2" by presburger
      then show ?thesis using user_key_inject [of "i * 2 + 1" "l * 2"] that \<open>i \<in> _\<close> by simp
    qed
    then have "user_key (i * 2 + 1) \<notin> (\<lambda>l. user_key (l * 2)) ` {0..<1000}"
      by (metis (no_types, lifting) atLeastLessThan_iff imageE)
    then show ?thesis unfolding m by simp
  qed
  then have misses: "does X cfg 0 0 (count_misses X [0..<10000] 0) (?m, ?m) 10000 (?m, ?m)" for cfg
    using does_count_misses [of "[0..<10000]" ?m X cfg 0 ?m] by simp
  have saved: "fold bloom_run [0..<8] (Map.empty, Map.empty) = (?m, ?m)"
    using bloom_runs_saved [of "[0..<8]" "(Map.empty, Map.empty)"] by (simp add: prod_eq_iff del: fold_simps)
  have load: "does X cfg 8 176000 (act_for [0..<8] (\<lambda>run.
       act_then (act_for [0..<1000] (\<lambda>i. lsm_put X (user_key (i * 2)) (ascii (''r'' @ digits run)))) (\<lambda>_.
       lsm_flush X))) (Map.empty, Map.empty) () (?m, ?m)" for cfg
    by (rule does_result [OF does_for [OF does_bloom_run, of "[0..<8]" "\<lambda>run. run"]]) (use saved in simp_all)
  show ?thesis unfolding bloom_point_reads_def
    by (rule with_db_prints [OF start], rule does_result, (rule does_then load misses does_get does_return | simp add: found)+)
qed

theorem bloom_point_reads_prints_witness:
  "fst (bloom_point_reads demo (1, demo_dir)) = Inr [Shown ''user:000010'' (Some (ascii ''r7'')), Total 10000]"
  using bloom_point_reads_prints [OF demo_bloom demo_wal demo_pc, of demo_dir 1]
  by (simp add: demo_on demo_dir_def fault_free_def)

end
