(* ===== verification/Directory_Sync.thy ===== *)
theory Directory_Sync
  imports Client_Logic Instances
begin

text \<open>
  What the durability of a flush rests on besides the \<^verbatim>\<open>fsync\<close> of its files. The code never
  forces the directory itself, so a power failure may undo any of the changes of its
  entries that \<^verbatim>\<open>undo\<close> still holds, one by one and in any order; \<^verbatim>\<open>dir_crash\<close> is such a failure.
  The file a reverted name stands for again has the bytes it had, as it was forced.
\<close>

definition put_back :: "string \<times> fnode option \<Rightarrow> fs \<Rightarrow> fs" where
  "put_back change d = (case change of (name, None) \<Rightarrow> del_file name d | (name, Some f) \<Rightarrow> set_file name f d)"

inductive dir_crash :: "fs \<Rightarrow> fs \<Rightarrow> bool" for d where
  dir_kept: "dir_crash d d"
| dir_lost: "dir_crash d d' \<Longrightarrow> change \<in> set (undo d) \<Longrightarrow> dir_crash d (put_back change d')"

text \<open>After \<^verbatim>\<open>sync_all\<close> on the directory there is nothing left to lose.\<close>

lemma forced_dir_kept:
  assumes "fs_sync_dir d0 = (Inr (), d)" and "dir_crash d d'"
  shows "d' = d"
proof -
  have "undo d = []" using assms(1) by (auto simp: fs_sync_dir_def split: option.splits)
  with assms(2) show ?thesis by (induction rule: dir_crash.induct) simp_all
qed

lemma fs_lookup_put_back [simp]:
  "fs_lookup (put_back (name, old) d) n = (if n = name then old else fs_lookup d n)"
  by (simp add: put_back_def split: option.splits)

lemma put_back_touches: "touches (\<lambda>n. n = name) d (put_back (name, old) d)"
  by (auto simp: put_back_def touches_def split: option.splits)

text \<open>
  Installing the manifest leaves its old entry among the unforced changes, and rotating the
  log adds to them: neither forces the directory.
\<close>

lemma undo_simps [simp]:
  "undo (tick d) = undo d" "undo (set_file n f d) = undo d" "undo (del_file n d) = undo d"
  "undo (note_entry n d) = (n, fs_lookup d n) # undo d" "set (undo d) \<subseteq> set (undo (note_new n d))"
  by (auto simp: tick_def set_file_def del_file_def note_entry_def note_new_def)

lemma manifest_store_unforced:
  assumes "manifest_store seq names d = (Inr (), d')"
  shows "(MANIFEST, fs_lookup d MANIFEST) \<in> set (undo d')"
proof -
  from assms obtain d1 where k: "touches (\<lambda>n. n = MANIFEST_TMP) d d1" and r: "fs_rename MANIFEST_TMP MANIFEST d1 = (Inr (), d')"
    unfolding manifest_store_def Let_def
    by (auto elim!: act_then_InrE simp: act_map_err_Inr_iff)
      (blast intro: touches_trans dest: act_keepsD [OF fs_create_keeps] act_keepsD [OF fs_write_all_keeps] act_keepsD [OF fs_sync_all_keeps])
  have "fs_lookup d1 MANIFEST = fs_lookup d MANIFEST" using touchesD [OF k] manifest_names_differ by simp
  with r show ?thesis by (auto simp: fs_rename_def split: option.splits)
qed

lemma rotate_log_unforced:
  assumes "rotate_log X du d = (r, du', d')"
  shows "set (undo d) \<subseteq> set (undo d')"
proof -
  have "set (undo d) \<subseteq> set (undo d1)" if "fs_remove_file n d = (r1, d1)" for n r1 d1
    using that by (auto simp: fs_remove_file_def split: option.splits)
  moreover have "set (undo d1) \<subseteq> set (undo d2)" if "wal_open_file X n d1 = (r2, d2)" for n r2 d1 d2
    using that undo_simps(5) [of "tick d1" n]
    by (auto simp: wal_open_file_def simp del: undo_simps(5) split: option.splits sum.splits)
  ultimately show ?thesis
    using assms by (auto simp: rotate_log_def Let_def split: if_splits sum.splits prod.splits) (metis subset_iff)+
qed

lemma flush_unforced:
  assumes "flush_locked X e = (Inr (), e')"
  shows "(MANIFEST, fs_lookup (disk e) MANIFEST) \<in> set (undo (disk e'))"
proof -
  note defs = flush_locked_def Let_def memtable_take_def memtable_iter_def
  from assms obtain t d1 where fr: "flush_run X (run_filename (next_seq e)) (next_run_id e) (memtable_iter (mem e)) (disk e) = (Inr t, d1)"
    by (auto simp: defs split: prod.splits sum.splits)
  with assms obtain d2 where ms: "manifest_store (next_seq e + 1) (map file_name (t # runs e)) d1 = (Inr (), d2)"
    by (auto simp: defs split: prod.splits sum.splits)
  with assms fr obtain x du where ro: "rotate_log X (dur e) d2 = (Inr x, du, disk e')"
    by (auto simp: defs signal_compaction_def split: prod.splits sum.splits if_splits)
  have "fs_lookup d1 MANIFEST = fs_lookup (disk e) MANIFEST" by (rule touchesD [OF flush_run_touches [OF fr] run_names_fixed(1)])
  with manifest_store_unforced [OF ms] rotate_log_unforced [OF ro] show ?thesis by auto
qed

lemma flush_adds_run:
  assumes "flush_locked X e = (Inr (), e')"
  shows "\<exists>t. runs e' = t # runs e"
  using assms by (auto simp: flush_locked_def signal_compaction_def Let_def split: prod.splits sum.splits if_splits)

lemma below_reverted:
  assumes "below N new" and "manifest_ok old n names" and "unat n \<le> N"
  shows "below N (put_back (MANIFEST, fs_lookup old MANIFEST) new)"
proof -
  have "seq_of MANIFEST = None" by (simp add: seq_of_def strip_prefix_def MANIFEST_def)
  then have "unat s < N" if "fs_lookup (put_back (MANIFEST, fs_lookup old MANIFEST) new) name \<noteq> None" "seq_of name = Some s" for name s
    using assms(1) that unfolding below_def by (metis fs_lookup_put_back option.distinct(1))
  moreover have "unat seq \<le> N" if "fs_lookup old MANIFEST = Some (manifest_file seq xs)" for seq xs
    using assms(2,3) that manifest_file_seq by (fastforce simp: manifest_ok_def word_le_nat_alt)
  ultimately show ?thesis unfolding below_def by simp
qed

text \<open>
  A flush that reported success, and a power failure after which the directory still names
  the manifest of before: the log is empty and the new run is not listed, so what opening
  shows is what the runs held before the flush.
\<close>

lemma flush_reverted:
  assumes s: "session X cfg j (Suc n) b e" and ne: "\<not> memtable_is_empty (mem e)" and m: "shows_db X e (m, m0)"
  shows "\<exists>e'. lsm_flush X e = (Inr (), e') \<and> session X cfg j n b e' \<and> shows_db X e' (m, m)
     \<and> at_rest X cfg j n b (next_run_id e', put_back (MANIFEST, fs_lookup (disk e) MANIFEST) (disk e')) m0"
proof -
  from session_flush [OF s ne] obtain e' where fl: "engine_flush X e = (Inr (), e')" and s': "session X cfg j n b e'"
    and v: "view X e' = view X e" "resolve (map (run_entries X) (runs e')) = view X e" by blast
  let ?d = "put_back (MANIFEST, fs_lookup (disk e) MANIFEST) (disk e')"
  have fl: "flush_locked X e = (Inr (), e')" and fl': "lsm_flush X e = (Inr (), e')"
    using fl ne by (simp_all add: engine_flush_def lsm_flush_def)
  have ok: "disk_ok X (disk e) (next_seq e) (runs e)" and h: "healthy X e" and w: "wal_laws X"
    using s by (simp_all add: session_def store_inv_def engine_inv_def healthy_def)
  have ok': "disk_ok X (disk e') (next_seq e') (runs e')" and h': "healthy X e'"
    using s' by (simp_all add: session_def store_inv_def engine_inv_def)
  obtain t where r: "runs e' = t # runs e" using flush_adds_run [OF fl] by blast
  have up: "unat (next_seq e) \<le> unat (next_seq e')"
  proof -
    have "unat (next_seq e) + 1 < 2 ^ 64" using s by (auto simp: session_def)
    then show ?thesis using flush_counters(1) [OF fl] unat_succ_u64 succ_nonzero_u64 by simp
  qed
  have rec: "recoverable X ?d (runs e)"
  proof -
    have "committed X ?d u" if "u \<in> set (runs e)" for u
    proof (rule committed_frame [OF _ put_back_touches])
      show "committed X (disk e') u" using ok' r that by (simp add: disk_ok_def runs_ok_def)
      obtain q where "tbl_path u = run_filename q" using ok \<open>u \<in> set (runs e)\<close> by (auto simp: disk_ok_def runs_ok_def)
      then show "tbl_path u \<noteq> MANIFEST" "sidecar_path (tbl_path u) \<noteq> MANIFEST"
        using run_names_fixed(1) [of q] by (auto simp: run_names_def sidecar_path_def)
    qed
    moreover have "fs_inv ?d" using ok' touches_inv [OF put_back_touches] by (simp add: disk_ok_def)
    ultimately show ?thesis using disk_ok_recoverable [OF ok] by (simp add: recoverable_def)
  qed
  have log: "log_found X ?d []"
  proof -
    have "logs X (disk e') []" if "durability_on X"
      using flush_log_empty [OF that w _ _ fl] h by (simp add: healthy_def wal_ready_def)
    then show ?thesis by (simp add: log_found_def logs_def WAL_FILE_def MANIFEST_def)
  qed
  from s' obtain N where N: "unat (next_seq e') \<le> N" "below N (disk e')" "N + n < 2 ^ 64" by (auto simp: session_def)
  have "below N ?d" using below_reverted [OF N(2)] ok up N(1) by (auto simp: disk_ok_def)
  moreover have "replayed X [] (runs e) = m0"
    using m by (simp add: replayed_def shows_db_def memtable_new_def memtable_iter_def resolve_Cons fun_eq_iff)
  moreover have "fault_free ?d" using fault_free_touches [OF put_back_touches] h' by (simp add: healthy_def)
  ultimately have "at_rest X cfg j n b (next_run_id e', ?d) m0"
    using s' rec log N(3) r unfolding at_rest_def
    by (intro conjI exI [of _ "runs e"] exI [of _ "[]"] exI [of _ N])
      (simp_all add: session_def store_inv_def healthy_def memtable_new_def)
  moreover have "shows_db X e' (m, m)" using m v by (simp add: shows_db_def)
  ultimately show ?thesis using fl' s' by blast
qed

text \<open>
  C38: The rename of the manifest is not forced to disk before the log is emptied. After a
  flush that has reported success the old manifest is still among the directory changes a
  power failure may undo. There is such a failure after which the store opens and shows
  what the runs held before the flush: the flushed writes are lost, although they had been
  logged and acknowledged. Forcing the directory after the rename rules this out.
\<close>

theorem unsynced_rename_loses_flush:
  assumes "session X cfg (Suc j) (Suc (Suc n)) b e" and "\<not> memtable_is_empty (mem e)"
  shows "\<exists>e' d' e2 d2. lsm_flush X e = (Inr (), e') \<and> view X e' = view X e \<and> dir_crash (disk e') d'
     \<and> open_with X cfg (next_run_id e') d' = (Inr e2, d2)
     \<and> view X e2 = resolve (map (run_entries X) (runs e))"
proof -
  let ?d = "\<lambda>e'. put_back (MANIFEST, fs_lookup (disk e) MANIFEST) (disk e')"
  have "shows_db X e (view X e, resolve (map (run_entries X) (runs e)))" by (simp add: shows_db_def)
  from flush_reverted [OF assms this] obtain e' where fl: "lsm_flush X e = (Inr (), e')" "shows_db X e' (view X e, view X e)"
    and r: "at_rest X cfg (Suc j) (Suc n) b (next_run_id e', ?d e') (resolve (map (run_entries X) (runs e)))" by blast
  have "flush_locked X e = (Inr (), e')" using fl(1) assms(2) by (simp add: lsm_flush_def engine_flush_def)
  then have "dir_crash (disk e') (?d e')" by (intro dir_lost dir_kept flush_unforced)
  moreover from open_session [OF r] obtain e2 d2 where "open_with X cfg (next_run_id e') (?d e') = (Inr e2, d2)"
    "view X e2 = resolve (map (run_entries X) (runs e))" by (auto simp: shows_db_def)
  ultimately show ?thesis using fl by (intro exI [of _ e'] exI [of _ "?d e'"] exI [of _ e2] exI [of _ d2]) (simp add: shows_db_def)
qed

text \<open>A fresh store with one buffered write: after the flush and the failure the key is gone.\<close>

theorem unsynced_rename_loses_flush_witness:
  "\<exists>e e' d' e2 d2. lsm_flush demo e = (Inr (), e') \<and> view demo e' [1] = Some [2] \<and> dir_crash (disk e') d'
     \<and> open_with demo config_default (next_run_id e') d' = (Inr e2, d2)
     \<and> view demo e2 [1] = None"
proof -
  have "at_rest demo config_default (Suc (Suc 0)) (Suc (Suc (Suc 0))) (11 + 0) (1, demo_dir) Map.empty"
    by (rule at_rest_empty [OF demo_bloom demo_wal demo_pc])
      (simp_all add: demo_dir_def fault_free_def default_room)
  from open_session [OF this] obtain e0 where s0: "session demo config_default (Suc 0) (Suc (Suc 0)) (11 + 0) e0"
    "shows_db demo e0 (Map.empty, Map.empty)" by blast
  have "does demo config_default 0 11 (lsm_put demo [1] [2]) (Map.empty, Map.empty) () ([[1] \<mapsto> [2]], Map.empty)"
    using does_put [of "[1]" "[2]" demo config_default Map.empty Map.empty] by (simp add: fits_def)
  with s0 obtain e where s: "session demo config_default (Suc 0) (Suc (Suc 0)) 0 e" "shows_db demo e ([[1] \<mapsto> [2]], Map.empty)"
    unfolding does_def by (metis add_0)
  have "\<not> memtable_is_empty (mem e)"
  proof
    assume "memtable_is_empty (mem e)"
    then have "view demo e [1] = resolve (map (run_entries demo) (runs e)) [1]" by (simp add: empty_view)
    with s(2) show False by (simp add: shows_db_def)
  qed
  from unsynced_rename_loses_flush [OF s(1) this] s(2) show ?thesis by (fastforce simp: shows_db_def)
qed

end
