(* ===== verification/Failures.thy ===== *)
theory Failures
  imports Client_Logic Instances
begin

text \<open>
  Two failures the code does not report. When the existence check of the manifest fails,
  opening a store deletes its runs; and a value longer than the reader accepts is written,
  logged and flushed with success and can never be read.
\<close>

section \<open>An unreadable manifest\<close>

lemma open_files_unread:
  assumes X: "wal_laws X" and once: "plan d (Suc (clock d)) = Some failure" "\<And>n. clock d \<le> n \<Longrightarrow> n \<noteq> Suc (clock d) \<Longrightarrow> plan d n = None"
    and inv: "fs_inv d" and l: "log_found X d groups"
    and num: "\<And>name s. fs_lookup d name \<noteq> None \<Longrightarrow> seq_of name = Some s \<Longrightarrow> s \<noteq> - 1"
  shows "\<exists>e d'. open_files X cfg rid d = (Inr e, d') \<and> disk e = d' \<and> fault_free d' \<and> wal_ready X (dur e)
     \<and> runs e = [] \<and> mem e = apply_all (concat groups) memtable_new \<and> next_run_id e = rid
     \<and> (\<forall>s. run_filename s \<noteq> WAL_FILE \<and> fs_lookup d' (run_filename s) = None \<and> fs_lookup d' (sidecar_path (run_filename s)) = None)
     \<and> (\<forall>s. fs_lookup d (run_filename s) \<noteq> None \<longrightarrow> s < next_seq e)"
proof -
  let ?d1 = "tick (tick d)"
  have c0: "fs_call (Inr ()) d = (Inr (), tick d)" using once(2) [of "clock d"] by (simp add: fs_call_def)
  have ml: "manifest_load (tick d) = (Inr None, ?d1)" using manifest_load_unreadable [of "tick d" failure] once(1) by simp
  have f1: "fault_free ?d1" using once(2) by (simp add: fault_free_def)
  let ?names = "map fst (dir d)"
  have rd: "fs_read_dir ?d1 = (Inr ?names, tick ?d1)" using once(2) [of "clock ?d1"] by (simp add: fs_read_dir_def) (simp add: tick_def)
  have dn: "distinct ?names" using inv asc_keys_distinct by (simp add: fs_inv_def)
  have "\<forall>n \<in> set ?names. fs_lookup (tick ?d1) n \<noteq> None" using fs_lookup_dir [of d] by simp
  with reclaim_total [of "tick ?d1" ?names "[]" 0] f1 dn obtain seq d4 where
    rc: "reclaim [] ?names 0 (tick ?d1) = (Inr seq, d4)" and f4: "fault_free d4" by auto
  note r = reclaim_ok [OF rc]
  have l4: "fs_lookup d4 n = (if reclaimable [] n then None else fs_lookup d n)" for n
    using r fs_lookup_dir [of d n] by simp (metis not_None_eq)
  have "fs_lookup d4 WAL_FILE = fs_lookup d WAL_FILE" by (simp add: l4 reclaimable_names)
  then have l4': "log_found X d4 groups" using l log_found_cong by blast
  from durability_open_total [OF f4 X l4'] obtain du d5 where op: "durability_open X d4 = (Inr du, d5)" and f5: "fault_free d5" by blast
  note dok = durability_open_ok [OF X l4' op]
  have lg: "\<forall>g \<in> set groups. loggable g" using l by (simp add: log_found_def)
  from replay_log_total [OF f5 _ _ lg, of X du] dok obtain m d6 where rp: "replay_log X du memtable_new d5 = (Inr m, d6)" by blast
  have m: "m = apply_all (concat groups) memtable_new"
    by (rule replay_found [OF l4' _ _ rp]) (use dok in simp_all)
  have t6: "touches (\<lambda>n. False) d5 d6" by (rule act_keepsD [OF replay_log_keeps rp])
  have f6: "fault_free d6" using fault_free_touches [OF t6 f5] .
  have l6: "fs_lookup d6 n = fs_lookup d4 n" if "n \<noteq> WAL_FILE" for n
    using touchesD [OF t6] touchesD [of _ d4 d5 n] dok that by fastforce
  have nw: "run_filename s \<noteq> WAL_FILE" "sidecar_path (run_filename s) \<noteq> WAL_FILE" for s
    using run_names_fixed(3) [of s] sidecar_run_names by metis+
  have "open_files X cfg rid d = (Inr \<lparr>eng_config = cfg, mem = m, runs = [], dur = du, next_seq = seq, compacting = False,
          compaction = compaction_default, last_error = None,
          cache = cache_new (block_cache_capacity_bytes cfg), disk = d6, next_run_id = rid\<rparr>, d6)"
    by (simp add: open_files_def act_then_def act_map_err_def c0 ml rd rc op rp)
  moreover have "s < seq" if "fs_lookup d (run_filename s) \<noteq> None" for s
  proof -
    have "s + 1 \<noteq> 0" using num [OF that seq_of_run_filename] by (metis add_eq_0_iff2)
    then have "s < s + 1" by (rule less_succ_u64)
    moreover have "s + 1 \<le> seq" using r that fs_lookup_dir [of d "run_filename s"] seq_of_run_filename by blast
    ultimately show ?thesis by simp
  qed
  ultimately show ?thesis using f6 dok m l6 nw by (auto simp: l4 reclaimable_names)
qed


text \<open>
  C28: An unreadable manifest wipes the store. When the existence check of the manifest is
  the one system call that fails, opening succeeds: it takes the directory for a fresh one,
  deletes every run file that was there, and shows what the log holds over no runs at all.
  With writes in the log the checkpoint at the end of the open then replaces the manifest
  that named the runs.
\<close>

theorem unreadable_manifest_wipes_store:
  assumes X: "bloom_laws X" "wal_laws X" "pc_total X"
    and once: "plan d (Suc (clock d)) = Some failure" "\<forall>n \<ge> clock d. n \<noteq> Suc (clock d) \<longrightarrow> plan d n = None"
    and inv: "fs_inv d" and l: "log_found X d groups" and sz: "sized (entries (apply_all (concat groups) memtable_new))"
    and num: "\<forall>name s. fs_lookup d name \<noteq> None \<and> seq_of name = Some s \<longrightarrow> s \<noteq> - 1"
  shows "\<exists>e d'. open_with X cfg rid d = (Inr e, d') \<and> view X e = replayed X groups []
     \<and> (\<forall>s. fs_lookup d (run_filename s) \<noteq> None \<longrightarrow> fs_lookup d' (run_filename s) = None)"
proof -
  from open_files_unread [OF X(2) once(1) _ inv l, of cfg rid] once(2) num obtain e d1 where
    o: "open_files X cfg rid d = (Inr e, d1)" and d1: "disk e = d1" "fault_free d1" and wr: "wal_ready X (dur e)"
    and e: "runs e = []" "mem e = apply_all (concat groups) memtable_new"
    and gone: "\<And>s. fs_lookup d1 (run_filename s) = None" "\<And>s. fs_lookup d1 (sidecar_path (run_filename s)) = None"
    and past: "\<And>s. fs_lookup d (run_filename s) \<noteq> None \<Longrightarrow> s < next_seq e" by blast
  have v: "replayed X groups [] = resolve [memtable_iter (mem e)]" by (simp add: replayed_def e(2))
  have "\<exists>e1. engine_flush X e = (Inr (), e1) \<and> fault_free (disk e1) \<and> view X e1 = replayed X groups []
      \<and> (\<forall>s. fs_lookup d (run_filename s) \<noteq> None \<longrightarrow> fs_lookup (disk e1) (run_filename s) = None)"
  proof (cases "memtable_is_empty (mem e)")
    case True
    with d1 e gone v show ?thesis by (simp add: engine_flush_def view_def)
  next
    case False
    have "memtable_inv (mem e)" unfolding e(2) by (intro apply_all_inv memtable_new_inv)
    then have es: "asc_keys (memtable_iter (mem e))" "sized (memtable_iter (mem e))"
      using sz by (simp_all add: memtable_inv_def memtable_iter_def e(2))
    from flush_run_total [OF _ X(3) es, of "disk e" "run_filename (next_seq e)" "next_run_id e"] d1 obtain t d2 where
      fr: "flush_run X (run_filename (next_seq e)) (next_run_id e) (memtable_iter (mem e)) (disk e) = (Inr t, d2)" by blast
    have t: "run_entries X t = memtable_iter (mem e)"
      using flush_run_ok [OF X(1) es _ fr] gone(2) d1(1) by simp
    from flush_after_run [OF _ X(2) wr fr] d1 obtain e1 where fl: "flush_locked X e = (Inr (), e1)"
      and e1: "runs e1 = t # runs e" "mem e1 = memtable_new" "fault_free (disk e1)"
      and t1: "touches (\<lambda>n. n = WAL_FILE \<or> n = MANIFEST \<or> n = MANIFEST_TMP) d2 (disk e1)" by auto
    have "view X e1 = resolve [memtable_iter (mem e)]"
      using empty_view [of e1 X] e1 t e(1) by (simp add: memtable_is_empty_def memtable_new_def)
    moreover have "fs_lookup (disk e1) (run_filename s) = None" if "fs_lookup d (run_filename s) \<noteq> None" for s
    proof -
      have "\<not> run_names (run_filename (next_seq e)) (run_filename s)"
        using past [OF that] run_names_disjoint sidecar_run_names(2) by (metis less_irrefl)
      then have "fs_lookup d2 (run_filename s) = None"
        using touchesD [OF flush_run_touches [OF fr]] gone(1) d1(1) by simp
      moreover have "run_filename s \<noteq> WAL_FILE" "run_filename s \<noteq> MANIFEST" "run_filename s \<noteq> MANIFEST_TMP"
        using run_names_fixed [of s] sidecar_run_names(2) by metis+
      ultimately show ?thesis using touchesD [OF t1] by simp
    qed
    ultimately show ?thesis using fl e1(3) False v by (simp add: engine_flush_def)
  qed
  then obtain e1 where fl: "engine_flush X e = (Inr (), e1)" and f1: "fault_free (disk e1)" and v1: "view X e1 = replayed X groups []"
    and g1: "\<forall>s. fs_lookup d (run_filename s) \<noteq> None \<longrightarrow> fs_lookup (disk e1) (run_filename s) = None" by blast
  have c: "fs_call (Inr ()) (disk e1) = (Inr (), tick (disk e1))" by (rule fs_call_fault_free [OF f1])
  have "open_with X cfg rid d = (Inr (e1\<lparr>disk := tick (disk e1)\<rparr>), tick (disk e1))"
    using o fl c by (simp add: open_with_def)
  with v1 g1 show ?thesis by (auto simp: view_def)
qed


theorem unreadable_manifest_wipes_store_witness:
  "\<exists>e d'. open_with demo config_default 1 demo_unread = (Inr e, d') \<and> view demo e = Map.empty
     \<and> fs_lookup demo_unread (run_filename 0) \<noteq> None \<and> fs_lookup d' (run_filename 0) = None"
proof -
  have lk: "fs_lookup demo_unread n = (if n = MANIFEST then Some (manifest_file 1 [run_filename 0])
      else if n = run_filename 0 then Some (File [] True) else None)" for n
    by (simp add: demo_unread_def fs_lookup_def btree_get_def)
  have ne: "run_filename 0 \<noteq> MANIFEST" "run_filename 0 \<noteq> WAL_FILE" "MANIFEST \<noteq> WAL_FILE"
    using run_names_fixed [of 0] sidecar_run_names(2) by (metis, metis, simp add: MANIFEST_def WAL_FILE_def)
  have so: "seq_of MANIFEST = None" by (simp add: seq_of_def strip_prefix_def MANIFEST_def)
  have "MANIFEST < run_filename 0" by (simp add: MANIFEST_def run_filename_def)
  then have "fs_inv demo_unread" by (simp add: fs_inv_def demo_unread_def)
  moreover have "log_found demo demo_unread []" using ne by (simp add: log_found_def demo_on lk)
  moreover have "sized (entries (apply_all (concat []) memtable_new))" by (simp add: sized_def memtable_new_def)
  moreover have "\<forall>name s. fs_lookup demo_unread name \<noteq> None \<and> seq_of name = Some s \<longrightarrow> s \<noteq> - 1"
    using so seq_of_run_filename [of 0] by (auto simp: lk split: if_splits)
  ultimately obtain e d' where "open_with demo config_default 1 demo_unread = (Inr e, d')" "view demo e = replayed demo [] []"
    "\<forall>s. fs_lookup demo_unread (run_filename s) \<noteq> None \<longrightarrow> fs_lookup d' (run_filename s) = None"
    using unreadable_manifest_wipes_store [OF demo_bloom demo_wal demo_pc, of demo_unread "(PermissionDenied, 0)" "[]" config_default 1]
    by (auto simp: demo_unread_def)
  moreover have "replayed demo [] [] = Map.empty"
    by (simp add: replayed_def memtable_new_def memtable_iter_def resolve_def fun_eq_iff)
  moreover have "fs_lookup demo_unread (run_filename 0) \<noteq> None" using ne by (simp add: lk)
  ultimately show ?thesis by auto
qed

text \<open>
  The sweep does not count past a file with the largest 64-bit number: the sum wraps in a
  release build.
\<close>

lemma largest_number_not_counted:
  assumes "reclaim_entry live (run_filename (- 1)) seq d = (Inr seq', d')"
  shows "seq' = seq"
proof -
  have s: "seq_of (run_filename (- 1)) = Some (- 1)" by (rule seq_of_run_filename)
  from assms seq_of_stem(2,3) [OF s] s show ?thesis
    by (auto elim!: act_then_InrE simp: reclaim_entry_def ends_with_def Let_def max_def split: if_splits)
qed

section \<open>A value over the reader's limit\<close>

text \<open>The run of such a value is written, sealed and opened, and its only block is refused.\<close>

lemma oversized_run:
  assumes ff: "fault_free d" and X: "bloom_laws X" "pc_total X"
    and k: "length k \<le> 2 ^ 30" and v: "2 ^ 30 < length v" "9 + length k + length v < 2 ^ 32"
  shows "\<exists>t d'. flush_run X p rid [(k, Value v)] d = (Inr t, d') \<and> run_id t = rid \<and> might_contain X t k
     \<and> (\<exists>h. tbl_index t = [h] \<and> last_key h = k)
     \<and> decode_block_at X t 0 = Inl (corruption ''value length exceeds maximum'')"
proof -
  let ?tmp = "p @ ''.tmp''" and ?e = "(k, Value v)" and ?fo = "filter_add X (builder X 1) k"
  have push: "pushable ?e" "length (enc_entry ?e) < 2 ^ 32" using k v by (simp_all add: pushable_def length_enc_entry)
  obtain w d1 where c: "writer_create ?tmp d = (Inr w, d1)" and f1: "fault_free d1" using writer_create_total [OF ff] by blast
  note wc = writer_create_ok [OF c, of X]
  have "block_buf w = []" using wc by (simp add: writing_def)
  with writer_push_room [OF f1 push(1), of w X] push(2) obtain w' d2 where
    wp: "writer_push X w k (Value v) d1 = (Inr w', d2)" and f2: "fault_free d2" by auto
  have pe: "push_entries X (w, builder X 1) [?e] d1 = (Inr (w', ?fo), d2)" using wp by (simp add: act_then_def)
  from push_entries_ok [OF _ pe, of "[]" "[]"] wc obtain bss pend where
    w': "writing X w' d2 bss pend" "concat bss @ pend = [?e]" "w_path w' = ?tmp" by auto
  have one: "bss' = [[?e]]" if "concat bss' = [?e]" "run_blocks bss'" for bss'
  proof (cases bss')
    case (Cons b bs)
    with that have "b = [?e]" "concat bs = []" by (auto simp: run_blocks_def append_eq_Cons_conv)
    moreover have "bs = []" using that(2) Cons \<open>concat bs = []\<close> by (cases bs) (auto simp: run_blocks_def)
    ultimately show ?thesis using Cons by simp
  qed (use that in simp)
  have small: "indexable [[?e]] \<and> length (run_image X [[?e]]) < usize_limit"
  proof
    show "indexable [[?e]]" using k by (simp add: indexable_def)
    show "length (run_image X [[?e]]) < usize_limit"
      by (rule run_image_small) (use push in \<open>simp_all add: run_blocks_def\<close>)
  qed
  have "\<exists>bss' d'. concat bss' = concat bss @ pend \<and> run_blocks bss'
     \<and> seal_run X ''install flushed run'' ?tmp p rid (w', ?fo) d2 = (Inr (attach_cache (attach_filter (opened X rid p bss') ?fo)), d')"
    by (rule seal_run_opens [OF f2 X(2) w'(1,3)]) (use one small w'(2) in auto)
  then obtain d' where sl: "seal_run X ''install flushed run'' ?tmp p rid (w', ?fo) d2
      = (Inr (attach_cache (attach_filter (opened X rid p [[?e]]) ?fo)), d')" using one w'(2) by fastforce
  let ?t = "attach_cache (attach_filter (opened X rid p [[?e]]) ?fo)"
  have fr: "flush_run X p rid [?e] d = (Inr ?t, d')"
    using c pe sl by (simp add: flush_run_def Let_def act_then_def)
  have "covers X ?fo {k}" using covers_add [OF X(1), of "builder X 1" "{}" k] by simp
  then have mc: "might_contain X ?t k"
    by (auto simp: might_contain_def attach_cache_def attach_filter_def filter_might_contain_def covers_def split: option.splits)
  have "decode_block (enc_block [?e]) = Inl (corruption ''value length exceeds maximum'')"
    using oversized_block_refused [of k v] k v by (simp add: MAX_RECORD_LEN_def)
  then have dec: "decode_block_at X ?t 0 = Inl (corruption ''value length exceeds maximum'')"
    using push(2) by (simp add: decode_block_at_def attach_cache_def attach_filter_def opened_def Let_def pread_exact_def run_image_def)
  have "run_id ?t = rid" "tbl_index ?t = [handles X 8 [[?e]] ! 0]" "last_key (handles X 8 [[?e]] ! 0) = k"
    by (simp_all add: attach_cache_def attach_filter_def opened_def)
  with fr mc dec show ?thesis by blast
qed


lemma lookup_refused:
  assumes i: "engine_inv X e" and t: "run_id t = next_run_id e" "next_run_id e + 1 \<noteq> 0" "might_contain X t k"
    and h: "tbl_index t = [h]" "last_key h = k" and d: "decode_block_at X t 0 = Inl err"
  shows "fst (get_runs X k (t # runs e) (cache e)) = Inl err"
proof -
  let ?T = "insert t (set (runs e))" and ?n = "next_run_id e + 1"
  have lt: "next_run_id e < ?n" by (rule less_succ_u64 [OF t(2)])
  have ok: "\<forall>u \<in> set (runs e). run_id u < next_run_id e" "cache_coherent X (set (runs e)) (next_run_id e) (cache e)"
    and u: "ids_unique (set (runs e)) (next_run_id e)"
    using i engine_inv_reads [OF i] by (simp_all add: engine_inv_def handles_ok_def reads_inv_def)
  have "run_id a < ?n" if "a \<in> ?T" for a using that ok(1) lt t(1) by (cases "a = t") (auto dest: order.strict_trans)
  moreover have "file_bytes a = file_bytes b \<and> tbl_index a = tbl_index b" if ab: "a \<in> ?T" "b \<in> ?T" "run_id a = run_id b" for a b
  proof (cases "a = t \<longleftrightarrow> b = t")
    case True
    then show ?thesis using ab u by (auto simp: ids_unique_def)
  next
    case False
    then consider "a = t" "b \<in> set (runs e)" | "b = t" "a \<in> set (runs e)" using ab(1,2) by blast
    then have "next_run_id e < next_run_id e" using ok(1) t(1) ab(3) by cases metis+
    then show ?thesis by simp
  qed
  ultimately have "ids_unique ?T ?n" unfolding ids_unique_def by blast
  moreover have "cache_coherent X ?T ?n (cache e)" by (rule cache_coherent_add [OF ok(2) t(1,2)])
  ultimately have "fst (cached_block X t 0 (cache e)) = decode_block_at X t 0"
    using cached_block_correct [of X ?T ?n "cache e" t 0] h(1) by simp
  then obtain c where "cached_block X t 0 (cache e) = (Inl err, c)" using d by (cases "cached_block X t 0 (cache e)") simp
  with t(3) h show ?thesis by (simp add: sstable_lookup_def partition_point_def)
qed

text \<open>
  C40: The writer and the reader disagree on the size of a value. On a working store with an
  empty buffer, a put of a value of more than 2^30 bytes reports success, as long as the
  entry still fits a block of 32-bit length; so does the flush of the buffer, where the put
  did not trigger it; and then a lookup of the key fails with a corruption error.
\<close>

theorem oversized_value_unreadable:
  assumes s: "store_inv X e" "healthy X e" "headroom e" and m: "memtable_is_empty (mem e)"
    and k: "length k \<le> 2 ^ 30" and v: "2 ^ 30 < length v" "9 + length k + length v < 2 ^ 32"
  shows "\<exists>e1 e2. engine_put X k v e = (Inr (), e1) \<and> engine_flush X e1 = (Inr (), e2)
     \<and> fst (engine_get X k e2) = Inl (corruption ''value length exceeds maximum'')"
proof -
  let ?err = "corruption ''value length exceeds maximum''"
  have X: "bloom_laws X" and i: "engine_inv X e" and w: "wal_laws X" and pc: "pc_total X" and wr: "wal_ready X (dur e)" and ff: "fault_free (disk e)"
    using s by (simp_all add: store_inv_def healthy_def)
  obtain d where lb: "log_batch X (dur e) [(k, Value v)] (disk e) = (Inr (), d)" using log_batch_total [OF ff wr] by blast
  let ?e = "e\<lparr>disk := d, mem := apply_all [(k, Value v)] (mem e)\<rparr>"
  have fd: "fault_free d"
    using fault_free_keeps [OF log_batch_keeps lb ff] wr by (simp add: wal_ready_def)
  have es: "memtable_iter (mem ?e) = [(k, Value v)]"
    using m by (simp add: memtable_iter_def entries_memtable_apply memtable_is_empty_def)
  then have ne: "\<not> memtable_is_empty (mem ?e)" by (simp add: memtable_is_empty_def memtable_iter_def)
  from oversized_run [OF fd X pc k v, of "run_filename (next_seq e)" "next_run_id e"] obtain t d1 h where
    fr: "flush_run X (run_filename (next_seq e)) (next_run_id e) [(k, Value v)] d = (Inr t, d1)"
    and t: "run_id t = next_run_id e" "might_contain X t k" and h: "tbl_index t = [h]" "last_key h = k"
    and dec: "decode_block_at X t 0 = Inl ?err" by blast
  from flush_after_run [of ?e X t d1] fd w wr fr es obtain e2 where fl: "flush_locked X ?e = (Inr (), e2)"
    and e2: "runs e2 = t # runs e" "mem e2 = memtable_new" "cache e2 = cache e" by auto
  obtain c where "get_runs X k (t # runs e) (cache e) = (Inl ?err, c)"
    using lookup_refused [OF i t(1) _ t(2) h dec] s(3) by (auto simp: headroom_def prod_eq_iff simp del: get_runs.simps)
  then have "fst (engine_get X k e2) = Inl ?err"
    using e2 by (simp add: engine_get_def memtable_new_def memtable_get_def btree_get_def del: get_runs.simps)
  moreover have "memtable_is_empty (mem e2)" by (simp add: e2 memtable_new_def memtable_is_empty_def)
  ultimately have "\<exists>e1. maybe_flush X ?e = (Inr (), e1) \<and> engine_flush X e1 = (Inr (), e2)"
    using fl ne by (auto simp: maybe_flush_def engine_flush_def)
  moreover have "engine_put X k v e = maybe_flush X ?e" using lb by (simp add: writes_are_write_ops write_ops_def)
  ultimately show ?thesis using \<open>fst (engine_get X k e2) = _\<close> by auto
qed

theorem oversized_value_unreadable_witness:
  "\<exists>e1 e2. engine_put demo [1] (replicate (2 ^ 30 + 1) 0) demo_engine = (Inr (), e1) \<and> engine_flush demo e1 = (Inr (), e2)
     \<and> fst (engine_get demo [1] e2) = Inl (corruption ''value length exceeds maximum'')"
  by (rule oversized_value_unreadable [OF demo_inv demo_healthy demo_fields(3)])
    (simp_all add: demo_fields memtable_new_def memtable_is_empty_def)

end
