(* ===== verification/Spec2Isabelle.thy ===== *)
theory Spec2Isabelle
  imports Instances Client_Programs Directory_Sync Failures
begin

text \<open>
  \<^bold>\<open>A verification of the lsm-db storage engine.\<close>

  lsm-db (src/src) is an embedded key-value store over byte strings, a log-structured merge
  tree in one directory. A write is appended to a write-ahead log and put in a sorted
  in-memory buffer, the memtable. A full buffer is flushed to an immutable sorted run, a file
  of checksummed blocks with an index and a footer, and a bloom filter beside it. A manifest,
  replaced atomically, names the live runs, newest first. A lookup asks the buffer and then
  each run, through its filter and a shared cache of decoded blocks; a range scan merges all
  sources. A background thread merges the runs into one while reads and writes go on, and the
  file of a replaced run is removed when the last handle on it is dropped. Opening a directory
  loads the manifest, removes what it does not name, replays the log and flushes what it held.

  \<^bold>\<open>Theories, in the order the code is layered.\<close>

  \<^item> \<^verbatim>\<open>Prelude\<close>: the result monad for \<^verbatim>\<open>Result\<close> and for actions with a state, byte strings and
    their order, fixed-width little-endian integers, association lists with ascending keys.
  \<^item> \<^verbatim>\<open>Errors\<close>: error.rs and record.rs.
  \<^item> \<^verbatim>\<open>BTree_Map\<close>: what the engine uses of \<^verbatim>\<open>BTreeMap\<close>; the locale \<^verbatim>\<open>ordered_map\<close> is its
    contract and \<^verbatim>\<open>btree\<close> its interpretation.
  \<^item> \<^verbatim>\<open>Memtable\<close>: memtable.rs, with the byte count kept at 64 bits.
  \<^item> \<^verbatim>\<open>Batch_Config\<close>: batch.rs, config.rs, scan.rs.
  \<^item> \<^verbatim>\<open>Block_Codec\<close>, \<^verbatim>\<open>SSTable_Writer\<close>, \<^verbatim>\<open>SSTable\<close>: sstable.rs, that is the byte layout with its
    bounds-checked decoders, the streaming writer, and opening, lookup, cursor and removal.
  \<^item> \<^verbatim>\<open>Cache\<close>: cache.rs. The locale \<^verbatim>\<open>lossy_cache\<close> is what a reader relies on; it is interpreted
    for one shard and for the sharded cache.
  \<^item> \<^verbatim>\<open>File_System\<close>: the directory as a list of named files, each with a flag for whether its bytes have been
    forced to the medium, the changes of directory entries that have not been, and the \<^verbatim>\<open>std::fs\<close> calls. A plan decides which call fails, by the
    number of calls made so far, so that every error branch of the code can be taken. The
    positioned reads of sstable.rs are here for both platforms, with the loop over short reads
    shown equal to the exact read.
  \<^item> \<^verbatim>\<open>Bloom\<close>: bloom.rs, and the record \<^verbatim>\<open>externals\<close> of the third-party functions: checksum, filter,
    filter serialisation, log format, and whether the two optional features are built in; the
    \<^verbatim>\<open>disabled\<close> modules are definitions of their own, here and in \<^verbatim>\<open>Durability\<close>.
  \<^item> \<^verbatim>\<open>Entry_Stream\<close>, \<^verbatim>\<open>Merge\<close>: merge.rs. The locales \<^verbatim>\<open>entry_source\<close> and \<^verbatim>\<open>entry_stream\<close> are what a
    merge needs of a source; run cursors and the two-way source type interpret them.
  \<^item> \<^verbatim>\<open>Manifest\<close>: manifest.rs, with the text parsed and printed character by character.
  \<^item> \<^verbatim>\<open>Durability\<close>: durability.rs with the feature on and off.
  \<^item> \<^verbatim>\<open>Engine\<close>: db.rs. One record holds what is behind the locks; \<^verbatim>\<open>open_with\<close>, \<^verbatim>\<open>apply\<close>,
    \<^verbatim>\<open>flush_locked\<close>, \<^verbatim>\<open>get\<close>, \<^verbatim>\<open>scan\<close>, \<^verbatim>\<open>compact_inner\<close> and the rest are actions on it that keep every
    early return of the code.
  \<^item> \<^verbatim>\<open>Compactor\<close>: \<^verbatim>\<open>compactor_loop\<close>, the drop of the database handle and the shared handles on
    runs, as a step relation \<^verbatim>\<open>sys_step\<close> whose steps are the critical sections of db.rs: client
    calls, one step of a lookup or scan in flight, one step of the compactor, close.
  \<^item> \<^verbatim>\<open>Client_Programs\<close>: the five programs of src/examples, as the calls they make.

  The remaining theories hold proofs. \<^verbatim>\<open>Engine_Read\<close> (what lookups and scans return),
  \<^verbatim>\<open>Run_Files\<close> (a run file that has been written opens and decodes), \<^verbatim>\<open>Engine_Write\<close> (the
  invariant of the engine and every outcome of each write, flush and compaction), \<^verbatim>\<open>Store\<close> (the
  locale \<^verbatim>\<open>store_contract\<close>, a map with fallible operations, and its interpretation on the
  engine), \<^verbatim>\<open>Recovery\<close> (open, reclaim, replay), \<^verbatim>\<open>Progress\<close> (operations succeed when the
  directory works), \<^verbatim>\<open>Crash_Safety\<close> (every state a failed flush or write can leave on disk, and
  what a reopen makes of it), \<^verbatim>\<open>Fleet\<close> (all handles on run files), \<^verbatim>\<open>Concurrency\<close>,
  \<^verbatim>\<open>Interleaving\<close>, \<^verbatim>\<open>Process\<close> (the invariant of the running process over every interleaving, and
  readers in flight), \<^verbatim>\<open>Durable_Process\<close> (power failure at any point of an execution),
  \<^verbatim>\<open>Instances\<close> (concrete external functions, and stores reached by running the operations),
  \<^verbatim>\<open>Client_Logic\<close> (rules for programs that use the store: \<^verbatim>\<open>does\<close> is the total correctness of a
  program against what the store shows and what its runs hold, \<^verbatim>\<open>session\<close> an open store with a
  budget of runs and bytes, \<^verbatim>\<open>at_rest\<close> a directory between two sessions), \<^verbatim>\<open>Directory_Sync\<close> (a
  power failure that undoes the rename of the manifest), \<^verbatim>\<open>Failures\<close> (a store whose manifest cannot
  be checked for, and a value over the reader's limit, each from the call to what is lost).

  \<^bold>\<open>What is shown.\<close> The contents of a store is the map \<^verbatim>\<open>view\<close>: per key, the newest record over
  the buffer and the runs, a tombstone read as absence.

  \<^item> Sequential behaviour: lookups and scans return \<^verbatim>\<open>view\<close>; every operation refines its effect on
    the map and keeps the invariant on success and on failure; flush and compaction
    leave the contents as they were; any sequence of operations reads back; the iterator of a
    scan hands out its pairs from both ends.
  \<^item> Programs: each example program, from an empty directory on a working disk, runs to its end
    and prints what is stated, over one or two sessions, for any external functions that obey
    their laws.
  \<^item> Durability: with the log built in, acknowledged writes survive a power failure at any point
    of a concurrent execution; a flush interrupted at any call recovers to the same contents; an
    interrupted write is there entirely or not at all; reopening succeeds.
  \<^item> Concurrency: every interleaving of clients, readers and compactor refines the map; a lookup
    answers with the contents at a moment between its call and its return; a scan answers with
    the contents at its snapshot; files in use stay and are removed by the last handle; a
    background round that is not interfered with is the synchronous compaction.
  \<^item> Progress: operations succeed on a working directory; shutdown ends after a bounded number of
    steps; a flush that reaches the trigger wakes the compactor.
  \<^item> Formats: runs, blocks, index, manifest, log records, sidecars and run names read back as
    written, damage is reported, and the merge is exact.
  \<^item> Behaviours that differ from the documentation are theorems too: a failed flush discards the
    buffer, and the next successful one rotates the log that still held it; when the check for the
    manifest fails, opening succeeds on an empty list of runs and removes every run file; a value
    longer than the decoder's limit is put and flushed with success and cannot be read; the rename
    of the manifest is among the unforced changes of the directory when the log is emptied, and a
    power failure that undoes it loses the flush.

  \<^bold>\<open>Hypotheses and bounds.\<close> \<^verbatim>\<open>bloom_laws\<close> and \<^verbatim>\<open>wal_laws\<close> are the documented behaviour of the filter,
  serialisation and log crates, among it that \<^verbatim>\<open>Wal::open\<close> forces the log file; \<^verbatim>\<open>Instances\<close> gives
  functions that satisfy them. \<^verbatim>\<open>sized\<close> bounds
  the entries of one run to 2^44 encoded bytes, so that, at 4 KiB a block, the block number fits the 32 bits
  of a cache key; \<^verbatim>\<open>fits\<close> is the decoder's limit for one key or value; \<^verbatim>\<open>headroom\<close> says that the two
  64-bit counters do not wrap at the next step; \<^verbatim>\<open>room\<close>, \<^verbatim>\<open>loggable\<close> and \<^verbatim>\<open>replay_fits\<close> say the same of
  reopening, of a log record and of the replayed log. A budget of \<^verbatim>\<open>Client_Logic\<close> keeps a program below
  the compaction trigger and the buffer capacity, so that the compactor sleeps throughout. No
  definition has fuel: the loops of the merge end by the number of entries and blocks left, the sweep of the cache by the reference bits, and
  \<^verbatim>\<open>rank\<close> bounds the steps the compactor takes until it ends.

  \<^bold>\<open>Not modelled.\<close>

  \<^item> lib.rs (re-exports), the benches, fuzz targets and tests, and the helpers that are compiled
    for tests only.
  \<^item> Poisoned locks. A panic while a lock is held does not occur in the model.
  \<^item> Read errors on a run that is already open: its handle reads the bytes it was opened on. Damage
    is a property of the bytes, and is modelled.
  \<^item> Loss of directory changes in the theorems on crashes and reopening: there a create, rename or
    removal that returned is not undone by a power failure, and the bytes of a file that was not
    forced may be anything afterwards. \<^verbatim>\<open>Directory_Sync\<close> shows what happens without it. Those theorems
    also take the existence check of the manifest to succeed; \<^verbatim>\<open>Failures\<close> shows what happens otherwise.
  \<^item> Overflow of \<^verbatim>\<open>seq + 1\<close> in the sweep of open, for a file numbered with the largest 64-bit number:
    the model wraps, as a release build does; a debug build panics.
  \<^item> The buffering of \<^verbatim>\<open>BufWriter\<close>, and the order of \<^verbatim>\<open>read_dir\<close>, which is the order of names.
  \<^item> A write or flush is one step: the compactor's file operations outside the locks, which touch
    files of its own names only, are not interleaved inside it.
\<close>

section \<open>The store as a map\<close>

text \<open>
  C1: A point lookup returns what the store holds. In every state that satisfies the
  engine's invariant, \<^verbatim>\<open>get\<close> succeeds and returns the newest record of the key over the
  buffer and the runs, with a tombstone read as absence, whatever the filters, the block
  cache and the block index contribute on the way.
\<close>

theorem get_returns_newest:
  assumes "store_inv X e"
  shows "fst (engine_get X k e)
     = Inr (Option.bind (newest (memtable_iter (mem e) # map (run_entries X) (runs e)) k) visible)"
  using lsm.lookup_contents [OF assms] by (simp add: view_def resolve_def)

theorem get_returns_newest_witness:
  "fst (engine_get demo [1] demo_flushed) = Inr (Some [2])"
  using get_returns_newest [OF demo_flushed_ok(1), of "[1]"] demo_flushed_fields
  by (simp add: memtable_iter_def memtable_new_def)

text \<open>
  C2: A range scan returns exactly the live pairs of the range: it succeeds, its keys are
  strictly ascending, and as a map it is the store's contents restricted to the keys that
  lie between the bounds.
\<close>

theorem scan_returns_range:
  assumes "store_inv X e"
  shows "\<exists>out. engine_scan X rng e = Inr (scan_new out) \<and> asc_keys out
     \<and> map_of out = (\<lambda>k. if in_range rng k then view X e k else None)"
  using assms scan_correct [OF engine_inv_reads, of X e rng] by (simp add: store_inv_def position_In)

theorem scan_returns_range_witness:
  "engine_scan demo \<lparr>start_bound = Unbounded, end_bound = Excluded [2]\<rparr> demo_flushed = Inr (scan_new [([1], [2])])"
proof -
  let ?rng = "\<lparr>start_bound = Unbounded, end_bound = Excluded [2]\<rparr>"
  from scan_returns_range [OF demo_flushed_ok(1), of ?rng]
  obtain out where o: "engine_scan demo ?rng demo_flushed = Inr (scan_new out)" "asc_keys out"
    "map_of out = (\<lambda>k. if in_range ?rng k then view demo demo_flushed k else None)" by blast
  have "map_of out = map_of [([1], [2])]"
    unfolding o(3) demo_flushed_ok(3)
    by (auto simp: fun_eq_iff in_range_def)
  then have "out = [([1], [2])]" using asc_keys_unique [OF o(2), of "[([1], [2])]"] by simp
  with o(1) show ?thesis by simp
qed

text \<open>
  C39: A scan can be drawn from both ends. Whatever sequence of \<^verbatim>\<open>next\<close> and \<^verbatim>\<open>next_back\<close> is made on
  the iterator a scan returned, what came from the front, what is left, and what came from
  the back in reverse are together exactly the live pairs of the range in ascending order;
  every call hands out a pair while one is left, and from the end it was made on.
\<close>

theorem scan_from_both_ends:
  assumes "store_inv X e"
  shows "\<exists>s front rear t. engine_scan X rng e = Inr s \<and> scan_draw ds s = (front, rear, t)
     \<and> asc_keys (front @ inner t @ rev rear)
     \<and> map_of (front @ inner t @ rev rear) = (\<lambda>k. if in_range rng k then view X e k else None)
     \<and> length front + length rear = min (length ds) (scan_len s)
     \<and> (length ds \<le> scan_len s \<longrightarrow> length front = count_list ds True)"
proof -
  have "reads_inv X e" by (rule engine_inv_reads) (use assms in \<open>simp add: store_inv_def\<close>)
  from scan_correct [OF this, of rng] obtain out where o: "engine_scan X rng e = Inr (scan_new out)" "asc_keys out"
    "map_of out = (\<lambda>k. if position rng k = In then view X e k else None)" by blast
  obtain front rear t where d: "scan_draw ds (scan_new out) = (front, rear, t)" by (cases "scan_draw ds (scan_new out)")
  from scan_draw_partition [OF d] have "out = front @ inner t @ rev rear" by (simp add: scan_new_def)
  with o d scan_draw_count [OF d] show ?thesis by (auto simp: position_In)
qed

theorem scan_from_both_ends_witness:
  "\<exists>s t. engine_scan demo \<lparr>start_bound = Unbounded, end_bound = Unbounded\<rparr> demo_two = Inr s
     \<and> scan_draw [False, True, True] s = ([([1], [2])], [([3], [4])], t)"
proof -
  let ?rng = "\<lparr>start_bound = Unbounded, end_bound = Unbounded\<rparr>" and ?m = "[[1] \<mapsto> [2], [3] \<mapsto> [4]]"
  from scan_from_both_ends [OF demo_two_ok(1), of ?rng "[False, True, True]"] obtain s front rear t where
    w: "engine_scan demo ?rng demo_two = Inr s" "scan_draw [False, True, True] s = (front, rear, t)"
    "asc_keys (front @ inner t @ rev rear)" "map_of (front @ inner t @ rev rear) = (\<lambda>k. if in_range ?rng k then view demo demo_two k else None)"
    "length front + length rear = min 3 (scan_len s)" by auto
  have "map_of (front @ inner t @ rev rear) = map_of [([1], [2]), ([3], [4])]"
    unfolding w(4) by (auto simp: in_range_def demo_two_ok(3) fun_eq_iff)
  with w(3) have "front @ inner t @ rev rear = [([1], [2]), ([3], [4])]" by (intro asc_keys_unique) simp_all
  then have "s = scan_new [([1], [2]), ([3], [4])]"
    using scan_draw_partition [OF w(2)] by (cases s) (simp add: scan_new_def)
  with w(1) show ?thesis by (simp add: scan_next_def scan_next_back_def scan_new_def)
qed

text \<open>
  C3: Every operation refines the map. From a state that satisfies the invariant, put,
  delete, a batch, a flush and a compaction keep the invariant whether they succeed or
  fail; when they report success the contents change exactly as the operation says
  (the records of the write applied in order; nothing for flush and compaction).
\<close>

theorem operations_refine_map:
  assumes "store_inv X e" and "admits_op X e a"
  shows "store_inv X (snd (run_op X a e))
     \<and> (fst (run_op X a e) = Inr () \<longrightarrow> view X (snd (run_op X a e)) = fold spec_apply (op_records a) (view X e))"
  using run_op_correct [OF assms] by (simp add: op_effect_def)

theorem operations_refine_map_witness:
  "store_inv demo demo_flushed \<and> view demo demo_flushed = view demo demo_put"
proof -
  have "fst (run_op demo FlushOp demo_put) = Inr ()"
    by (rule run_op_good(3) [OF demo_put_ok(1) demo_admits_flush demo_put_ok(2)])
  with operations_refine_map [OF demo_put_ok(1) demo_admits_flush] show ?thesis
    by (simp add: demo_flushed_def)
qed

text \<open>
  Sequences of operations read back. After any sequence of admitted operations that
  all reported success, in any mix of writes, flushes and compactions, \<^verbatim>\<open>get\<close> of any key
  returns the value the sequence of writes left for it.
\<close>

theorem sequences_read_back:
  assumes "store_inv X e" and "lsm.performs X e as e'"
  shows "fst (engine_get X k e') = Inr (fold (\<lambda>a. fold spec_apply (op_records a)) as (view X e) k)"
  using lsm.performs_lookup [OF assms(2,1)] by (simp add: op_effect_def [abs_def])

text \<open>
  C16: On a disk without faults every admitted operation completes and reports success,
  and leaves the store ready for the next one.
\<close>

theorem operations_complete:
  assumes "store_inv X e" and "admits_op X e a" and "healthy X e"
  shows "\<exists>e'. run_op X a e = (Inr (), e') \<and> healthy X e' \<and> store_inv X e'"
  using run_op_good [OF assms] by (cases "run_op X a e") auto

theorem operations_complete_witness:
  "\<exists>e'. run_op demo CompactOp demo_two = (Inr (), e') \<and> healthy demo e' \<and> store_inv demo e'"
  by (rule operations_complete [OF demo_two_ok(1) demo_admits_compact demo_two_ok(2)])

section \<open>Power failures\<close>

text \<open>
  C4: Acknowledged writes survive. A store is opened, the process runs in any interleaving
  of client writes, flushes, readers and the background compactor, none of its writes
  fails; then the power fails between any two steps, which keeps only the files forced to
  stable storage, and the store is opened again. It shows the map the first open found,
  changed by every write of the run in order: no acknowledged write is lost, none is
  applied twice, none is reordered.
\<close>

theorem acknowledged_writes_survive:
  assumes "bloom_laws X" and "wal_laws X" and "durability_on X"
    and "openable X rid d rs groups" and "sized (entries (apply_all (concat groups) memtable_new))"
    and "open_with X cfg rid d = (Inr e, d1)"
    and "exec X (started e) tr s" and "\<forall>(a, ev) \<in> set tr. \<not> failed ev"
    and "\<forall>op ev. (Client op, ev) \<in> set tr \<longrightarrow> loggable (op_records op)"
    and "crashes X (disk (eng s)) d2" and "room rid' d2 (length (runs (eng s)))" and "replay_fits X (disk (eng s))"
    and "open_with X cfg' rid' d2 = (Inr e', d3)"
  shows "view X e' = fold (\<lambda>(a, ev). action_effect a) tr (replayed X groups rs)"
proof -
  note st = open_started [OF assms(1,2,4-6)]
  have e: "eng (started e) = e" by (simp add: started_def)
  have "durable X (eng s)" using exec_durable [OF assms(2,3,7) st(1)] st(3) assms(3,8,9) e by simp
  moreover have "store_inv X (eng s)" using exec_inv [OF assms(7) st(1)] by (simp add: sys_inv_def)
  ultimately have "view X e' = view X (eng s)" using durable_reopen [OF _ assms(2)] assms(10-13) by blast
  with exec_view [OF assms(7) st(1) assms(8)] st(2) e show ?thesis by simp
qed

theorem acknowledged_writes_survive_witness:
  "\<exists>e d. open_with demo config_default 1 (disk demo_put) = (Inr e, d) \<and> view demo e = [[1] \<mapsto> [2]]"
proof -
  let ?tr = "[(Client (PutOp [1] [2]), Done (PutOp [1] [2]) (Inr ()))]"
  have sz: "sized (entries (apply_all (concat []) memtable_new))" by (rule sized_small) (simp_all add: memtable_new_def)
  have e: "eng (started demo_put) = demo_put" by (simp add: started_def)
  from demo_reopens obtain e d where o: "open_with demo config_default 1 (disk demo_put) = (Inr e, d)" by blast
  have "view demo e = fold (\<lambda>(a, ev). action_effect a) ?tr (replayed demo [] [])"
    by (rule acknowledged_writes_survive [OF demo_bloom demo_wal demo_on demo_openable sz demo_open demo_exec])
      (use demo_loggable demo_crash o e in auto)
  also have "\<dots> = [[1] \<mapsto> [2]]"
    by (simp add: op_effect_def spec_apply_def replayed_def resolve_def memtable_new_def memtable_iter_def fun_eq_iff)
  finally show ?thesis using o by blast
qed

text \<open>
  C9: A write is all or nothing. Whatever fails while a put, a delete or a batch runs, the
  log append included, if the process dies right after and the store is opened again it
  shows the map with the whole write or, if the write did not report success, possibly
  the map without any of it; a batch is never applied in part.
\<close>

theorem write_all_or_nothing:
  assumes "store_inv X e" and "wal_laws X" and "durability_on X" and "durable X e"
    and "admits_op X e a" and "a \<noteq> FlushOp" "a \<noteq> CompactOp" and "loggable (op_records a)" and "run_op X a e = (r, e')"
    and "room rid (disk e') (length (runs e'))" and "replay_fits X (disk e')"
    and "open_with X cfg rid (disk e') = (Inr e2, d2)"
  shows "view X e2 = op_effect a (view X e) \<or> r \<noteq> Inr () \<and> view X e2 = view X e"
proof -
  have X: "bloom_laws X" and inv: "engine_inv X e" and ad: "admits_ops e (op_records a)"
    using assms(1,5) by (simp_all add: store_inv_def admits_op_def)
  from assms(4) obtain groups where l: "logged X e groups" and p: "fs_lookup (disk e) WAL_FILE \<noteq> None"
    by (auto simp: durable_def)
  have w: "write_ops X (op_records a) e = (r, e')" using assms(6,7,9) by (cases a) (simp_all add: writes_are_write_ops)
  have "\<forall>g \<in> set groups. loggable g" "replayed X groups (runs e) = view X e"
    using l by (simp_all add: logged_def log_found_def)
  from write_ops_recovers [OF X assms(2,3) inv ad assms(8) logged_logs [OF l assms(3) p] this w]
  have rc: "recovers X e' (op_effect a (view X e)) \<or> r \<noteq> Inr () \<and> recovers X e' (view X e)" by (simp add: op_effect_def)
  have "store_inv X e'" using run_op_correct(1) [OF assms(1,5)] assms(9) by simp
  from recovers_reopen [OF this assms(2) _ assms(10-12)] rc show ?thesis by blast
qed

theorem write_all_or_nothing_witness:
  "\<exists>e d. open_with demo config_default 1 (disk demo_put) = (Inr e, d) \<and> view demo e = [[1] \<mapsto> [2]]"
proof -
  from demo_reopens obtain e d where o: "open_with demo config_default 1 (disk demo_put) = (Inr e, d)" by blast
  have r: "run_op demo (PutOp [1] [2]) demo_engine = (Inr (), demo_put)"
    using run_op_good(3) [OF demo_inv demo_admits_put demo_healthy] by (simp add: demo_put_def prod_eq_iff)
  have "loggable (op_records (PutOp [1] [2]))" using demo_loggable by simp
  from write_all_or_nothing [OF demo_inv demo_wal demo_on demo_durable demo_admits_put _ _ this r demo_crash(2,3) o]
  show ?thesis using o demo_engine_empty by (simp add: op_effect_def spec_apply_def)
qed

text \<open>
  C8: A flush may stop anywhere. Let a flush fail at any of its system calls, or succeed,
  and let the power fail right after: the reopened store shows the map as it was before
  the flush. The run is forced to stable storage before the manifest names it and the log
  is emptied only after that.
\<close>

theorem crash_in_flush_recovers:
  assumes "store_inv X e" and "wal_laws X" and "durability_on X" and "durable X e" and "admits_op X e FlushOp"
    and "flush_locked X e = (r, e')" and "crashes X (disk e') d" and "room rid d (length (runs e'))"
    and "replay_fits X (disk e')" and "open_with X cfg rid d = (Inr e2, d2)"
  shows "view X e2 = view X e"
proof -
  have X: "bloom_laws X" and inv: "engine_inv X e" using assms(1) by (simp_all add: store_inv_def)
  have ad: "headroom e" "sized (entries (mem e))" "wal_path (dur e) = WAL_FILE"
    using assms(5) by (simp_all add: admits_op_def admits_ops_def)
  from assms(4) obtain groups where "logged X e groups" by (auto simp: durable_def)
  from logged_flush [OF X assms(2,3) inv ad this assms(6)] obtain gs where
    gs: "log_found X (disk e') gs" "wal_synced (disk e')" "replayed X gs (runs e') = view X e" by blast
  have "engine_inv X e'" using flush_locked_post [OF X inv ad] assms(6) by (simp add: flush_post_def)
  from crash_reopen [OF X assms(2) this gs(1,2) _ assms(7,8,10)] gs(1,3) assms(9) show ?thesis
    by (simp add: replay_fits_def)
qed

theorem crash_in_flush_recovers_witness:
  "\<exists>e d. open_with demo config_default 1 (disk demo_put) = (Inr e, d) \<and> view demo e = [[1] \<mapsto> [2]]"
proof -
  from demo_reopens obtain e d where o: "open_with demo config_default 1 (disk demo_put) = (Inr e, d)" by blast
  have "crashes demo (disk demo_failed) (disk demo_put)" "room 1 (disk demo_put) (length (runs demo_failed))"
    "replay_fits demo (disk demo_failed)"
    using demo_crash demo_failed_eq(2,3) demo_put_fields(2) log_found_cong [OF demo_failed_eq(3), of demo]
    by (simp_all add: crashes_def replay_fits_def)
  from crash_in_flush_recovers [OF demo_glitch_ok(1) demo_wal demo_on demo_glitch_ok(3,2) demo_failed_eq(1) this o] o
  show ?thesis by (simp add: demo_glitch_ok)
qed

section \<open>The running process\<close>

text \<open>
  C5: The running process refines the map. In every interleaving of client writes and
  flushes, lookups and scans in flight, and the steps of the background compactor, the
  invariant of the process holds, whatever fails; and as long as no write reports a
  failure, the contents are what the writes made of them in the order in which they took
  the write lock: readers, the compactor and the shutdown change nothing.
\<close>

theorem concurrent_refinement:
  assumes "sys_inv X s" and "exec X s tr s'"
  shows "sys_inv X s'
     \<and> ((\<forall>(a, ev) \<in> set tr. \<not> failed ev) \<longrightarrow> view X (eng s') = fold (\<lambda>(a, ev). action_effect a) tr (view X (eng s)))"
  using exec_inv [OF assms(2,1)] exec_view [OF assms(2,1)] by simp

theorem concurrent_refinement_witness:
  "sys_inv demo (started demo_put) \<and> view demo (eng (started demo_put)) = [[1] \<mapsto> [2]]"
  using concurrent_refinement [OF demo_start demo_exec] demo_engine_empty
  by (simp add: op_effect_def spec_apply_def started_def)

text \<open>
  C6: Lookups are linearizable. A lookup consults the buffer and clones the run handles
  under the read lock and then searches run after run with no lock held, while writes,
  flushes and compactions go on. However its steps interleave with theirs, what it
  answers is the contents of the key at the moment it started; it reports no error.
\<close>

theorem lookup_linearizable:
  assumes "sys_inv X s" and "exec X s ((BeginGet i k, ev) # tr) s'"
    and "answer i (ev # map snd tr) = Some r"
  shows "r = Inr (view X (eng s) k)"
  using get_answer [OF assms(1,2)] assms(3) by simp

theorem lookup_linearizable_witness:
  "\<exists>s'. exec demo (started demo_flushed)
     [(BeginGet 0 [1], Quiet), (Client (PutOp [1] [9]), Done (PutOp [1] [9]) (Inr ())), (Step 0, GetDone 0 (Inr (Some [2])))] s'"
proof -
  from demo_get_run obtain r s' where ex: "exec demo (started demo_flushed)
     [(BeginGet 0 [1], Quiet), (Client (PutOp [1] [9]), Done (PutOp [1] [9]) (Inr ())), (Step 0, GetDone 0 r)] s'" by blast
  from lookup_linearizable [OF demo_started(2) this, of r] have "r = Inr (Some [2])"
    by (simp add: started_def demo_flushed_ok)
  with ex show ?thesis by blast
qed

text \<open>
  C7: A scan is a snapshot. Its result is what the sequential scan would have returned at
  the moment it started, whatever is written, flushed, compacted or removed between its
  start and its end.
\<close>

theorem scan_is_snapshot:
  assumes "exec X s ((BeginScan i rng, ev) # tr) s'" and "scan_answer i (ev # map snd tr) = Some r"
  shows "r = engine_scan X rng (eng s)"
  using scan_answer_snapshot [OF assms(1)] assms(2) by simp

theorem scan_is_snapshot_witness:
  "\<exists>s'. exec demo (started demo_flushed)
     [(BeginScan 0 \<lparr>start_bound = Unbounded, end_bound = Unbounded\<rparr>, Quiet),
      (Client (PutOp [1] [9]), Done (PutOp [1] [9]) (Inr ())),
      (Step 0, ScanDone 0 (engine_scan demo \<lparr>start_bound = Unbounded, end_bound = Unbounded\<rparr> demo_flushed))] s'"
proof -
  let ?rng = "\<lparr>start_bound = Unbounded, end_bound = Unbounded\<rparr>"
  from demo_scan_run obtain r s' where ex: "exec demo (started demo_flushed)
     [(BeginScan 0 ?rng, Quiet), (Client (PutOp [1] [9]), Done (PutOp [1] [9]) (Inr ())), (Step 0, ScanDone 0 r)] s'" by blast
  from scan_is_snapshot [OF this, of r] have "r = engine_scan demo ?rng demo_flushed" by (simp add: started_def)
  with ex show ?thesis by blast
qed

text \<open>
  C11: No file is removed under a reader. In every reachable state, each handle held by the
  engine, by a lookup or scan in flight or by the compactor stands for a file that is on
  the disk with exactly the bytes the handle was opened on, forced to stable storage; and
  no two handles share an id or a name unless they are the same.
\<close>

theorem held_files_stay:
  assumes "sys_inv X s" and "exec X s tr s'" and "t \<in> set (held s')"
  shows "fs_lookup (disk (eng s')) (tbl_path t) = Some (File (file_bytes t) True)
     \<and> (\<forall>u \<in> set (held s'). run_id u = run_id t \<or> tbl_path u = tbl_path t \<longrightarrow> u = t)"
proof -
  have f: "fleet_ok X (eng s') (set (held s'))" using exec_inv [OF assms(2,1)] by (simp add: sys_inv_def)
  with assms(3) have "committed X (disk (eng s')) t" by (simp add: fleet_ok_def)
  then have "fs_lookup (disk (eng s')) (tbl_path t) = Some (File (file_bytes t) True)"
    by (auto simp: committed_def committed_at_def)
  with f assms(3) show ?thesis unfolding fleet_ok_def by (auto dest: inj_onD)
qed

theorem held_files_stay_witness:
  "\<exists>t. t \<in> set (held (started demo_flushed)) \<and> fs_lookup (disk demo_flushed) (tbl_path t) = Some (File (file_bytes t) True)"
proof -
  obtain t where "runs demo_flushed = [t]" using demo_run by blast
  then have "t \<in> set (held (started demo_flushed))" by (simp add: held_def started_def)
  with held_files_stay [OF demo_started(2) exec_Nil this] show ?thesis by (auto simp: started_def)
qed

text \<open>
  C12: The last handle takes the files. When a reader ends, a run it held that a compaction
  has made obsolete loses its file if nobody else holds the run, and keeps it otherwise.
\<close>

theorem last_handle_removes_files:
  assumes "sys_inv X s" and "map_of (readers s) i = Some r" and "t \<in> set (reader_handles r)"
    and "run_id t \<in> set (dead s)" and "fault_free (disk (eng s))"
  shows "fs_lookup (disk (eng (end_read i (reader_handles r) s))) (tbl_path t) = None
     \<longleftrightarrow> run_id t \<notin> run_id ` set (held (end_read i (reader_handles r) s))"
proof
  let ?s = "s\<lparr>readers := filter (\<lambda>r. fst r \<noteq> i) (readers s)\<rparr>" and ?e = "end_read i (reader_handles r) s"
  show "fs_lookup (disk (eng ?e)) (tbl_path t) = None" if "run_id t \<notin> run_id ` set (held ?e)"
    using release_removes [OF assms(3), of ?s] assms(4,5) that by (simp add: end_read_def release_fields)
  show "run_id t \<notin> run_id ` set (held ?e)" if none: "fs_lookup (disk (eng ?e)) (tbl_path t) = None"
  proof
    assume "run_id t \<in> run_id ` set (held ?e)"
    then obtain u where u: "u \<in> set (held ?e)" "run_id u = run_id t" by auto
    have "sys_inv X ?e" using end_read_ok [OF assms(1,2)] by simp
    then have f: "fleet_ok X (eng ?e) (set (held ?e))" by (simp add: sys_inv_def)
    have "readers_ok s" using assms(1) by (simp add: sys_inv_def)
    from readers_remove(2) [OF this, of i] have sub: "set (held ?e) \<subseteq> set (held s)" by (simp add: end_read_def release_fields)
    have "fleet_ok X (eng s) (set (held s))" using assms(1) by (simp add: sys_inv_def)
    moreover have "t \<in> set (held s)" using reader_held [OF assms(2)] assms(3) by auto
    ultimately have "u = t" using u sub unfolding fleet_ok_def by (auto dest: inj_onD)
    with u f none show False by (auto simp: fleet_ok_def committed_def committed_at_def)
  qed
qed

theorem last_handle_removes_files_witness:
  "\<exists>t. fs_lookup (disk (eng (end_read 0 [t]
       ((started demo_orphan)\<lparr>readers := [(0, Scanning \<lparr>start_bound = Unbounded, end_bound = Unbounded\<rparr> [] [t])], dead := [run_id t]\<rparr>))))
     (tbl_path t) = None"
proof -
  let ?r = "Scanning \<lparr>start_bound = Unbounded, end_bound = Unbounded\<rparr> []"
  let ?s = "\<lambda>t. (started demo_orphan)\<lparr>readers := [(0, ?r [t])], dead := [run_id t]\<rparr>"
  from demo_orphan_reader obtain t where i: "sys_inv demo (?s t)" and ff: "fault_free (disk demo_orphan)" by blast
  have "held (end_read 0 [t] (?s t)) = []"
    using demo_put_fields(2) by (simp add: end_read_def release_fields) (simp add: held_def started_def demo_orphan_def)
  with last_handle_removes_files [OF i, of 0 "?r [t]" t] ff
  have "fs_lookup (disk (eng (end_read 0 [t] (?s t)))) (tbl_path t) = None" by (simp add: started_def)
  then show ?thesis by blast
qed

section \<open>Compaction\<close>

text \<open>
  C10: Compaction changes no lookup. Whatever fails in it, the invariant holds afterwards,
  the buffer is untouched and every key has the value it had; when it reports success at
  most one run is left.
\<close>

theorem compaction_keeps_contents:
  assumes "store_inv X e" and "headroom e" and "sized (concat (map (run_entries X) (runs e)))"
    and "compact_inner X e = (r, e')"
  shows "store_inv X e' \<and> view X e' = view X e \<and> mem e' = mem e \<and> (r = Inr () \<longrightarrow> length (runs e') \<le> 1)"
proof -
  have X: "bloom_laws X" and inv: "engine_inv X e" using assms(1) by (simp_all add: store_inv_def)
  from compact_inner_post [OF X inv assms(2-4)] X show ?thesis by (simp add: store_inv_def)
qed

theorem compaction_keeps_contents_witness:
  "\<exists>e'. compact_inner demo demo_two = (Inr (), e') \<and> length (runs e') \<le> 1 \<and> view demo e' = [[1] \<mapsto> [2], [3] \<mapsto> [4]]"
proof -
  obtain r e' where c: "compact_inner demo demo_two = (r, e')" by fastforce
  have "engine_inv demo demo_two" using demo_two_ok(1) by (simp add: store_inv_def)
  from compact_inner_total [OF this demo_two_sized demo_two_ok(2)] c have r: "r = Inr ()" by simp
  with compaction_keeps_contents [OF demo_two_ok(1) demo_two_fields(4) demo_two_sized c] c demo_two_ok(3) show ?thesis by auto
qed

text \<open>
  C13: The thread's steps are a compaction. Left alone, the background thread goes step by
  step from the snapshot of the runs to the release of its flag and leaves the engine
  exactly as the uninterrupted compaction would, with the same result.
\<close>

theorem background_round_is_compaction:
  assumes "sys_inv X s" and "thread s = Snapshotting" and "readers s = []" and "compact_inner X (eng s) = (r, e')"
  shows "\<exists>n dd. ticks X n s = s\<lparr>eng := e', dead := dd, thread := Releasing r\<rparr>"
  using round_alone [OF assms] by (auto simp: reaches_def)

theorem background_round_is_compaction_witness:
  "\<exists>n s. ticks demo n (demo_busy demo_two) = s \<and> thread s = Releasing (Inr ()) \<and> length (runs (eng s)) \<le> 1"
proof -
  let ?e = "eng (demo_busy demo_two)"
  obtain r e' where c: "compact_inner demo ?e = (r, e')" by fastforce
  have inv: "engine_inv demo ?e" "healthy demo ?e" "headroom ?e" "sized (concat (map (run_entries demo) (runs ?e)))"
    using demo_two_ok demo_two_sized demo_two_fields(4)
    by (simp_all add: store_inv_def demo_busy_def started_def engine_inv_def healthy_def headroom_def)
  have r: "r = Inr ()" using compact_inner_total [OF inv(1,4,2)] c by simp
  have l: "length (runs e') \<le> 1" using compact_inner_post [OF demo_bloom inv(1,3,4) c] r by simp
  have "thread (demo_busy demo_two) = Snapshotting" "readers (demo_busy demo_two) = []" by (simp_all add: demo_busy_def started_def)
  from background_round_is_compaction [OF demo_busy_inv this c] obtain n dd
    where "ticks demo n (demo_busy demo_two) = (demo_busy demo_two)\<lparr>eng := e', dead := dd, thread := Releasing r\<rparr>" by blast
  with r l show ?thesis by (intro exI [of _ n]) simp
qed

text \<open>
  C17: Dropping the handle ends. Once the shutdown flag is set the thread reaches its exit
  after a bounded number of its own steps, whatever it was doing, whatever fails on the
  way and in any state: the join in the destructor returns.
\<close>

theorem shutdown_ends:
  assumes "shutdown (compaction (eng s))"
  shows "\<exists>n. \<forall>m \<ge> n. thread (ticks X m s) = Exited"
  using ticks_exit [OF assms, of X] by blast

theorem shutdown_ends_witness:
  "\<exists>n. \<forall>m \<ge> n. thread (ticks demo m ((demo_busy demo_two)\<lparr>eng := set_state (\<lambda>st. st\<lparr>shutdown := True\<rparr>) demo_two\<rparr>)) = Exited"
  by (rule shutdown_ends) (simp add: set_state_def)

text \<open>
  C18: Enough runs wake the compactor. A flush that succeeds and brings the number of runs
  to the configured trigger or above leaves work pending, so that the waiting thread
  takes a step.
\<close>

theorem trigger_wakes_compactor:
  assumes "flush_locked X (eng s) = (Inr (), e')" and "unat (compaction_trigger_runs (eng_config e')) \<le> length (runs e')"
    and "thread s = Waiting"
  shows "pending (compaction e') \<and> thread_step X (thread s) (s\<lparr>eng := e'\<rparr>) \<noteq> None"
proof -
  have "pending (compaction e')"
    using assms(1,2) by (auto simp: flush_locked_def Let_def signal_compaction_def memtable_take_def
        split: prod.splits sum.splits if_splits)
  with assms(3) show ?thesis by (simp add: wait_step_def Let_def)
qed

theorem trigger_wakes_compactor_witness:
  "\<exists>e'. flush_locked demo (demo_second\<lparr>eng_config := compaction_trigger config_default 2\<rparr>) = (Inr (), e') \<and> pending (compaction e')"
proof -
  let ?e = "demo_second\<lparr>eng_config := compaction_trigger config_default 2\<rparr>"
  have i: "engine_inv demo ?e" "healthy demo ?e" "sized (entries (mem ?e))" "headroom ?e" "wal_path (dur ?e) = WAL_FILE"
    using demo_second_step(1,2,9)
    by (simp_all add: store_inv_def engine_inv_def healthy_def admits_op_def admits_ops_def headroom_def)
  from flush_locked_total [OF i(1,3,2)] obtain e' where fl: "flush_locked demo ?e = (Inr (), e')" by (metis prod.collapse)
  have "flush_post demo ?e (Inr (), e')" using flush_locked_post [OF demo_bloom i(1,4,3,5)] fl by simp
  then have l: "length (runs e') = Suc (length (runs demo_second))" and c: "eng_config e' = compaction_trigger config_default 2"
    by (auto simp: flush_post_def flushed_def)
  have "length (map (run_entries demo) (runs demo_second)) = 1" unfolding demo_second_step(5) demo_flushed_fields(4) by simp
  with l have l2: "length (runs e') = 2" by simp
  have "unat (compaction_trigger_runs (eng_config e')) \<le> length (runs e')"
    unfolding c l2 by (simp add: compaction_trigger_def compaction_trigger_runs_def)
  with trigger_wakes_compactor [of demo "started ?e" e'] fl show ?thesis by (simp add: started_def)
qed

section \<open>Recovery\<close>

text \<open>
  C19: Opening clears the debris and nothing else. A successful directory sweep removes a file
  if and only if it is a temporary, a sidecar of a run the manifest does not name, or a run
  file it does not name; every other file, whatever its name, is as it was. The sequence
  number does not go back and is past the number of every run file that was in the
  directory, listed or not, except for the largest 64-bit number, where the code's
  \<^verbatim>\<open>seq + 1\<close> overflows.
\<close>

theorem orphans_reclaimed:
  assumes "reclaim live (map fst (dir d)) seq d = (Inr seq', d')"
  shows "fs_lookup d' n = (if (\<exists>p. n = p @ ''.tmp'') \<or> (\<exists>r. n = r @ ''.bloom'' \<and> r \<notin> set live)
            \<or> (\<exists>s. seq_of n = Some s) \<and> n \<notin> set live then None else fs_lookup d n)
     \<and> seq \<le> seq' \<and> (fs_lookup d n \<noteq> None \<and> seq_of n = Some s \<and> s \<noteq> - 1 \<longrightarrow> s < seq')"
proof -
  note r = reclaim_ok [OF assms]
  have "fs_lookup d' n = (if reclaimable live n then None else fs_lookup d n)"
    using r fs_lookup_dir [of d n] by (metis (no_types, lifting))
  moreover have "s < seq'" if "fs_lookup d n \<noteq> None" "seq_of n = Some s" "s \<noteq> - 1"
  proof -
    have "s + 1 \<noteq> 0" using that(3) by (metis add_eq_0_iff2)
    then have "s < s + 1" by (rule less_succ_u64)
    moreover have "s + 1 \<le> seq'" using r that(1,2) fs_lookup_dir [of d n] by blast
    ultimately show ?thesis by simp
  qed
  ultimately show ?thesis using r unfolding reclaimable_iff by blast
qed

theorem orphans_reclaimed_witness:
  "\<exists>seq d. reclaim [] [''README'', run_filename 7, ''x.tmp''] 0
       \<lparr>dir = [(''README'', File [3] True), (run_filename 7, File [] True), (''x.tmp'', File [] True)], plan = (\<lambda>n. None), clock = 0, undo = []\<rparr> = (Inr seq, d)
     \<and> fs_lookup d (run_filename 7) = None \<and> fs_lookup d ''x.tmp'' = None \<and> fs_lookup d ''README'' = Some (File [3] True) \<and> 7 < seq"
proof -
  let ?names = "[''README'', run_filename 7, ''x.tmp'']"
  let ?d = "\<lparr>dir = [(''README'', File [3] True), (run_filename 7, File [] True), (''x.tmp'', File [] True)], plan = (\<lambda>n. None), clock = 0, undo = []\<rparr>"
  have ne: "run_filename 7 \<noteq> ''x.tmp''" "run_filename 7 \<noteq> ''README''" by (simp_all add: run_filename_def)
  have lk: "fs_lookup ?d ''README'' = Some (File [3] True)" "fs_lookup ?d (run_filename 7) = Some (File [] True)"
    "fs_lookup ?d ''x.tmp'' = Some (File [] True)" using ne by (simp_all add: fs_lookup_def btree_get_def)
  then have "\<forall>n \<in> set ?names. fs_lookup ?d n \<noteq> None" by simp
  with reclaim_total [of ?d ?names "[]" 0] ne obtain seq d
    where r: "reclaim [] ?names 0 ?d = (Inr seq, d)" by (auto simp: fault_free_def)
  then have o: "reclaim [] (map fst (dir ?d)) 0 ?d = (Inr seq, d)" by simp
  have rd: "seq_of ''README'' = None" "\<nexists>p. ''README'' = p @ ''.tmp''" "\<nexists>p. ''README'' = p @ ''.bloom''"
    by (simp_all add: seq_of_def strip_prefix_def append_eq_Cons_conv Cons_eq_append_conv)
  from orphans_reclaimed [OF o, of "''README''"] rd lk(1) have "fs_lookup d ''README'' = Some (File [3] True)" by simp
  moreover have "\<exists>p. ''x.tmp'' = p @ ''.tmp''" by (rule exI [of _ "''x''"]) simp
  with orphans_reclaimed [OF o, of "''x.tmp''"] have "fs_lookup d ''x.tmp'' = None" by simp
  moreover from orphans_reclaimed [OF o, of "run_filename 7" 7] lk(2) have "fs_lookup d (run_filename 7) = None" "7 < seq"
    by (simp_all add: seq_of_run_filename)
  ultimately show ?thesis using r by blast
qed

text \<open>
  C15: Reopening succeeds. On a disk without faults, after a power failure in any durable
  state, the store opens, satisfies its invariant and shows the contents it had.
\<close>

theorem reopening_succeeds:
  assumes "store_inv X e" and "wal_laws X" and "pc_total X" and "durable X e" and "replay_fits X (disk e)"
    and "crashes X (disk e) d" and "fault_free d" and "room rid d (length (runs e))"
  shows "\<exists>e' d'. open_with X cfg rid d = (Inr e', d') \<and> store_inv X e' \<and> view X e' = view X e"
  by (rule durable_reopens [OF assms])

theorem reopening_succeeds_witness:
  "\<exists>e' d'. open_with demo config_default 1 (disk demo_put) = (Inr e', d') \<and> store_inv demo e' \<and> view demo e' = view demo demo_put"
  by (rule reopening_succeeds [OF demo_put_ok(1) demo_wal demo_pc demo_put_durable demo_crash(3,1) demo_put_files(2) demo_crash(2)])

section \<open>Runs, filters and merges\<close>

text \<open>
  C20: A run reads back. What a flush writes, streamed into blocks, indexed, summarised in a
  filter, sealed under its name and opened again, answers every lookup with the record
  of the buffer it was written from, through any coherent state of the block cache.
\<close>

theorem flushed_run_reads_back:
  assumes "bloom_laws X" and "asc_keys es" and "sized es" and "fs_lookup d (sidecar_path p) = None"
    and "flush_run X p rid es d = (Inr t, d')"
    and "cache_coherent X {t} n c" and "rid < n"
  shows "fst (sstable_lookup X t k c) = Inr (map_of es k) \<and> (map_of es k \<noteq> None \<longrightarrow> might_contain X t k)"
proof -
  note t = flush_run_ok [OF assms(1-5)]
  have g: "good_run X t" using t committed_good by blast
  have "ids_unique {t} n" using t assms(7) by (simp add: ids_unique_def)
  from lookup_good [OF g assms(6) _ this, of k] might_contain_keys [OF g, of k] t show ?thesis
    by (cases "might_contain X t k") auto
qed

theorem flushed_run_reads_back_witness:
  "\<exists>t d. flush_run demo (run_filename 0) 1 [([1], Value [2]), ([3], Tombstone)] demo_disk = (Inr t, d)
     \<and> fst (sstable_lookup demo t [3] (cache_new 65536)) = Inr (Some Tombstone)"
proof -
  let ?es = "[([1], Value [2]), ([3], Tombstone)] :: entry list"
  have es: "asc_keys ?es" by simp
  have sz: "sized ?es" by (rule sized_small) simp_all
  have ff: "fault_free demo_disk" by (simp add: fault_free_def demo_disk_def)
  obtain t d where f: "flush_run demo (run_filename 0) 1 ?es demo_disk = (Inr t, d)"
    using flush_run_total [OF ff demo_pc es sz] by blast
  have co: "cache_coherent demo {t} 2 (cache_new 65536)" by (rule cache_new_coherent)
  from flushed_run_reads_back [OF demo_bloom es sz fresh_sidecar [OF demo_disk_ok] f co, of "[3]"] f
  show ?thesis by simp
qed

text \<open>
  C21: A merge yields exactly the live pairs. Merging the buffer with any number of runs,
  newest first, ends without an error and yields in strictly ascending order the pairs
  whose newest record is a value; keys whose newest record is a tombstone and older
  records of a key do not appear.
\<close>

theorem merge_exact:
  assumes "asc_keys m" and "\<forall>t \<in> set ts. good_run X t"
  shows "snd (merge_items X (merge_new m (map cursor_new ts))) = None
     \<and> asc_keys (fst (merge_items X (merge_new m (map cursor_new ts))))
     \<and> map_of (fst (merge_items X (merge_new m (map cursor_new ts)))) = resolve (m # map (run_entries X) ts)"
proof -
  note rd = merge_new_ready [OF assms]
  from merge_items_ok [OF rd(1,2)] rd(3) show ?thesis by simp
qed

theorem merge_exact_witness:
  "\<exists>t. runs demo_flushed = [t] \<and> map_of (fst (merge_items demo (merge_new [([1], Tombstone), ([5], Value [6])] [cursor_new t]))) = [[5] \<mapsto> [6]]"
proof -
  obtain t where t: "runs demo_flushed = [t]" "run_entries demo t = [([1], Value [2])]" using demo_run by blast
  have "good_run demo t"
    using engine_inv_reads [of demo demo_flushed] demo_flushed_ok(1) t(1) by (simp add: store_inv_def reads_inv_def)
  with merge_exact [of "[([1], Tombstone), ([5], Value [6])]" "[t]" demo] t
  show ?thesis by (auto simp: resolve_def fun_eq_iff)
qed

text \<open>
  C22: Damage surfaces. If a block of some run cannot be read or fails its checks, a scan
  with no upper bound does not end as if the run stopped there: it returns an error, and
  the error is one that reading a run produced.
\<close>

theorem scan_surfaces_damage:
  assumes "memtable_inv (mem e)" and "\<forall>t \<in> set (runs e). asc_keys (cursor_view X (cursor_new t))"
    and "t \<in> set (runs e)" and "cursor_fault X (cursor_new t) \<noteq> None" and "end_bound rng = Unbounded"
  shows "\<exists>err u. engine_scan X rng e = Inl err \<and> u \<in> set (runs e) \<and> cursor_fault X (cursor_new u) = Some err"
proof -
  let ?m = "filter (\<lambda>e. position rng (fst e) = In) (memtable_iter (mem e))"
  let ?src = "merge_new ?m (map cursor_new (runs e))"
  have "asc_keys ?m" using assms(1) by (simp add: memtable_inv_def memtable_iter_def asc_keys_filter)
  then have rd: "src.ready X ?src"
    using assms(2) cursor_inv_new by (auto simp: src.ready_def merge_new_def)
  have bad: "Run (cursor_new t) \<in> set ?src" "source_fault X (Run (cursor_new t)) \<noteq> None"
    using assms(3,4) by (simp_all add: merge_new_def)
  have "snd (merge_items X ?src) \<noteq> None"
  proof
    assume "snd (merge_items X ?src) = None"
    with merge_items_drained [OF rd] bad show False by (auto simp: drained_def)
  qed
  then obtain err where err: "snd (merge_items X ?src) = Some err" by blast
  then obtain s where s: "s \<in> set ?src" "source_fault X s = Some err"
    using merge_items_drained [OF rd] by (auto simp: drained_def)
  then obtain u where u: "u \<in> set (runs e)" "cursor_fault X (cursor_new u) = Some err" by (auto simp: merge_new_def)
  have "scan_loop X rng ?src [] = Inl err" by (simp add: scan_loop_items err scan_items_unbounded [OF assms(5)])
  then have "engine_scan X rng e = Inl err" by (simp add: engine_scan_def Let_def)
  with u show ?thesis by blast
qed

theorem scan_surfaces_damage_witness:
  "\<exists>t err. runs demo_flushed = [t] \<and>
     engine_scan demo \<lparr>start_bound = Unbounded, end_bound = Unbounded\<rparr> (demo_flushed\<lparr>runs := [t\<lparr>file_bytes := []\<rparr>]\<rparr>) = Inl err"
proof -
  obtain t where t: "runs demo_flushed = [t]" "run_entries demo t = [([1], Value [2])]" using demo_run by blast
  let ?t = "t\<lparr>file_bytes := []\<rparr>" and ?rng = "\<lparr>start_bound = Unbounded, end_bound = Unbounded\<rparr>"
  have "good_run demo t"
    using engine_inv_reads [of demo demo_flushed] demo_flushed_ok(1) t(1) by (simp add: store_inv_def reads_inv_def)
  then obtain bss where b: "table_of demo t bss" by (auto simp: good_run_def)
  have "concat bss = [([1], Value [2])]" using t(2) table_entries [OF b] by simp
  then obtain b0 bs where bss: "bss = b0 # bs" by (cases bss) auto
  have "b0 \<noteq> []" "length (enc_block b0) < 2 ^ 32" using b bss by (simp_all add: table_of_def readable_def)
  then have "unat (len (tbl_index t ! 0)) \<noteq> 0" and ne: "tbl_index t \<noteq> []"
    using b bss by (simp_all add: table_of_def neq_Nil_conv)
  then have "\<exists>e. read_block demo ?t 0 = Inl e"
    by (simp add: read_block_def decode_block_at_def pread_exact_def Let_def)
  then obtain e where "read_block demo ?t 0 = Inl e" by blast
  then have bv: "blocks_view demo ?t 0 = ([], Some e)" using ne by (simp add: blocks_view.simps)
  have "memtable_inv (mem demo_flushed)" using memtable_new_inv by (simp add: demo_flushed_fields)
  from scan_surfaces_damage [of "demo_flushed\<lparr>runs := [?t]\<rparr>" demo ?t ?rng] this bv t(1)
  show ?thesis by (auto simp: cursor_view_def cursor_fault_def cursor_new_def)
qed

text \<open>
  C23: The block cache is invisible. A block fetched through the cache, on a hit, on a miss
  and with the cache switched off, is the block decoded from the file, errors included,
  and the fetch leaves the cache coherent for the next one.
\<close>

theorem cache_transparent:
  assumes "cache_coherent X T n c" and "t \<in> T" and "ids_unique T n"
    and "i < length (tbl_index t)" and "length (tbl_index t) \<le> 2 ^ 32"
  shows "fst (cached_block X t i c) = decode_block_at X t i \<and> cache_coherent X T n (snd (cached_block X t i c))"
  by (rule cached_block_correct [OF assms])

theorem cache_transparent_witness:
  "\<exists>t. runs demo_flushed = [t]
     \<and> fst (cached_block demo t 0 (snd (cached_block demo t 0 (cache_new 65536)))) = decode_block_at demo t 0"
proof -
  obtain t where t: "runs demo_flushed = [t]" "run_entries demo t = [([1], Value [2])]" using demo_run by blast
  have "good_run demo t"
    using engine_inv_reads [of demo demo_flushed] demo_flushed_ok(1) t(1) by (simp add: store_inv_def reads_inv_def)
  then obtain bss where b: "table_of demo t bss" "length bss \<le> 2 ^ 32" by (auto simp: good_run_def)
  have "concat bss \<noteq> []" using t(2) table_entries [OF b(1)] by simp
  then have i: "0 < length (tbl_index t)" "length (tbl_index t) \<le> 2 ^ 32" using b by (auto simp: table_of_def)
  have "run_id t < 2"
    using demo_flushed_ok(1) t(1) demo_flushed_fields(3) by (simp add: store_inv_def engine_inv_def handles_ok_def)
  then have u: "ids_unique {t} 2" by (simp add: ids_unique_def)
  have co: "cache_coherent demo {t} 2 (cache_new 65536)" by (rule cache_new_coherent)
  from cache_transparent [OF co _ u i] have "cache_coherent demo {t} 2 (snd (cached_block demo t 0 (cache_new 65536)))" by simp
  from cache_transparent [OF this _ u i] t(1) show ?thesis by simp
qed

text \<open>
  A sidecar reads back: after a successful write of a filter beside its run, a load
  whose read does not fail gives the same filter and changes no file.
\<close>

theorem sidecar_written_loads:
  assumes "bloom_laws X" and "bloom_on X" and "write_sidecar X f p d = (Inr (), d1)" and "plan d1 (clock d1) = None"
  shows "filter_load X p d1 = (Inr (Some f), tick d1)"
proof -
  from assms(2,3) obtain payload where pay: "pc_to_bytes X f = Some payload"
    and fl: "\<exists>g. fs_lookup d1 (sidecar_path p) = Some g \<and> fdata g = sidecar_bytes X payload"
    by (auto simp: write_sidecar_def fs_write_def fs_create_def fs_write_all_def fs_rename_def Let_def act_map_err_Inr_iff
        elim!: act_then_InrE split: option.splits)
  from fl obtain g where g: "fs_lookup d1 (sidecar_path p) = Some g" "fdata g = sidecar_bytes X payload" by blast
  show ?thesis
    using assms(2,4) g sidecar_roundtrip [OF assms(1) pay]
    by (auto simp: filter_load_def fs_read_def Let_def split: option.splits if_splits)
qed

text \<open>
  C26: A sidecar is used exactly when it is whole. Loading one succeeds on a working disk. It
  gives a filter if and only if the file is the magic, the little-endian checksum of the
  rest, and a rest that deserialises to that filter; then no file changes. Any other file,
  too short, with another magic, failing its checksum or not deserialising, is treated as
  absent and removed, and nothing else changes.
\<close>

theorem sidecar_load_exact:
  assumes "bloom_on X" and "fault_free d" and "fs_lookup d (sidecar_path p) = Some g"
  shows "\<exists>fo d'. filter_load X p d = (Inr fo, d')
     \<and> (\<forall>f. fo = Some f \<longleftrightarrow> (\<exists>payload. fdata g = ascii ''LSMBLM01'' @ u32_to_le_bytes (crc32c X payload) @ payload
                            \<and> pc_from_bytes X payload = Some f))
     \<and> (\<forall>n. fs_lookup d' n = (if n = sidecar_path p \<and> fo = None then None else fs_lookup d n))"
  unfolding sidecar_decode_exact [symmetric]
  using assms by (cases "sidecar_decode X (fdata g)") (simp_all add: filter_load_def fs_read_def fs_remove_file_def Let_def)

text \<open>A sidecar whose payload was changed under its checksum, and the same payload under the right one.\<close>

theorem sidecar_load_exact_witness:
  "\<exists>d1 d2. filter_load demo ''r'' \<lparr>dir = [(''r.bloom'', File (sidecar_bytes demo [1, 5, 0]) False)], plan = (\<lambda>n. None), clock = 0, undo = []\<rparr>
       = (Inr (Some [[5]]), d1)
     \<and> filter_load demo ''r'' \<lparr>dir = [(''r.bloom'', File (sidecar_bytes demo [1, 5, 0] @ [9]) False)], plan = (\<lambda>n. None), clock = 0, undo = []\<rparr>
       = (Inr None, d2) \<and> fs_lookup d2 ''r.bloom'' = None"
proof -
  let ?d = "\<lambda>bs. \<lparr>dir = [(''r.bloom'', File bs False)], plan = (\<lambda>n. None), clock = 0, undo = []\<rparr>"
  have ok: "bloom_on demo" "fault_free (?d bs)" "fs_lookup (?d bs) (sidecar_path ''r'') = Some (File bs False)" for bs
    by (simp_all add: demo_def fault_free_def fs_lookup_def btree_get_def sidecar_path_def)
  let ?good = "sidecar_bytes demo [1, 5, 0]" and ?bad = "sidecar_bytes demo [1, 5, 0] @ [9]"
  have g: "sidecar_decode demo ?good = Some [[5]]"
    by (rule sidecar_roundtrip [OF demo_bloom]) (simp add: demo_def frame_def)
  have b: "sidecar_decode demo ?bad = None" by (simp add: demo_def) code_simp
  from sidecar_load_exact [OF ok, of ?good] g obtain d1 where "filter_load demo ''r'' (?d ?good) = (Inr (Some [[5]]), d1)"
    unfolding sidecar_decode_exact by fastforce
  moreover from sidecar_load_exact [OF ok, of ?bad] b obtain d2 where "filter_load demo ''r'' (?d ?bad) = (Inr None, d2)"
    "fs_lookup d2 ''r.bloom'' = None" unfolding sidecar_decode_exact [symmetric] by (auto simp: sidecar_path_def)
  ultimately show ?thesis by blast
qed

section \<open>A way to lose data\<close>

text \<open>
  C27: A failed flush loses acknowledged writes. Let a flush fail once before its run is in
  the list, then let the disk work again, one more write and one more flush succeed: that
  flush empties the log, the only place the earlier writes were left in. What is durable
  from then on, and what a reopen would show, are the runs of before and the new write,
  none of the writes that were buffered when the first flush failed.
\<close>

theorem failed_flush_loses_writes:
  assumes "store_inv X e" and "wal_laws X" and "durability_on X" and "admits_op X e FlushOp"
    and "flush_locked X e = (Inl err, e1)" and "runs e1 = runs e"
    and "admits_op X e1 (PutOp k v)" and "run_op X (PutOp k v) e1 = (Inr (), e2)"
    and "admits_op X e2 FlushOp" and "fault_free (disk e2)" and "flush_locked X e2 = (Inr (), e3)"
  shows "durable X e3 \<and> view X e3 = (resolve (map (run_entries X) (runs e)))(k \<mapsto> v)"
proof -
  have X: "bloom_laws X" using assms(1) by (simp add: store_inv_def)
  note v1 = flush_failed_view [OF assms(1,4-6)]
  have "store_inv X e2" and v2: "view X e2 = (view X e1)(k \<mapsto> v)"
    using run_op_correct [OF v1(1) assms(7)] assms(8) by (simp_all add: op_effect_def spec_apply_def)
  then have "engine_inv X e2" by (simp add: store_inv_def)
  then have "durable X e3 \<and> view X e3 = view X e2"
    using flush_makes_durable [OF X assms(2,3)] assms(9-11) by (simp add: admits_op_def admits_ops_def)
  with v1(2) v2 show ?thesis by simp
qed

theorem failed_flush_loses_writes_witness:
  "durable demo demo_lossy \<and> view demo demo_glitch = [[1] \<mapsto> [2]] \<and> view demo demo_lossy = [[3] \<mapsto> [4]]"
proof -
  have "admits_op demo demo_failed (PutOp [3] [4])" by (rule admits_put [OF demo_failed_ok(2,3,5)])
  moreover have "run_op demo (PutOp [3] [4]) demo_failed = (Inr (), demo_later)"
    using run_op_good(3) [OF demo_failed_ok(1) calculation demo_failed_ok(2)] by (simp add: demo_later_def prod_eq_iff)
  moreover have "fault_free (disk demo_later)" using demo_later_step(2) by (simp add: healthy_def)
  ultimately show ?thesis
    using failed_flush_loses_writes [OF demo_glitch_ok(1) demo_wal demo_on demo_glitch_ok(2) demo_failed_eq(1),
        of "[3]" "[4]" demo_later demo_lossy] demo_failed_eq(2) demo_glitch_ok(4,5) demo_later_step(9) demo_lossy_step(1)
    by (simp add: resolve_def fun_eq_iff)
qed

end
